(* ===== verification/Prelude.thy ===== *)
theory Prelude
  imports Main "HOL-Library.Word"
begin

text \<open>
  Shared vocabulary of the development: the C integer types as words, counted loops over words,
  first-match search in fixed tables, and the lemma collections the component theories use.
\<close>

unbundle bit_operations_syntax

section \<open>Machine types\<close>

type_synonym u8 = "8 word"
type_synonym u16 = "16 word"
type_synonym u32 = "32 word"
type_synonym u64 = "64 word"

text \<open>A C string pointer: \<open>None\<close> is \<open>nullptr\<close>, \<open>Some s\<close> points to the characters of
  \<open>s\<close> followed by the terminating zero byte.\<close>

type_synonym cstr = "string option"

named_theorems pmm_simps \<open>effect of the physical memory manager's operations on each field\<close>
named_theorems mem_simps \<open>reads after writes of physical memory\<close>
named_theorems sched_simps \<open>effect of the scheduler's operations on each field\<close>
named_theorems term_simps \<open>effect of the terminal's operations on each field\<close>
named_theorems vfs_simps \<open>effect of the file system's operations on each field\<close>
named_theorems usr_simps \<open>effect of the process manager's operations on each field\<close>

section \<open>Words\<close>

lemma unat_Suc_word: "a < b \<Longrightarrow> unat (a + 1) = Suc (unat a)" for a b :: "'a::len word"
proof -
  assume "a < b"
  then have "unat a < unat b" and "unat b < 2 ^ LENGTH('a)"
    by (simp_all only: word_less_nat_alt unsigned_less)
  then show ?thesis by (simp add: unat_word_ariths del: unsigned_less)
qed

lemma word_Suc_le: "a < b \<Longrightarrow> a + 1 \<le> b" for a b :: "'a::len word"
  by (simp add: inc_le)

lemma word_less_Suc: "a < b \<Longrightarrow> p < a + 1 \<longleftrightarrow> p < a \<or> p = a" for a b p :: "'a::len word"
  by (auto simp: word_less_nat_alt word_unat_eq_iff unat_Suc_word [unfolded word_less_nat_alt] less_Suc_eq)

lemma unat_pred_word: "0 < a \<Longrightarrow> unat (a - 1) = unat a - 1" for a :: "'a::len word"
  by (auto simp: unat_minus_one word_neq_0_conv)

lemma unat_sub_word: "b \<le> a \<Longrightarrow> unat (a - b) = unat a - unat b" for a b :: "'a::len word"
  by (simp add: unat_sub)

lemma unat_add_word: "unat a + unat b < 2 ^ LENGTH('a) \<Longrightarrow> unat (a + b) = unat a + unat b"
  for a b :: "'a::len word"
  using unat_add_lem by blast

lemma unat_ucast_mod: "unat (ucast w :: 'b::len word) = unat w mod 2 ^ LENGTH('b)" for w :: "'a::len word"
  by (simp add: unsigned_ucast_eq unsigned_take_bit_eq take_bit_eq_mod)

lemma unat_ucast_up: "LENGTH('a) \<le> LENGTH('b) \<Longrightarrow> unat (ucast w :: 'b::len word) = unat w" for w :: "'a::len word"
proof -
  assume "LENGTH('a) \<le> LENGTH('b)"
  then have "(2 :: nat) ^ LENGTH('a) \<le> 2 ^ LENGTH('b)" by simp
  with unsigned_less have "unat w < 2 ^ LENGTH('b)" by (rule order.strict_trans2)
  then show ?thesis by (simp add: unat_ucast_mod)
qed

lemma unat_of_nat_small: "n < 2 ^ LENGTH('a) \<Longrightarrow> unat (of_nat n :: 'a::len word) = n"
  by (simp add: unsigned_of_nat take_bit_nat_eq_self)

section \<open>Counted loops\<close>

text \<open>The values a loop \<open>for (i = a; i < b; ++i)\<close> gives to its index. The index never
  reaches the end of its type, since it stays below \<open>b\<close>.\<close>

definition wrange :: "'a::len word \<Rightarrow> 'a word \<Rightarrow> 'a word list" where
  "wrange a b = map of_nat [unat a ..< unat b]"

lemma set_wrange [simp]: "x \<in> set (wrange a b) \<longleftrightarrow> a \<le> x \<and> x < b"
proof
  assume "x \<in> set (wrange a b)"
  then obtain n where n: "unat a \<le> n" "n < unat b" "x = of_nat n"
    by (auto simp: wrange_def)
  then have "unat x = n"
    by (metis of_nat_inverse order.strict_trans unsigned_less)
  with n show "a \<le> x \<and> x < b"
    by (simp add: word_le_nat_alt word_less_nat_alt)
next
  assume "a \<le> x \<and> x < b"
  then have "unat x \<in> {unat a ..< unat b}" and "x = of_nat (unat x)"
    by (auto simp: word_le_nat_alt word_less_nat_alt)
  then show "x \<in> set (wrange a b)"
    unfolding wrange_def by (metis image_eqI set_map set_upt)
qed

lemma length_wrange [simp]: "length (wrange a b) = unat b - unat a"
  by (simp add: wrange_def)

lemma nth_wrange: "i < unat b - unat a \<Longrightarrow> wrange a b ! i = a + of_nat i"
  by (simp add: wrange_def)

lemma distinct_wrange [simp]: "distinct (wrange a b)"
proof -
  have "inj_on (of_nat :: nat \<Rightarrow> 'a word) {unat a ..< unat b}"
    by (rule inj_onI)
      (metis atLeastLessThan_iff of_nat_inverse order.strict_trans unsigned_less)
  then show ?thesis by (simp add: wrange_def distinct_map)
qed

lemma wrange_empty [simp]: "b \<le> a \<Longrightarrow> wrange a b = []"
  by (simp add: wrange_def word_le_nat_alt)

lemma wrange_Cons: "a < b \<Longrightarrow> wrange a b = a # wrange (a + 1) b"
  by (simp add: wrange_def unat_Suc_word upt_conv_Cons word_less_nat_alt)

lemma wrange_snoc: "a \<le> b \<Longrightarrow> b < c \<Longrightarrow> wrange a (b + 1) = wrange a b @ [b]"
  by (simp add: wrange_def unat_Suc_word word_le_nat_alt)

lemma map_unat_wrange: "map (\<lambda>i. f (unat i)) (wrange 0 n) = map f [0..<unat n]" for n :: "'a::len word"
proof -
  have "unat (of_nat x :: 'a word) = x" if "x < unat n" for x
    by (metis of_nat_inverse order.strict_trans that unsigned_less)
  then show ?thesis by (simp add: wrange_def)
qed

text \<open>A loop that gives up at the first step that fails; what the steps before it did stays.\<close>

fun each_ok :: "('a \<Rightarrow> 's \<Rightarrow> bool \<times> 's) \<Rightarrow> 'a list \<Rightarrow> 's \<Rightarrow> bool \<times> 's" where
  "each_ok f [] s = (True, s)"
| "each_ok f (x # xs) s = (let (ok, s) = f x s in if ok then each_ok f xs s else (False, s))"

section \<open>First match in a table\<close>

text \<open>Index of the first entry of a table that satisfies \<open>P\<close>: what the code's loops
  \<open>for (auto& e : table) if (P(e)) return &e;\<close> compute.\<close>

fun find_idx :: "('a \<Rightarrow> bool) \<Rightarrow> 'a list \<Rightarrow> nat option" where
  "find_idx P [] = None"
| "find_idx P (x # xs) = (if P x then Some 0 else map_option Suc (find_idx P xs))"

lemma find_idx_None: "find_idx P xs = None \<longleftrightarrow> (\<forall>x \<in> set xs. \<not> P x)"
  by (induction xs) auto

lemma find_idx_Some:
  "find_idx P xs = Some i \<longleftrightarrow> i < length xs \<and> P (xs ! i) \<and> (\<forall>j < i. \<not> P (xs ! j))"
proof (induction xs arbitrary: i)
  case Nil
  then show ?case by simp
next
  case (Cons x xs)
  show ?case
    by (cases i) (auto simp: Cons.IH less_Suc_eq_0_disj)
qed

lemma find_idx_bound: "find_idx P xs = Some i \<Longrightarrow> i < length xs"
  by (simp add: find_idx_Some)

lemma find_idx_holds: "find_idx P xs = Some i \<Longrightarrow> P (xs ! i)"
  by (simp add: find_idx_Some)

lemma find_idx_cong:
  "length xs = length ys \<Longrightarrow> (\<And>i. i < length xs \<Longrightarrow> P (xs ! i) = Q (ys ! i)) \<Longrightarrow>
   find_idx P xs = find_idx Q ys"
proof (induction xs ys rule: list_induct2)
  case Nil
  then show ?case by simp
next
  case (Cons x xs y ys)
  have "P x = Q y" using Cons.prems [of 0] by simp
  moreover have "find_idx P xs = find_idx Q ys"
    using Cons.prems by (intro Cons.IH) force
  ultimately show ?case by simp
qed

lemma find_idx_update_other:
  assumes "i < length xs" and "P y = P (xs ! i)"
  shows "find_idx P (xs[i := y]) = find_idx P xs"
proof (rule find_idx_cong)
  show "P (xs[i := y] ! j) = P (xs ! j)" if "j < length (xs[i := y])" for j
    by (cases "j = i") (simp_all add: assms)
qed simp

text \<open>An entry that is the only one of its kind is the one the search finds.\<close>

lemma find_idx_unique:
  assumes "i < length xs" and "P (xs ! i)" and "\<And>j. j < length xs \<Longrightarrow> P (xs ! j) \<Longrightarrow> j = i"
  shows "find_idx P xs = Some i"
  unfolding find_idx_Some by (metis assms less_trans nat_neq_iff)

section \<open>Arrays\<close>

lemma nth_update_at: "j < length xs \<Longrightarrow> xs[i := x] ! j = (if i = j then x else xs ! j)"
  by simp

section \<open>Counting\<close>

definition count_if :: "('a \<Rightarrow> bool) \<Rightarrow> 'a list \<Rightarrow> nat" where
  "count_if P xs = length (filter P xs)"

lemma count_if_simps [simp]:
  "count_if P [] = 0"
  "count_if P (x # xs) = (if P x then Suc (count_if P xs) else count_if P xs)"
  "count_if P (xs @ ys) = count_if P xs + count_if P ys"
  by (auto simp: count_if_def)

lemma count_if_le: "count_if P xs \<le> length xs"
  by (simp add: count_if_def)

lemma count_if_card: "distinct xs \<Longrightarrow> count_if P xs = card {x \<in> set xs. P x}"
  by (simp add: count_if_def flip: distinct_card set_filter)

section \<open>Bounded histories\<close>

text \<open>The last \<open>n\<close> elements of a list, and insertion into a list that keeps at most \<open>n\<close> of them.\<close>

definition fifo_push :: "nat \<Rightarrow> 'a list \<Rightarrow> 'a \<Rightarrow> 'a list" where
  "fifo_push n xs c = (if length xs = n then tl xs else xs) @ [c]"

definition lastn :: "nat \<Rightarrow> 'a list \<Rightarrow> 'a list" where
  "lastn n xs = drop (length xs - n) xs"

lemma length_lastn [simp]: "length (lastn n xs) = min n (length xs)"
  by (simp add: lastn_def)

lemma lastn_short [simp]: "length xs \<le> n \<Longrightarrow> lastn n xs = xs"
  by (simp add: lastn_def)

lemma lastn_snoc: "0 < n \<Longrightarrow> fifo_push n (lastn n xs) c = lastn n (xs @ [c])"
proof (cases "n \<le> length xs")
  case True
  assume n: "0 < n"
  then have "Suc (length xs) - n = Suc (length xs - n)" using True by simp
  with True n show ?thesis by (simp add: fifo_push_def lastn_def tl_drop drop_Suc)
next
  case False
  then show ?thesis by (simp add: fifo_push_def)
qed

lemma lastn_lastn_append [simp]: "lastn n (lastn n xs @ ys) = lastn n (xs @ ys)"
proof (cases "length xs \<le> n")
  case False
  then have "drop (length ys) (drop (length xs - n) xs @ ys) = drop (length ys) (drop (length xs - n) (xs @ ys))"
    by simp
  with False show ?thesis by (simp add: lastn_def add.commute del: drop_append)
qed simp

end
