(* ===== verification/Pmm.thy ===== *)
theory Pmm
  imports Prelude
begin

text \<open>
  The bitmap physical memory manager (\<open>kernel/src/mm/pmm.cpp\<close>, \<open>kernel/include/hk/mm/pmm.hpp\<close>):
  its state, every operation of the class, and the invariant that ties the bitmap to the counters.
  The bitmap array is a function from the byte index; the code guards every index against
  \<open>kPmmBitmapPages\<close>. The lock is elided: each operation runs to its end.
\<close>

section \<open>Constants and the boot information the manager reads\<close>

definition kPageSize :: u64 where "kPageSize = 4096"

definition kPmmBitmapPages :: u64 where "kPmmBitmapPages = 1024 * 1024"

definition align_down :: "u64 \<Rightarrow> u64 \<Rightarrow> u64" where
  "align_down value align = value AND NOT (align - 1)"

definition align_up :: "u64 \<Rightarrow> u64 \<Rightarrow> u64" where
  "align_up value align = (value + align - 1) AND NOT (align - 1)"

datatype MemoryType =
  Reserved | Usable | BootServices | RuntimeServices | AcpiReclaim | AcpiNvs | Mmio | Bad

record MemoryRegion =
  r_base :: u64
  r_length :: u64
  r_type :: MemoryType

record BootModule =
  m_base :: u64
  m_size :: u64
  m_path :: string

record FramebufferInfo =
  fb_base :: u64
  fb_width :: u32
  fb_height :: u32
  fb_pixels_per_scanline :: u32
  fb_bytes_per_pixel :: u32

text \<open>The two arrays the structure points at are part of the record, as functions of the index;
  \<open>bi_address\<close> is the address of the structure itself.\<close>

record BootInfo =
  bi_address :: u64
  bi_flags :: u32
  bi_rsdp :: u64
  bi_framebuffer :: FramebufferInfo
  bi_memory_map :: u64
  bi_memory_map_entries :: u64
  bi_memory_map_descriptor_size :: u64
  bi_regions :: "u64 \<Rightarrow> MemoryRegion"
  bi_kernel_physical_base :: u64
  bi_kernel_physical_end :: u64
  bi_user_init_base :: u64
  bi_user_init_size :: u64
  bi_boot_modules :: u64
  bi_boot_module_count :: u64
  bi_modules :: "u64 \<Rightarrow> BootModule"

section \<open>State\<close>

record MemoryStats =
  ms_total_pages :: u64
  ms_free_pages :: u64
  ms_used_pages :: u64
  ms_usable_bytes :: u64
  ms_reserved_bytes :: u64
  ms_highest_physical :: u64

record PhysicalMemoryDiagnostics =
  allocate_page_calls :: u64
  allocate_contiguous_calls :: u64
  free_page_calls :: u64
  free_contiguous_calls :: u64
  failed_allocations :: u64
  invalid_frees :: u64
  peak_used_pages :: u64
  last_allocated_page :: u64

record pmm =
  bitmap :: "nat \<Rightarrow> u8"
  total_pages :: u64
  free_pages :: u64
  scan_hint :: u64
  pmm_stats :: MemoryStats
  pmm_diag :: PhysicalMemoryDiagnostics

definition zero_stats :: MemoryStats where
  "zero_stats = \<lparr>ms_total_pages = 0, ms_free_pages = 0, ms_used_pages = 0, ms_usable_bytes = 0,
     ms_reserved_bytes = 0, ms_highest_physical = 0\<rparr>"

definition zero_pmm_diag :: PhysicalMemoryDiagnostics where
  "zero_pmm_diag = \<lparr>allocate_page_calls = 0, allocate_contiguous_calls = 0, free_page_calls = 0,
     free_contiguous_calls = 0, failed_allocations = 0, invalid_frees = 0, peak_used_pages = 0,
     last_allocated_page = 0\<rparr>"

section \<open>Operations\<close>

definition set_used :: "pmm \<Rightarrow> u64 \<Rightarrow> bool \<Rightarrow> pmm" where
  "set_used s page used =
     (if kPmmBitmapPages \<le> page then s
      else let mask = push_bit (unat (page AND 7)) (1 :: u8);
               i = unat (drop_bit 3 page)
           in if used then s\<lparr>bitmap := (bitmap s)(i := bitmap s i OR mask)\<rparr>
              else s\<lparr>bitmap := (bitmap s)(i := bitmap s i AND NOT mask)\<rparr>)"

definition is_used :: "pmm \<Rightarrow> u64 \<Rightarrow> bool" where
  "is_used s page =
     (if kPmmBitmapPages \<le> page then True
      else bitmap s (unat (drop_bit 3 page)) AND push_bit (unat (page AND 7)) 1 \<noteq> 0)"

definition update_peak_used :: "pmm \<Rightarrow> pmm" where
  "update_peak_used s =
     (let used = total_pages s - free_pages s
      in if peak_used_pages (pmm_diag s) < used
         then s\<lparr>pmm_diag := (pmm_diag s)\<lparr>peak_used_pages := used\<rparr>\<rparr> else s)"

text \<open>The two assignments every operation ends with.\<close>

definition sync_stats :: "pmm \<Rightarrow> pmm" where
  "sync_stats s = s\<lparr>pmm_stats := (pmm_stats s)\<lparr>ms_free_pages := free_pages s,
     ms_used_pages := total_pages s - free_pages s\<rparr>\<rparr>"

definition use_if_free :: "u64 \<Rightarrow> pmm \<Rightarrow> pmm" where
  "use_if_free page s =
     (if \<not> is_used s page
      then let s = set_used s page True
           in if 0 < free_pages s then s\<lparr>free_pages := free_pages s - 1\<rparr> else s
      else s)"

definition mark_range_used :: "pmm \<Rightarrow> u64 \<Rightarrow> u64 \<Rightarrow> pmm" where
  "mark_range_used s base len =
     (let first = align_down base kPageSize div kPageSize;
          last = align_up (base + len) kPageSize div kPageSize;
          last = (if total_pages s < last then total_pages s else last)
      in sync_stats (fold use_if_free (wrange first last) s))"

definition free_if_used :: "u64 \<Rightarrow> pmm \<Rightarrow> pmm" where
  "free_if_used page s =
     (if page < 0x100 then s
      else if is_used s page
      then (set_used s page False)\<lparr>free_pages := free_pages s + 1\<rparr> else s)"

definition mark_range_free :: "pmm \<Rightarrow> u64 \<Rightarrow> u64 \<Rightarrow> pmm" where
  "mark_range_free s base len =
     (let first = align_up base kPageSize div kPageSize;
          last = align_down (base + len) kPageSize div kPageSize;
          last = (if total_pages s < last then total_pages s else last)
      in sync_stats (fold free_if_used (wrange first last) s))"

definition init_region :: "MemoryRegion \<Rightarrow> pmm \<Rightarrow> pmm" where
  "init_region r s =
     (let top = r_base r + r_length r;
          s = (if ms_highest_physical (pmm_stats s) < top
               then s\<lparr>pmm_stats := (pmm_stats s)\<lparr>ms_highest_physical := top\<rparr>\<rparr> else s);
          first = align_up (r_base r) kPageSize div kPageSize;
          last = align_down top kPageSize div kPageSize;
          last = (if kPmmBitmapPages < last then kPmmBitmapPages else last);
          s = (if total_pages s < last then s\<lparr>total_pages := last\<rparr> else s)
      in if r_type r = Usable \<or> r_type r = BootServices
         then fold free_if_used (wrange first last)
                (s\<lparr>pmm_stats := (pmm_stats s)\<lparr>ms_usable_bytes := ms_usable_bytes (pmm_stats s) + r_length r\<rparr>\<rparr>)
         else s\<lparr>pmm_stats := (pmm_stats s)\<lparr>ms_reserved_bytes := ms_reserved_bytes (pmm_stats s) + r_length r\<rparr>\<rparr>)"

definition pmm_initialize :: "pmm \<Rightarrow> BootInfo \<Rightarrow> pmm" where
  "pmm_initialize s boot =
     (let s = s\<lparr>bitmap := (\<lambda>_. 0xff), total_pages := 0, free_pages := 0, scan_hint := 0x100,
                pmm_stats := zero_stats, pmm_diag := zero_pmm_diag\<rparr>;
          s = fold (\<lambda>i. init_region (bi_regions boot i)) (wrange 0 (bi_memory_map_entries boot)) s;
          s = mark_range_used s 0 0x100000;
          s = mark_range_used s (bi_kernel_physical_base boot)
                (bi_kernel_physical_end boot - bi_kernel_physical_base boot);
          s = mark_range_used s (bi_user_init_base boot) (bi_user_init_size boot);
          s = mark_range_used s (bi_boot_modules boot) (bi_boot_module_count boot * 80);
          s = fold (\<lambda>i s. mark_range_used s (m_base (bi_modules boot i)) (m_size (bi_modules boot i)))
                (wrange 0 (bi_boot_module_count boot)) s;
          s = mark_range_used s (bi_address boot) 156;
          s = mark_range_used s (bi_memory_map boot)
                (bi_memory_map_entries boot * bi_memory_map_descriptor_size boot);
          fb = bi_framebuffer boot;
          s = mark_range_used s (fb_base fb)
                (ucast (fb_pixels_per_scanline fb) * ucast (fb_height fb) * ucast (fb_bytes_per_pixel fb));
          s = (if bi_rsdp boot \<noteq> 0 then mark_range_used s (align_down (bi_rsdp boot) kPageSize) kPageSize else s);
          s = s\<lparr>pmm_stats := (pmm_stats s)\<lparr>ms_total_pages := total_pages s\<rparr>\<rparr>
      in update_peak_used (sync_stats s))"

text \<open>The body the two scanning loops of \<open>allocate_page\<close> share.\<close>

definition take_page :: "pmm \<Rightarrow> u64 \<Rightarrow> u64 \<times> pmm" where
  "take_page s page =
     (let s = set_used s page True;
          s = s\<lparr>free_pages := free_pages s - 1\<rparr>;
          s = (sync_stats s)\<lparr>scan_hint := page + 1\<rparr>;
          s = s\<lparr>pmm_diag := (pmm_diag s)\<lparr>last_allocated_page := page\<rparr>\<rparr>
      in (page * kPageSize, update_peak_used s))"

definition allocate_page :: "pmm \<Rightarrow> u64 \<times> pmm" where
  "allocate_page s =
     (let s = s\<lparr>pmm_diag := (pmm_diag s)\<lparr>allocate_page_calls := allocate_page_calls (pmm_diag s) + 1\<rparr>\<rparr>
      in case find (\<lambda>page. \<not> is_used s page) (wrange (scan_hint s) (total_pages s)) of
           Some page \<Rightarrow> take_page s page
         | None \<Rightarrow>
             (case find (\<lambda>page. \<not> is_used s page) (wrange 0x100 (scan_hint s)) of
                Some page \<Rightarrow> take_page s page
              | None \<Rightarrow> (0, s\<lparr>pmm_diag := (pmm_diag s)\<lparr>failed_allocations :=
                                failed_allocations (pmm_diag s) + 1\<rparr>\<rparr>)))"

text \<open>The search loop of \<open>allocate_contiguous\<close>: \<open>run_start\<close> and \<open>run\<close> are its variables.\<close>

fun find_run :: "(u64 \<Rightarrow> bool) \<Rightarrow> u64 \<Rightarrow> u64 list \<Rightarrow> u64 \<Rightarrow> u64 \<Rightarrow> u64 option" where
  "find_run used page_count [] run_start run = None"
| "find_run used page_count (page # pages) run_start run =
     (if \<not> used page then
        let run_start = (if run = 0 then page else run_start); run = run + 1
        in if run = page_count then Some run_start
           else find_run used page_count pages run_start run
      else find_run used page_count pages run_start 0)"

definition allocate_contiguous :: "pmm \<Rightarrow> u64 \<Rightarrow> u64 \<times> pmm" where
  "allocate_contiguous s page_count =
     (let s = s\<lparr>pmm_diag := (pmm_diag s)\<lparr>allocate_contiguous_calls :=
                  allocate_contiguous_calls (pmm_diag s) + 1\<rparr>\<rparr>;
          failed = s\<lparr>pmm_diag := (pmm_diag s)\<lparr>failed_allocations := failed_allocations (pmm_diag s) + 1\<rparr>\<rparr>
      in if page_count = 0 then (0, failed)
         else case find_run (is_used s) page_count (wrange 0x100 (total_pages s)) 0 0 of
                None \<Rightarrow> (0, failed)
              | Some run_start \<Rightarrow>
                  let s = fold (\<lambda>p s. set_used s p True) (wrange run_start (run_start + page_count)) s;
                      s = s\<lparr>free_pages := free_pages s - page_count\<rparr>;
                      s = (sync_stats s)\<lparr>scan_hint := run_start + page_count\<rparr>;
                      s = s\<lparr>pmm_diag := (pmm_diag s)\<lparr>last_allocated_page := run_start\<rparr>\<rparr>
                  in (run_start * kPageSize, update_peak_used s))"

definition release_page :: "u64 \<Rightarrow> bool \<times> pmm \<Rightarrow> bool \<times> pmm" where
  "release_page p = (\<lambda>(freed, s).
     if total_pages s \<le> p \<or> \<not> is_used s p then (freed, s)
     else (True, (set_used s p False)\<lparr>free_pages := free_pages s + 1\<rparr>))"

definition note_invalid_free :: "pmm \<Rightarrow> pmm" where
  "note_invalid_free s = s\<lparr>pmm_diag := (pmm_diag s)\<lparr>invalid_frees := invalid_frees (pmm_diag s) + 1\<rparr>\<rparr>"

definition free_contiguous :: "pmm \<Rightarrow> u64 \<Rightarrow> u64 \<Rightarrow> pmm" where
  "free_contiguous s physical page_count =
     (let s = s\<lparr>pmm_diag := (pmm_diag s)\<lparr>free_contiguous_calls := free_contiguous_calls (pmm_diag s) + 1\<rparr>\<rparr>;
          page = physical div kPageSize
      in if physical = 0 \<or> physical AND (kPageSize - 1) \<noteq> 0 \<or> page < 0x100 \<or> page_count = 0
         then note_invalid_free s
         else let (freed, s) = fold (\<lambda>i. release_page (page + i)) (wrange 0 page_count) (False, s);
                  s = (if \<not> freed then note_invalid_free s else s);
                  s = sync_stats s
              in if page < scan_hint s then s\<lparr>scan_hint := page\<rparr> else s)"

definition free_page :: "pmm \<Rightarrow> u64 \<Rightarrow> pmm" where
  "free_page s physical =
     free_contiguous (s\<lparr>pmm_diag := (pmm_diag s)\<lparr>free_page_calls := free_page_calls (pmm_diag s) + 1\<rparr>\<rparr>)
       physical 1"

definition run_step :: "(u64 \<Rightarrow> bool) \<Rightarrow> u64 \<Rightarrow> u64 \<Rightarrow> u64 \<times> u64 \<Rightarrow> u64 \<times> u64" where
  "run_step used block_pages page = (\<lambda>(count, run).
     if \<not> used page then (count, run + 1) else (count + run div block_pages, 0))"

definition free_run_count :: "pmm \<Rightarrow> u64 \<Rightarrow> u64" where
  "free_run_count s order =
     (if 20 < order then 0
      else let block_pages = push_bit (unat order) (1 :: u64);
               (count, run) = fold (run_step (is_used s) block_pages) (wrange 0x100 (total_pages s)) (0, 0)
           in count + run div block_pages)"

section \<open>The bitmap\<close>

lemma page_split_inj:
  assumes "drop_bit 3 p = drop_bit 3 q" and "p AND 7 = q AND 7"
  shows "p = (q :: u64)"
proof -
  have "take_bit 3 p = take_bit 3 q"
    using assms(2) by (simp add: take_bit_eq_mask mask_numeral)
  then show ?thesis using assms(1) by (metis bits_ident)
qed

lemma page_bit_less: "unat ((p :: u64) AND 7) < 8"
proof -
  have "unat (p AND 7) \<le> unat (7 :: u64)"
    by (metis word_and_le1 word_le_nat_alt)
  then show ?thesis by simp
qed

lemma is_used_bit:
  "p < kPmmBitmapPages \<Longrightarrow> is_used s p = bit (bitmap s (unat (drop_bit 3 p))) (unat (p AND 7))"
  by (auto simp: is_used_def bit_iff_and_push_bit_not_eq_0 dest: leD)

lemma is_used_outside [simp]: "kPmmBitmapPages \<le> p \<Longrightarrow> is_used s p"
  by (simp add: is_used_def)

lemma is_used_set_used:
  "is_used (set_used s p b) q = (if q = p \<and> p < kPmmBitmapPages then b else is_used s q)"
proof (cases "p < kPmmBitmapPages \<and> q < kPmmBitmapPages")
  case False
  then show ?thesis by (auto simp: set_used_def not_less is_used_def Let_def)
next
  case True
  show ?thesis
  proof (cases "drop_bit 3 q = drop_bit 3 p")
    case same: True
    have "q = p \<longleftrightarrow> unat (q AND 7) = unat (p AND 7)"
      using page_split_inj [OF same] by (auto dest: unsigned_word_eqI)
    then show ?thesis
      using True same page_bit_less [of p] page_bit_less [of q]
      by (auto simp: is_used_bit set_used_def Let_def bit_simps)
  next
    case False
    with True show ?thesis
      by (auto simp: is_used_bit set_used_def Let_def unsigned_word_eqI)
  qed
qed

lemma is_used_other_fields [simp]:
  "is_used (s\<lparr>total_pages := a\<rparr>) = is_used s"
  "is_used (s\<lparr>free_pages := a\<rparr>) = is_used s"
  "is_used (s\<lparr>scan_hint := a\<rparr>) = is_used s"
  "is_used (s\<lparr>pmm_stats := st\<rparr>) = is_used s"
  "is_used (s\<lparr>pmm_diag := d\<rparr>) = is_used s"
  by (auto simp: is_used_def fun_eq_iff)

lemma set_used_fields [pmm_simps]:
  "total_pages (set_used s p b) = total_pages s"
  "free_pages (set_used s p b) = free_pages s"
  "scan_hint (set_used s p b) = scan_hint s"
  "pmm_stats (set_used s p b) = pmm_stats s"
  "pmm_diag (set_used s p b) = pmm_diag s"
  by (auto simp: set_used_def Let_def)

lemma update_peak_used_fields [pmm_simps]:
  "is_used (update_peak_used s) = is_used s"
  "total_pages (update_peak_used s) = total_pages s"
  "free_pages (update_peak_used s) = free_pages s"
  "scan_hint (update_peak_used s) = scan_hint s"
  "pmm_stats (update_peak_used s) = pmm_stats s"
  by (auto simp: update_peak_used_def Let_def)

lemma sync_stats_fields [pmm_simps]:
  "is_used (sync_stats s) = is_used s"
  "total_pages (sync_stats s) = total_pages s"
  "free_pages (sync_stats s) = free_pages s"
  "scan_hint (sync_stats s) = scan_hint s"
  "pmm_diag (sync_stats s) = pmm_diag s"
  "ms_free_pages (pmm_stats (sync_stats s)) = free_pages s"
  "ms_used_pages (pmm_stats (sync_stats s)) = total_pages s - free_pages s"
  "ms_total_pages (pmm_stats (sync_stats s)) = ms_total_pages (pmm_stats s)"
  by (auto simp: sync_stats_def)

section \<open>The invariant\<close>

text \<open>The pages the bitmap shows as free.\<close>

definition free_set :: "pmm \<Rightarrow> u64 set" where
  "free_set s = {p. \<not> is_used s p}"

text \<open>
  Every free page lies above the first megabyte and below \<open>total_pages\<close>, the bitmap covers
  \<open>total_pages\<close>, the free counter counts the free pages, and scans start above the first megabyte.
\<close>

definition pmm_core :: "pmm \<Rightarrow> bool" where
  "pmm_core s \<longleftrightarrow> total_pages s \<le> kPmmBitmapPages
     \<and> (\<forall>p \<in> free_set s. 0x100 \<le> p \<and> p < total_pages s)
     \<and> unat (free_pages s) = card (free_set s)
     \<and> 0x100 \<le> scan_hint s"

text \<open>In addition the exported statistics agree with the counters.\<close>

definition pmm_inv :: "pmm \<Rightarrow> bool" where
  "pmm_inv s \<longleftrightarrow> pmm_core s
     \<and> ms_total_pages (pmm_stats s) = total_pages s
     \<and> ms_free_pages (pmm_stats s) = free_pages s
     \<and> ms_used_pages (pmm_stats s) = total_pages s - free_pages s"

lemma finite_free_set [simp]: "finite (free_set s)"
  by (rule finite_subset [OF subset_UNIV]) simp

lemma free_set_fields [simp]:
  "free_set (s\<lparr>total_pages := a\<rparr>) = free_set s"
  "free_set (s\<lparr>free_pages := a\<rparr>) = free_set s"
  "free_set (s\<lparr>scan_hint := a\<rparr>) = free_set s"
  "free_set (s\<lparr>pmm_stats := st\<rparr>) = free_set s"
  "free_set (s\<lparr>pmm_diag := d\<rparr>) = free_set s"
  by (simp_all add: free_set_def)

lemma free_set_ops [pmm_simps]:
  "free_set (update_peak_used s) = free_set s"
  "free_set (sync_stats s) = free_set s"
  by (simp_all add: free_set_def pmm_simps)

lemma in_free_set [simp]: "p \<in> free_set s \<longleftrightarrow> \<not> is_used s p"
  by (simp add: free_set_def)

lemma free_set_use: "p < kPmmBitmapPages \<Longrightarrow> free_set (set_used s p True) = free_set s - {p}"
  by (auto simp: free_set_def is_used_set_used)

lemma free_set_release:
  "p < kPmmBitmapPages \<Longrightarrow> free_set (set_used s p False) = insert p (free_set s)"
  by (auto simp: free_set_def is_used_set_used)

lemma free_page_bounds:
  assumes "pmm_core s" and "\<not> is_used s p"
  shows "0x100 \<le> p" and "p < total_pages s" and "p < kPmmBitmapPages"
  using assms by (auto simp: pmm_core_def intro: less_le_trans)

lemma card_free_set_le: "pmm_core s \<Longrightarrow> card (free_set s) \<le> unat (total_pages s)"
proof -
  assume "pmm_core s"
  then have "free_set s \<subseteq> set (wrange 0 (total_pages s))"
    by (auto simp: pmm_core_def)
  then have "card (free_set s) \<le> card (set (wrange 0 (total_pages s)))"
    by (rule card_mono [rotated]) simp
  then show ?thesis by (simp add: distinct_card [OF distinct_wrange])
qed

section \<open>Marking and releasing single pages\<close>

lemma pmm_core_use:
  assumes core: "pmm_core s" and free: "\<not> is_used s p"
  shows "pmm_core ((set_used s p True)\<lparr>free_pages := free_pages s - 1\<rparr>)" (is "pmm_core ?t")
    and "0 < free_pages s"
    and "free_set ((set_used s p True)\<lparr>free_pages := free_pages s - 1\<rparr>) = free_set s - {p}"
proof -
  note bounds = free_page_bounds [OF assms]
  show fs: "free_set ?t = free_set s - {p}"
    using bounds by (simp add: free_set_use)
  have "card (free_set s) \<noteq> 0" using free by auto
  then show pos: "0 < free_pages s"
    using core by (metis pmm_core_def unat_0 word_gt_0)
  have "unat (free_pages s - 1) = card (free_set s) - 1"
    using core pos by (simp add: unat_pred_word pmm_core_def)
  also have "\<dots> = card (free_set ?t)"
    using fs free by simp
  finally show "pmm_core ?t"
    using core fs by (auto simp: pmm_core_def pmm_simps)
qed

lemma pmm_core_release:
  assumes core: "pmm_core s" and used: "is_used s p" and low: "0x100 \<le> p" and high: "p < total_pages s"
  shows "pmm_core ((set_used s p False)\<lparr>free_pages := free_pages s + 1\<rparr>)" (is "pmm_core ?t")
    and "free_set ((set_used s p False)\<lparr>free_pages := free_pages s + 1\<rparr>) = insert p (free_set s)"
proof -
  have pb: "p < kPmmBitmapPages"
    using core high by (auto simp: pmm_core_def intro: less_le_trans)
  then show fs: "free_set ?t = insert p (free_set s)"
    by (simp add: free_set_release)
  have "unat (free_pages s) \<le> unat (total_pages s)"
    using core card_free_set_le [OF core] by (simp add: pmm_core_def)
  also have "\<dots> \<le> unat kPmmBitmapPages"
    using core by (simp add: pmm_core_def word_le_nat_alt)
  finally have "unat (free_pages s + 1) = Suc (unat (free_pages s))"
    by (simp add: unat_word_ariths kPmmBitmapPages_def)
  then have "unat (free_pages s + 1) = card (free_set ?t)"
    using core fs used by (simp add: pmm_core_def)
  then show "pmm_core ?t"
    using core fs low high by (auto simp: pmm_core_def pmm_simps)
qed

lemma use_if_free_fields [pmm_simps]:
  "total_pages (use_if_free p s) = total_pages s"
  "scan_hint (use_if_free p s) = scan_hint s"
  "pmm_stats (use_if_free p s) = pmm_stats s"
  "pmm_diag (use_if_free p s) = pmm_diag s"
  by (auto simp: use_if_free_def Let_def pmm_simps)

lemma is_used_use_if_free: "is_used (use_if_free p s) q \<longleftrightarrow> is_used s q \<or> q = p"
  using is_used_outside [of p s]
  by (auto simp: use_if_free_def Let_def is_used_set_used pmm_simps not_less)

lemma use_if_free_core: "pmm_core s \<Longrightarrow> pmm_core (use_if_free p s)"
  using pmm_core_use [of s p] by (auto simp: use_if_free_def Let_def pmm_simps)

lemma free_if_used_fields [pmm_simps]:
  "total_pages (free_if_used p s) = total_pages s"
  "scan_hint (free_if_used p s) = scan_hint s"
  "pmm_stats (free_if_used p s) = pmm_stats s"
  "pmm_diag (free_if_used p s) = pmm_diag s"
  by (auto simp: free_if_used_def pmm_simps)

lemma free_if_used_core:
  "pmm_core s \<Longrightarrow> p < total_pages s \<Longrightarrow> pmm_core (free_if_used p s)"
  using pmm_core_release [of s p] by (auto simp: free_if_used_def)

section \<open>Ranges\<close>

lemma fold_use_fields [pmm_simps]:
  "total_pages (fold use_if_free ps s) = total_pages s"
  "scan_hint (fold use_if_free ps s) = scan_hint s"
  "pmm_stats (fold use_if_free ps s) = pmm_stats s"
  "pmm_diag (fold use_if_free ps s) = pmm_diag s"
  by (induction ps arbitrary: s) (simp_all add: pmm_simps)

lemma fold_use_is_used: "is_used (fold use_if_free ps s) q \<longleftrightarrow> is_used s q \<or> q \<in> set ps"
  by (induction ps arbitrary: s) (auto simp: is_used_use_if_free)

lemma fold_use_core: "pmm_core s \<Longrightarrow> pmm_core (fold use_if_free ps s)"
  by (induction ps arbitrary: s) (simp_all add: use_if_free_core)

lemma fold_free_fields [pmm_simps]:
  "total_pages (fold free_if_used ps s) = total_pages s"
  "scan_hint (fold free_if_used ps s) = scan_hint s"
  "pmm_stats (fold free_if_used ps s) = pmm_stats s"
  "pmm_diag (fold free_if_used ps s) = pmm_diag s"
  by (induction ps arbitrary: s) (simp_all add: pmm_simps)

lemma fold_free_core:
  "pmm_core s \<Longrightarrow> (\<And>p. p \<in> set ps \<Longrightarrow> p < total_pages s) \<Longrightarrow> pmm_core (fold free_if_used ps s)"
  by (induction ps arbitrary: s) (simp_all add: free_if_used_core pmm_simps)

lemma pmm_core_fields [simp]:
  "pmm_core (s\<lparr>pmm_stats := st\<rparr>) = pmm_core s"
  "pmm_core (s\<lparr>pmm_diag := d\<rparr>) = pmm_core s"
  "0x100 \<le> h \<Longrightarrow> pmm_core s \<Longrightarrow> pmm_core (s\<lparr>scan_hint := h\<rparr>)"
  by (simp_all add: pmm_core_def)

lemma pmm_core_ops [pmm_simps]:
  "pmm_core (sync_stats s) = pmm_core s"
  "pmm_core (update_peak_used s) = pmm_core s"
  by (simp_all add: pmm_core_def pmm_simps)

lemma mark_range_used_core: "pmm_core s \<Longrightarrow> pmm_core (mark_range_used s base len)"
  by (simp add: mark_range_used_def Let_def fold_use_core pmm_simps)

lemma mark_range_used_fields [pmm_simps]:
  "total_pages (mark_range_used s base len) = total_pages s"
  "scan_hint (mark_range_used s base len) = scan_hint s"
  "pmm_diag (mark_range_used s base len) = pmm_diag s"
  "ms_total_pages (pmm_stats (mark_range_used s base len)) = ms_total_pages (pmm_stats s)"
  by (simp_all add: mark_range_used_def Let_def pmm_simps)

lemma mark_range_used_mono: "is_used s p \<Longrightarrow> is_used (mark_range_used s base len) p"
  by (simp add: mark_range_used_def Let_def pmm_simps fold_use_is_used)

lemma mark_range_used_inv: "pmm_inv s \<Longrightarrow> pmm_inv (mark_range_used s base len)"
  using mark_range_used_core [of s base len]
  by (simp add: pmm_inv_def mark_range_used_def Let_def pmm_simps)

lemma mark_range_free_inv: "pmm_inv s \<Longrightarrow> pmm_inv (mark_range_free s base len)"
  by (auto simp: pmm_inv_def mark_range_free_def Let_def pmm_simps intro!: fold_free_core
      intro: less_le_trans)

text \<open>Every page that meets the byte range is in use afterwards.\<close>

section \<open>Initialisation\<close>

lemma pmm_core_grow:
  "pmm_core s \<Longrightarrow> total_pages s \<le> t \<Longrightarrow> t \<le> kPmmBitmapPages \<Longrightarrow> pmm_core (s\<lparr>total_pages := t\<rparr>)"
  by (auto simp: pmm_core_def intro: less_le_trans)

lemma init_region_core: "pmm_core s \<Longrightarrow> pmm_core (init_region r s)"
  by (auto simp: init_region_def Let_def pmm_simps not_less
      intro!: fold_free_core pmm_core_grow intro: less_le_trans)

lemma fold_core:
  "(\<And>x s. pmm_core s \<Longrightarrow> pmm_core (f x s)) \<Longrightarrow> pmm_core s \<Longrightarrow> pmm_core (fold f xs s)"
  by (induction xs arbitrary: s) simp_all

lemma pmm_core_full: "pmm_core (s\<lparr>bitmap := (\<lambda>_. 0xff), total_pages := 0, free_pages := 0,
    scan_hint := 0x100\<rparr>)" (is "pmm_core ?s")
proof -
  have ones: "(0xff :: u8) = mask 8" by (simp add: mask_numeral)
  have "bit (0xff :: u8) n" if "n < 8" for n
    unfolding ones using that by (simp add: bit_mask_iff)
  then have "is_used ?s p" for p
    using page_bit_less [of p] by (cases "p < kPmmBitmapPages") (simp_all add: is_used_bit)
  then have "free_set ?s = {}" by (auto simp: free_set_def)
  then show ?thesis by (auto simp: pmm_core_def)
qed

lemma fold_mark_used_core:
  "pmm_core s \<Longrightarrow> pmm_core (fold (\<lambda>i s. mark_range_used s (f i) (g i)) is s)"
  by (rule fold_core) (simp_all add: mark_range_used_core)

lemma fold_init_core: "pmm_core s \<Longrightarrow> pmm_core (fold (\<lambda>i. init_region (f i)) is s)"
  by (rule fold_core) (simp_all add: init_region_core)

lemma pmm_initialize_inv: "pmm_inv (pmm_initialize s boot)"
  unfolding pmm_initialize_def Let_def pmm_inv_def
  by (simp add: pmm_simps mark_range_used_core fold_mark_used_core fold_init_core pmm_core_full)

section \<open>Frames and addresses\<close>

lemma page_addr:
  assumes "p < kPmmBitmapPages"
  shows "unat (p * kPageSize) = unat p * 4096"
    and "p * kPageSize div kPageSize = p"
    and "p * kPageSize AND (kPageSize - 1) = 0"
    and "p * kPageSize = 0 \<longleftrightarrow> p = 0"
proof -
  have pb: "unat p < 1048576"
    using assms by (simp add: kPmmBitmapPages_def word_less_nat_alt)
  then show u: "unat (p * kPageSize) = unat p * 4096"
    by (simp add: unat_word_ariths kPageSize_def)
  then show "p * kPageSize div kPageSize = p"
    by (simp add: word_unat_eq_iff unat_div_distrib kPageSize_def)
  have "(kPageSize - 1 :: u64) = mask 12"
    by (simp add: kPageSize_def mask_numeral)
  moreover have "2 ^ 12 dvd unat (p * kPageSize)"
    by (simp add: u)
  ultimately show "p * kPageSize AND (kPageSize - 1) = 0"
    by (simp only: and_mask_dvd_nat)
  show "p * kPageSize = 0 \<longleftrightarrow> p = 0"
    using u by (metis mult_eq_0_iff mult_zero_left unat_0 unat_0_iff zero_neq_numeral)
qed

text \<open>The free memory as a set of frame addresses: the abstract state of the manager.\<close>

definition frames :: "pmm \<Rightarrow> u64 set" where
  "frames s = (\<lambda>p. p * kPageSize) ` free_set s"

lemma in_frames:
  assumes "pmm_core s" and "p < kPmmBitmapPages"
  shows "p * kPageSize \<in> frames s \<longleftrightarrow> \<not> is_used s p"
proof
  assume "p * kPageSize \<in> frames s"
  then obtain q where q: "q \<in> free_set s" "p * kPageSize = q * kPageSize"
    by (auto simp: frames_def)
  then have "p = q" using page_addr(2) assms free_page_bounds(3) [OF assms(1)]
    by (metis in_free_set)
  with q show "\<not> is_used s p" by simp
qed (auto simp: frames_def)

lemma frames_remove:
  assumes "pmm_core s" and "\<not> is_used s p" and "free_set t = free_set s - {p}"
  shows "frames t = frames s - {p * kPageSize}"
proof -
  have "inj_on (\<lambda>p. p * kPageSize) (free_set s)"
    by (rule inj_on_inverseI [where g = "\<lambda>a. a div kPageSize"])
      (simp add: page_addr(2) free_page_bounds(3) [OF assms(1)])
  then have "frames t = frames s - (\<lambda>p. p * kPageSize) ` {p}"
    using assms(2,3) by (simp add: frames_def inj_on_image_set_diff [where C = "free_set s"])
  then show ?thesis by simp
qed

section \<open>Allocation\<close>

lemma find_wrange:
  "find P (wrange a b) = None \<Longrightarrow> a \<le> p \<Longrightarrow> p < b \<Longrightarrow> \<not> P p"
  "find P (wrange a b) = Some p \<Longrightarrow> a \<le> p \<and> p < b \<and> P p"
proof -
  show "find P (wrange a b) = None \<Longrightarrow> a \<le> p \<Longrightarrow> p < b \<Longrightarrow> \<not> P p"
    by (simp add: find_None_iff)
  assume "find P (wrange a b) = Some p"
  then obtain i where "i < length (wrange a b)" "P (wrange a b ! i)" "p = wrange a b ! i"
    by (auto simp: find_Some_iff)
  then have "p \<in> set (wrange a b)" and "P p" by (metis nth_mem, simp)
  then show "a \<le> p \<and> p < b \<and> P p" by simp
qed

lemma take_page_spec:
  assumes inv: "pmm_inv s" and free: "\<not> is_used s p"
  shows "pmm_inv (snd (take_page s p))"
    and "free_set (snd (take_page s p)) = free_set s - {p}"
    and "fst (take_page s p) = p * kPageSize"
proof -
  have core: "pmm_core s" using inv by (simp add: pmm_inv_def)
  note use = pmm_core_use [OF core free] and b = free_page_bounds [OF core free]
  have "0x100 \<le> p + 1"
    using b(1) unat_Suc_word [OF b(2)] by (simp add: word_le_nat_alt)
  then show "pmm_inv (snd (take_page s p))"
    using use inv by (simp add: take_page_def Let_def pmm_inv_def pmm_simps)
  show "free_set (snd (take_page s p)) = free_set s - {p}"
    using use by (simp add: take_page_def Let_def pmm_simps)
  show "fst (take_page s p) = p * kPageSize"
    by (simp add: take_page_def Let_def)
qed

lemma allocate_page_cases:
  assumes inv: "pmm_inv s"
  obtains (Some) p where "\<not> is_used s p" and "fst (allocate_page s) = p * kPageSize"
      and "free_set (snd (allocate_page s)) = free_set s - {p}" and "pmm_inv (snd (allocate_page s))"
  | (None) "free_set s = {}" and "fst (allocate_page s) = 0"
      and "free_set (snd (allocate_page s)) = {}" and "pmm_inv (snd (allocate_page s))"
proof -
  let ?s = "s\<lparr>pmm_diag := (pmm_diag s)\<lparr>allocate_page_calls := allocate_page_calls (pmm_diag s) + 1\<rparr>\<rparr>"
  have inv': "pmm_inv ?s" using inv by (simp add: pmm_inv_def)
  note find = find_wrange [where P = "\<lambda>page. \<not> is_used s page"]
  note Some' = that(1) [unfolded allocate_page_def Let_def]
  show ?thesis
  proof (cases "find (\<lambda>page. \<not> is_used s page) (wrange (scan_hint s) (total_pages s))")
    case (Some p)
    then show ?thesis
      using find(2) [OF Some] take_page_spec [OF inv', of p] by (intro Some') auto
  next
    case first: None
    show ?thesis
    proof (cases "find (\<lambda>page. \<not> is_used s page) (wrange 0x100 (scan_hint s))")
      case (Some p)
      then show ?thesis
        using first find(2) [OF Some] take_page_spec [OF inv', of p] by (intro Some') auto
    next
      case None
      have "is_used s p" for p
      proof (rule ccontr)
        assume "\<not> is_used s p"
        moreover have "pmm_core s" using inv by (simp add: pmm_inv_def)
        ultimately have "0x100 \<le> p" and "p < total_pages s"
          using free_page_bounds by auto
        with \<open>\<not> is_used s p\<close> find(1) [OF first, of p] find(1) [OF None, of p] show False
          by (cases "scan_hint s \<le> p") auto
      qed
      then have "free_set s = {}" by (auto simp: free_set_def)
      with first None inv show ?thesis
        by (intro that(2)) (auto simp: allocate_page_def Let_def pmm_inv_def)
    qed
  qed
qed

lemma allocate_page_inv: "pmm_inv s \<Longrightarrow> pmm_inv (snd (allocate_page s))"
  by (erule allocate_page_cases) auto

section \<open>Contiguous runs\<close>

text \<open>No run of \<open>n\<close> pages starts at \<open>r\<close>: one of its pages is in use.\<close>

definition blocked :: "(u64 \<Rightarrow> bool) \<Rightarrow> u64 \<Rightarrow> u64 \<Rightarrow> bool" where
  "blocked used n r \<longleftrightarrow> (\<exists>p. r \<le> p \<and> unat p < unat r + unat n \<and> used p)"

text \<open>The loop invariant: the pages from the start \<open>st\<close> of the current run up to \<open>page\<close> are free,
  \<open>run\<close> counts them, and every earlier start is blocked.\<close>

definition run_inv :: "(u64 \<Rightarrow> bool) \<Rightarrow> u64 \<Rightarrow> u64 \<Rightarrow> u64 \<Rightarrow> u64 \<Rightarrow> u64 \<Rightarrow> bool" where
  "run_inv used n lo page st run \<longleftrightarrow>
     lo \<le> st \<and> unat page = unat st + unat run \<and> run < n
     \<and> (\<forall>p. st \<le> p \<and> p < page \<longrightarrow> \<not> used p)
     \<and> (\<forall>r. lo \<le> r \<and> r < st \<longrightarrow> blocked used n r)"

lemma run_inv_free:
  assumes "run_inv used n lo page st run" and "page < limit" and "\<not> used page" and "run + 1 \<noteq> n"
  shows "run_inv used n lo (page + 1) st (run + 1)"
proof -
  have r: "unat (run + 1) = Suc (unat run)"
    using assms(1) unat_Suc_word [of run n] by (simp add: run_inv_def)
  moreover have "run + 1 < n"
    using assms(1,4) by (simp add: run_inv_def inc_le order_less_le)
  moreover have "\<not> used p" if "st \<le> p" "p < page + 1" for p
    using that assms(1,3) by (auto simp: run_inv_def word_less_Suc [OF assms(2)])
  ultimately show ?thesis
    using assms(1) unat_Suc_word [OF assms(2)] by (simp add: run_inv_def)
qed

lemma run_inv_used:
  assumes "run_inv used n lo page st run" and "page < limit" and "used page"
  shows "run_inv used n lo (page + 1) (page + 1) 0"
proof -
  note u = unat_Suc_word [OF assms(2)]
  have "blocked used n r" if "lo \<le> r" "r < page + 1" for r
  proof (cases "r < st")
    case True
    with assms(1) that show ?thesis by (simp add: run_inv_def)
  next
    case False
    then have "unat st \<le> unat r" and "unat r \<le> unat page"
      using that u by (simp_all add: word_less_nat_alt word_le_nat_alt)
    then have "r \<le> page" and "unat page < unat r + unat n"
      using assms(1) by (simp_all add: run_inv_def word_le_nat_alt word_less_nat_alt)
    with assms(3) show ?thesis unfolding blocked_def by blast
  qed
  moreover have "lo \<le> page + 1"
    using assms(1) u by (simp add: run_inv_def word_le_nat_alt)
  moreover have "0 < n" using assms(1) by (auto simp: run_inv_def word_less_nat_alt)
  ultimately show ?thesis by (auto simp: run_inv_def)
qed

definition run_result :: "(u64 \<Rightarrow> bool) \<Rightarrow> u64 \<Rightarrow> u64 \<Rightarrow> u64 \<Rightarrow> u64 option \<Rightarrow> bool" where
  "run_result used n lo limit res \<longleftrightarrow>
     (case res of
        Some r \<Rightarrow> lo \<le> r \<and> unat r + unat n \<le> unat limit
          \<and> (\<forall>p. r \<le> p \<and> unat p < unat r + unat n \<longrightarrow> \<not> used p)
          \<and> (\<forall>r'. lo \<le> r' \<and> r' < r \<longrightarrow> blocked used n r')
      | None \<Rightarrow> \<forall>r. lo \<le> r \<and> unat r + unat n \<le> unat limit \<longrightarrow> blocked used n r)"

lemma find_run_result:
  assumes "run_inv used n lo page (if run = 0 then page else st) run" and "page \<le> limit"
  shows "run_result used n lo limit (find_run used n (wrange page limit) st run)"
  using assms
proof (induction "wrange page limit" arbitrary: page st run)
  case Nil
  let ?st = "if run = 0 then page else st"
  have "\<not> page < limit" using Nil.hyps by (auto simp: wrange_Cons)
  with Nil.prems(2) have "page = limit" by simp
  have "blocked used n r" if "lo \<le> r" "unat r + unat n \<le> unat limit" for r
  proof -
    have "unat r < unat ?st"
      using Nil.prems(1) that \<open>page = limit\<close> by (auto simp: run_inv_def word_less_nat_alt)
    with Nil.prems(1) that show ?thesis by (simp add: run_inv_def word_less_nat_alt)
  qed
  then show ?case by (simp add: run_result_def flip: Nil.hyps)
next
  case (Cons q qs)
  let ?st = "if run = 0 then page else st"
  have lt: "page < limit"
    using Cons.hyps(2) by (cases "page < limit") (auto simp: not_less)
  then have w: "q = page" "qs = wrange (page + 1) limit"
    using Cons.hyps(2) by (simp_all add: wrange_Cons)
  have le: "page + 1 \<le> limit" by (rule word_Suc_le [OF lt])
  note u = unat_Suc_word [OF lt]
  have run1: "run + 1 \<noteq> 0"
    using Cons.prems(1) unat_Suc_word [of run n] by (auto simp: run_inv_def)
  show ?case
  proof (cases "used page")
    case True
    have "run_result used n lo limit (find_run used n (wrange (page + 1) limit) st 0)"
      using Cons.hyps(1) [OF w(2), of 0 st] run_inv_used [OF Cons.prems(1) lt True] le by simp
    with True show ?thesis by (simp add: wrange_Cons [OF lt])
  next
    case free: False
    show ?thesis
    proof (cases "run + 1 = n")
      case True
      have "unat ?st + unat n = unat (page + 1)"
        using Cons.prems(1) True u unat_Suc_word [of run n] by (auto simp: run_inv_def)
      moreover have "\<not> used p" if "?st \<le> p" "unat p < unat (page + 1)" for p
        using that Cons.prems(1) free
        by (auto simp: run_inv_def word_less_Suc [OF lt] simp flip: word_less_nat_alt)
      moreover have "find_run used n (wrange page limit) st run = Some ?st"
        using True free by (simp add: wrange_Cons [OF lt] Let_def)
      ultimately show ?thesis
        using Cons.prems(1) le unfolding run_result_def run_inv_def
        by (simp only: option.case word_le_nat_alt) blast
    next
      case False
      have "run_result used n lo limit (find_run used n (wrange (page + 1) limit) ?st (run + 1))"
        using Cons.hyps(1) [OF w(2), of "run + 1" ?st] run_inv_free [OF Cons.prems(1) lt free False]
          le run1 by simp
      with False free show ?thesis by (simp add: wrange_Cons [OF lt] Let_def)
    qed
  qed
qed

lemma find_run_pmm:
  assumes "pmm_core s" and "0 < n"
  shows "run_result (is_used s) n 0x100 (total_pages s)
           (find_run (is_used s) n (wrange 0x100 (total_pages s)) 0 0)"
proof (cases "0x100 \<le> total_pages s")
  case True
  have "run_inv (is_used s) n 0x100 0x100 0x100 0"
    using assms(2) by (auto simp: run_inv_def)
  with True show ?thesis by (intro find_run_result) simp_all
next
  case False
  then show ?thesis by (auto simp: run_result_def word_le_nat_alt)
qed

lemma fold_set_used_fields [pmm_simps]:
  "total_pages (fold (\<lambda>p s. set_used s p b) ps s) = total_pages s"
  "free_pages (fold (\<lambda>p s. set_used s p b) ps s) = free_pages s"
  "scan_hint (fold (\<lambda>p s. set_used s p b) ps s) = scan_hint s"
  "pmm_stats (fold (\<lambda>p s. set_used s p b) ps s) = pmm_stats s"
  "pmm_diag (fold (\<lambda>p s. set_used s p b) ps s) = pmm_diag s"
  by (induction ps arbitrary: s) (simp_all add: pmm_simps)

lemma fold_set_used_free_set:
  "free_set (fold (\<lambda>p s. set_used s p True) ps s) = free_set s - set ps"
proof (induction ps arbitrary: s)
  case (Cons p ps)
  have "free_set (set_used s p True) = free_set s - {p}"
    using is_used_outside [of p s] by (auto simp: free_set_def is_used_set_used not_less)
  with Cons.IH show ?case by auto
qed simp

lemma allocate_contiguous_cases:
  assumes inv: "pmm_inv s" and n: "0 < n"
  obtains (Some) r where "0x100 \<le> r" and "unat r + unat n \<le> unat (total_pages s)"
      and "set (wrange r (r + n)) \<subseteq> free_set s"
      and "\<And>r'. 0x100 \<le> r' \<Longrightarrow> r' < r \<Longrightarrow> blocked (is_used s) n r'"
      and "fst (allocate_contiguous s n) = r * kPageSize"
      and "free_set (snd (allocate_contiguous s n)) = free_set s - set (wrange r (r + n))"
      and "pmm_inv (snd (allocate_contiguous s n))"
  | (None) "\<And>r. 0x100 \<le> r \<Longrightarrow> unat r + unat n \<le> unat (total_pages s) \<Longrightarrow> blocked (is_used s) n r"
      and "fst (allocate_contiguous s n) = 0"
      and "free_set (snd (allocate_contiguous s n)) = free_set s"
      and "pmm_inv (snd (allocate_contiguous s n))"
proof -
  have core: "pmm_core s" using inv by (simp add: pmm_inv_def)
  have n0: "n \<noteq> 0" using n by auto
  note res = find_run_pmm [OF core n]
  show ?thesis
  proof (cases "find_run (is_used s) n (wrange 0x100 (total_pages s)) 0 0")
    case None
    with inv n0 res show ?thesis
      by (intro that(2)) (auto simp: allocate_contiguous_def Let_def run_result_def pmm_inv_def)
  next
    case (Some r)
    let ?run = "set (wrange r (r + n))"
    from res Some have lo: "0x100 \<le> r" and hi: "unat r + unat n \<le> unat (total_pages s)"
      and free: "\<And>p. r \<le> p \<Longrightarrow> unat p < unat r + unat n \<Longrightarrow> \<not> is_used s p"
      and first: "\<And>r'. 0x100 \<le> r' \<Longrightarrow> r' < r \<Longrightarrow> blocked (is_used s) n r'"
      by (simp_all add: run_result_def)
    have rn: "unat (r + n) = unat r + unat n"
      using hi unsigned_less [of "total_pages s", where 'a = nat]
      by (intro unat_add_word) (rule le_less_trans)
    have sub: "?run \<subseteq> free_set s"
      using free by (auto simp: word_less_nat_alt rn)
    have "card ?run = unat n"
      by (simp add: distinct_card [OF distinct_wrange] rn)
    with sub have card: "card (free_set s - ?run) = card (free_set s) - unat n"
      and le: "unat n \<le> card (free_set s)"
      by (simp_all add: card_Diff_subset card_mono flip: \<open>card ?run = unat n\<close>)
    have "unat (free_pages s - n) = card (free_set s - ?run)"
      using core card le by (simp add: pmm_core_def unat_sub_word word_le_nat_alt)
    moreover have "0x100 \<le> r + n"
      using lo rn by (simp add: word_le_nat_alt)
    ultimately have "pmm_inv (snd (allocate_contiguous s n))"
      and "free_set (snd (allocate_contiguous s n)) = free_set s - ?run"
      using Some n0 inv by (auto simp: allocate_contiguous_def Let_def pmm_inv_def pmm_core_def pmm_simps
          fold_set_used_free_set simp del: in_free_set)
    then show ?thesis
      using Some n0 by (intro that(1) [OF lo hi sub first])
        (auto simp: allocate_contiguous_def Let_def)
  qed
qed

section \<open>Release\<close>

lemma release_page_fields [pmm_simps]:
  "total_pages (snd (release_page p fs)) = total_pages (snd fs)"
  "scan_hint (snd (release_page p fs)) = scan_hint (snd fs)"
  "pmm_stats (snd (release_page p fs)) = pmm_stats (snd fs)"
  "pmm_diag (snd (release_page p fs)) = pmm_diag (snd fs)"
  by (auto simp: release_page_def pmm_simps split: prod.splits)

lemma release_page_core:
  assumes "pmm_core (snd fs)" and "0x100 \<le> p"
  shows "pmm_core (snd (release_page p fs))"
    and "free_set (snd (release_page p fs)) =
           (if p < total_pages (snd fs) then insert p (free_set (snd fs)) else free_set (snd fs))"
  using assms pmm_core_release [of "snd fs" p]
  by (auto simp: release_page_def split: prod.splits)

lemma fold_release_fields [pmm_simps]:
  "total_pages (snd (fold (\<lambda>i. release_page (f i)) is fs)) = total_pages (snd fs)"
  "scan_hint (snd (fold (\<lambda>i. release_page (f i)) is fs)) = scan_hint (snd fs)"
  "pmm_stats (snd (fold (\<lambda>i. release_page (f i)) is fs)) = pmm_stats (snd fs)"
  "pmm_diag (snd (fold (\<lambda>i. release_page (f i)) is fs)) = pmm_diag (snd fs)"
  by (induction "is" arbitrary: fs) (simp_all add: pmm_simps)

lemma fold_release_core:
  assumes "pmm_core (snd fs)" and "\<And>i. i \<in> set is \<Longrightarrow> 0x100 \<le> f i"
  shows "pmm_core (snd (fold (\<lambda>i. release_page (f i)) is fs))"
    and "free_set (snd (fold (\<lambda>i. release_page (f i)) is fs)) =
           free_set (snd fs) \<union> {p \<in> f ` set is. p < total_pages (snd fs)}"
  using assms
proof (induction "is" arbitrary: fs)
  case (Cons i "is")
  { case 1
    have "pmm_core (snd (release_page (f i) fs))"
      by (rule release_page_core(1)) (simp_all add: 1)
    then have "pmm_core (snd (fold (\<lambda>i. release_page (f i)) is (release_page (f i) fs)))"
      by (rule Cons.IH(1)) (simp add: 1)
    then show ?case by simp }
  { case 2
    have "pmm_core (snd (release_page (f i) fs))"
      by (rule release_page_core(1)) (simp_all add: 2)
    then have "free_set (snd (fold (\<lambda>i. release_page (f i)) is (release_page (f i) fs))) =
        free_set (snd (release_page (f i) fs)) \<union> {p \<in> f ` set is. p < total_pages (snd fs)}"
      by (subst Cons.IH(2)) (simp_all add: 2 pmm_simps)
    also have "free_set (snd (release_page (f i) fs)) =
        (if f i < total_pages (snd fs) then insert (f i) (free_set (snd fs)) else free_set (snd fs))"
      by (rule release_page_core(2)) (simp_all add: 2)
    finally show ?case by auto }
qed simp_all

lemma note_invalid_free_fields [pmm_simps]:
  "total_pages (note_invalid_free s) = total_pages s"
  "free_pages (note_invalid_free s) = free_pages s"
  "scan_hint (note_invalid_free s) = scan_hint s"
  "pmm_stats (note_invalid_free s) = pmm_stats s"
  "free_set (note_invalid_free s) = free_set s"
  "pmm_core (note_invalid_free s) = pmm_core s"
  by (simp_all add: note_invalid_free_def)

text \<open>A request the manager turns down: it leaves the bitmap alone and counts an invalid free.\<close>

definition bad_free :: "u64 \<Rightarrow> u64 \<Rightarrow> bool" where
  "bad_free physical page_count \<longleftrightarrow>
     physical = 0 \<or> physical AND (kPageSize - 1) \<noteq> 0 \<or> physical div kPageSize < 0x100 \<or> page_count = 0"

lemma free_contiguous_bad:
  "bad_free physical n \<Longrightarrow> pmm_inv s \<Longrightarrow>
     pmm_inv (free_contiguous s physical n) \<and> free_set (free_contiguous s physical n) = free_set s
     \<and> invalid_frees (pmm_diag (free_contiguous s physical n)) = invalid_frees (pmm_diag s) + 1"
  by (auto simp: bad_free_def free_contiguous_def Let_def pmm_inv_def pmm_simps note_invalid_free_def)

text \<open>What \<open>free_contiguous\<close> does after its loop.\<close>

definition finish_free :: "u64 \<Rightarrow> bool \<times> pmm \<Rightarrow> pmm" where
  "finish_free page fs =
     (let s = sync_stats (if \<not> fst fs then note_invalid_free (snd fs) else snd fs)
      in if page < scan_hint s then s\<lparr>scan_hint := page\<rparr> else s)"

lemma finish_free_spec:
  assumes "pmm_core (snd fs)" and "0x100 \<le> page"
    and "ms_total_pages (pmm_stats (snd fs)) = total_pages (snd fs)"
  shows "pmm_inv (finish_free page fs)" and "free_set (finish_free page fs) = free_set (snd fs)"
  using assms by (simp_all add: finish_free_def Let_def pmm_inv_def pmm_simps)

lemma free_contiguous_good:
  assumes inv: "pmm_inv s" and good: "\<not> bad_free physical n"
    and nowrap: "unat (physical div kPageSize) + unat n < 2 ^ 64"
  shows "pmm_inv (free_contiguous s physical n)"
    and "free_set (free_contiguous s physical n) =
           free_set s \<union> {p. physical div kPageSize \<le> p \<and> p < physical div kPageSize + n \<and> p < total_pages s}"
proof -
  let ?page = "physical div kPageSize"
  let ?s = "s\<lparr>pmm_diag := (pmm_diag s)\<lparr>free_contiguous_calls := free_contiguous_calls (pmm_diag s) + 1\<rparr>\<rparr>"
  let ?fs = "fold (\<lambda>i. release_page (?page + i)) (wrange 0 n) (False, ?s)"
  have add: "unat (?page + i) = unat ?page + unat i" if "i \<le> n" for i
    using nowrap that by (intro unat_add_word) (simp add: word_le_nat_alt)
  have img: "(\<lambda>i. ?page + i) ` set (wrange 0 n) = {p. ?page \<le> p \<and> p < ?page + n}"
  proof (intro set_eqI iffI)
    fix p assume "p \<in> (\<lambda>i. ?page + i) ` set (wrange 0 n)"
    then obtain i where "i < n" "p = ?page + i" by auto
    then show "p \<in> {p. ?page \<le> p \<and> p < ?page + n}"
      using add [of i] add [of n] by (simp add: word_le_nat_alt word_less_nat_alt)
  next
    fix p assume "p \<in> {p. ?page \<le> p \<and> p < ?page + n}"
    then have "p - ?page < n" and "p = ?page + (p - ?page)"
      using add [of n]
      by (simp_all add: word_le_nat_alt word_less_nat_alt unat_sub_word less_diff_conv2 add.commute)
    then show "p \<in> (\<lambda>i. ?page + i) ` set (wrange 0 n)"
      by (metis image_eqI set_wrange word_zero_le)
  qed
  have low: "0x100 \<le> ?page" using good by (auto simp: bad_free_def not_less)
  have "0x100 \<le> ?page + i" if "i \<in> set (wrange 0 n)" for i
    using low that add [of i] by (simp add: word_le_nat_alt word_less_nat_alt)
  then have "pmm_core (snd ?fs)"
    and fs: "free_set (snd ?fs) = free_set s \<union> {p. ?page \<le> p \<and> p < ?page + n \<and> p < total_pages s}"
    using inv fold_release_core [of "(False, ?s)" "wrange 0 n" "\<lambda>i. ?page + i"] img
    by (auto simp: pmm_inv_def simp del: set_wrange)
  moreover have flds: "total_pages (snd ?fs) = total_pages s" "scan_hint (snd ?fs) = scan_hint s"
    "pmm_stats (snd ?fs) = pmm_stats s"
    by (simp_all add: pmm_simps)
  moreover have "free_contiguous s physical n = finish_free ?page ?fs"
    using good by (simp add: free_contiguous_def bad_free_def finish_free_def case_prod_beta Let_def)
  ultimately show "pmm_inv (free_contiguous s physical n)"
    and "free_set (free_contiguous s physical n) =
           free_set s \<union> {p. ?page \<le> p \<and> p < ?page + n \<and> p < total_pages s}"
    using finish_free_spec [of ?fs ?page] low inv by (simp_all add: pmm_inv_def)
qed

section \<open>The interface of a frame allocator\<close>

text \<open>A run of \<open>n\<close> allocations, with the addresses it returned.\<close>

fun alloc_n :: "('s \<Rightarrow> u64 \<times> 's) \<Rightarrow> nat \<Rightarrow> 's \<Rightarrow> u64 list \<times> 's" where
  "alloc_n alloc 0 s = ([], s)"
| "alloc_n alloc (Suc n) s =
     (let (a, s) = alloc s; (as, s) = alloc_n alloc n s in (a # as, s))"

text \<open>
  What the rest of the kernel relies on: the free frames are a set that allocation shrinks by the
  frame it returns and release grows by the frame it is given; address zero means that no frame
  was left.
\<close>

locale frame_allocator =
  fixes alloc :: "'s \<Rightarrow> u64 \<times> 's"
    and release :: "'s \<Rightarrow> u64 \<Rightarrow> 's"
    and avail :: "'s \<Rightarrow> u64 set"
    and managed :: "'s \<Rightarrow> u64 set"
    and inv :: "'s \<Rightarrow> bool"
  assumes alloc_some: "inv s \<Longrightarrow> avail s \<noteq> {} \<Longrightarrow>
      fst (alloc s) \<in> avail s \<and> avail (snd (alloc s)) = avail s - {fst (alloc s)}"
    and alloc_none: "inv s \<Longrightarrow> avail s = {} \<Longrightarrow> fst (alloc s) = 0 \<and> avail (snd (alloc s)) = {}"
    and inv_alloc: "inv s \<Longrightarrow> inv (snd (alloc s))"
    and managed_alloc: "managed (snd (alloc s)) = managed s"
    and avail_managed: "inv s \<Longrightarrow> avail s \<subseteq> managed s"
    and managed_frame: "inv s \<Longrightarrow> a \<in> managed s \<Longrightarrow> a \<noteq> 0 \<and> a AND 0xfff = 0"
    and avail_finite: "finite (avail s)"
    and release_avail: "inv s \<Longrightarrow> a \<in> managed s \<Longrightarrow> avail (release s a) = insert a (avail s)"
    and inv_release: "inv s \<Longrightarrow> inv (release s a)"
begin

lemma alloc_zero_iff: "inv s \<Longrightarrow> fst (alloc s) = 0 \<longleftrightarrow> avail s = {}"
  using alloc_some [of s] alloc_none [of s] avail_managed [of s] managed_frame [of s "fst (alloc s)"]
  by (cases "avail s = {}") auto

lemma alloc_frame:
  assumes "inv s" and "fst (alloc s) \<noteq> 0"
  shows "fst (alloc s) \<in> avail s" and "fst (alloc s) \<notin> avail (snd (alloc s))"
    and "fst (alloc s) AND 0xfff = 0" and "avail (snd (alloc s)) \<subseteq> avail s"
proof -
  have "avail s \<noteq> {}" using assms alloc_zero_iff by auto
  from alloc_some [OF assms(1) this] show av: "fst (alloc s) \<in> avail s"
    and "fst (alloc s) \<notin> avail (snd (alloc s))" and "avail (snd (alloc s)) \<subseteq> avail s" by auto
  show "fst (alloc s) AND 0xfff = 0"
    using av avail_managed [OF assms(1)] managed_frame [OF assms(1)] by blast
qed

lemma release_alloc:
  assumes "inv s" and "fst (alloc s) \<noteq> 0"
  shows "avail (release (snd (alloc s)) (fst (alloc s))) = avail s"
proof -
  have in_av: "fst (alloc s) \<in> avail s" by (rule alloc_frame(1) [OF assms])
  then have "fst (alloc s) \<in> managed (snd (alloc s))"
    using avail_managed assms(1) managed_alloc by blast
  then have "avail (release (snd (alloc s)) (fst (alloc s)))
      = insert (fst (alloc s)) (avail (snd (alloc s)))"
    using inv_alloc [OF assms(1)] by (rule release_avail [rotated])
  with alloc_some [OF assms(1)] in_av show ?thesis by auto
qed

lemma alloc_n_spec:
  assumes "inv s" and "n \<le> card (avail s)"
  shows "inv (snd (alloc_n alloc n s)) \<and> length (fst (alloc_n alloc n s)) = n
    \<and> distinct (fst (alloc_n alloc n s)) \<and> set (fst (alloc_n alloc n s)) \<subseteq> avail s
    \<and> avail (snd (alloc_n alloc n s)) = avail s - set (fst (alloc_n alloc n s))"
  using assms
proof (induction n arbitrary: s)
  case (Suc n)
  let ?s = "snd (alloc s)"
  have "avail s \<noteq> {}" using Suc.prems(2) by auto
  then have a: "fst (alloc s) \<in> avail s" "avail ?s = avail s - {fst (alloc s)}"
    using alloc_some [OF Suc.prems(1)] by auto
  then have "n \<le> card (avail ?s)"
    using Suc.prems(2) avail_finite by (simp add: card_Diff_singleton)
  from Suc.IH [OF inv_alloc [OF Suc.prems(1)] this] a show ?case
    by (auto simp: case_prod_beta Let_def)
qed simp

lemma alloc_n_exhausted:
  assumes "inv s" and "card (avail s) < n"
  shows "0 \<in> set (fst (alloc_n alloc n s))"
  using assms
proof (induction n arbitrary: s)
  case (Suc n)
  show ?case
  proof (cases "avail s = {}")
    case True
    then show ?thesis using alloc_none [OF Suc.prems(1)] by (simp add: case_prod_beta Let_def)
  next
    case False
    then have "card (avail (snd (alloc s))) = card (avail s) - 1"
      using alloc_some [OF Suc.prems(1) False] avail_finite by (simp add: card_Diff_singleton)
    moreover have "0 < card (avail s)"
      using False avail_finite by (simp add: card_gt_0_iff)
    ultimately have "card (avail (snd (alloc s))) < n"
      using Suc.prems(2) by linarith
    then show ?thesis using Suc.IH [OF inv_alloc [OF Suc.prems(1)]] by (simp add: case_prod_beta Let_def)
  qed
qed simp

end

text \<open>The frames the manager hands out: every page between the first megabyte and \<open>total_pages\<close>.\<close>

definition managed_frames :: "pmm \<Rightarrow> u64 set" where
  "managed_frames s = {p * kPageSize | p. 0x100 \<le> p \<and> p < total_pages s \<and> p < kPmmBitmapPages}"

lemma total_pages_allocate_page [pmm_simps]: "total_pages (snd (allocate_page s)) = total_pages s"
  by (auto simp: allocate_page_def take_page_def Let_def pmm_simps split: option.splits)

lemma managed_frame_good:
  assumes "a \<in> managed_frames s"
  obtains p where "a = p * kPageSize" and "0x100 \<le> p" and "p < total_pages s" and "p < kPmmBitmapPages"
    and "\<not> bad_free a 1" and "a div kPageSize = p" and "a \<noteq> 0"
proof -
  from assms obtain p where p: "a = p * kPageSize" "0x100 \<le> p" "p < total_pages s" "p < kPmmBitmapPages"
    by (auto simp: managed_frames_def)
  then have "p \<noteq> 0" by (auto simp: word_le_nat_alt)
  with p page_addr [of p] show ?thesis
    by (intro that [of p]) (auto simp: bad_free_def not_less)
qed

lemma free_page_frames:
  assumes inv: "pmm_inv s" and a: "a \<in> managed_frames s"
  shows "frames (free_page s a) = insert a (frames s)"
proof -
  from a obtain p where p: "a = p * kPageSize" "0x100 \<le> p" "p < total_pages s" "\<not> bad_free a 1"
    "a div kPageSize = p" by (rule managed_frame_good)
  let ?s = "s\<lparr>pmm_diag := (pmm_diag s)\<lparr>free_page_calls := free_page_calls (pmm_diag s) + 1\<rparr>\<rparr>"
  have "unat p + unat (1 :: u64) < 2 ^ 64"
    using p(3) unsigned_less [of "total_pages s", where 'a = nat] by (simp add: word_less_nat_alt)
  then have "free_set (free_page s a) = free_set s \<union> {q. p \<le> q \<and> q < p + 1 \<and> q < total_pages s}"
    using free_contiguous_good(2) [of ?s a 1] inv p by (simp add: free_page_def pmm_inv_def)
  also have "\<dots> = insert p (free_set s)"
    using p(3) by (auto simp: word_less_Suc [OF p(3)] simp del: in_free_set)
  finally show ?thesis by (simp add: frames_def p(1))
qed

lemma free_page_inv: "pmm_inv s \<Longrightarrow> pmm_inv (free_page s a)"
proof -
  assume inv: "pmm_inv s"
  let ?s = "s\<lparr>pmm_diag := (pmm_diag s)\<lparr>free_page_calls := free_page_calls (pmm_diag s) + 1\<rparr>\<rparr>"
  have s: "pmm_inv ?s" using inv by (simp add: pmm_inv_def)
  have "unat (a div kPageSize) \<le> 2 ^ 64 div 4096"
    using unsigned_less [of a, where 'a = nat] by (simp add: unat_div_distrib kPageSize_def div_le_mono)
  then show ?thesis
    using free_contiguous_good(1) [OF s, of a 1] free_contiguous_bad [of a 1, OF _ s]
    by (cases "bad_free a 1") (auto simp: free_page_def)
qed

interpretation pmm: frame_allocator allocate_page free_page frames managed_frames pmm_inv
proof unfold_locales
  fix s a
  show "finite (frames s)" by (simp add: frames_def)
  show "managed_frames (snd (allocate_page s)) = managed_frames s"
    by (simp add: managed_frames_def pmm_simps)
  show "a \<noteq> 0 \<and> a AND 0xfff = 0" if "pmm_inv s" "a \<in> managed_frames s"
    using that(2) by (rule managed_frame_good) (auto simp: bad_free_def kPageSize_def)
  show "frames s \<subseteq> managed_frames s" if "pmm_inv s"
    using that free_page_bounds [of s] by (force simp: frames_def managed_frames_def pmm_inv_def)
  show "frames (free_page s a) = insert a (frames s)" if "pmm_inv s" "a \<in> managed_frames s"
    using that by (rule free_page_frames)
  show "pmm_inv (free_page s a)" if "pmm_inv s" using that by (rule free_page_inv)
  show "pmm_inv (snd (allocate_page s))" if "pmm_inv s" using that by (rule allocate_page_inv)
  show "fst (allocate_page s) \<in> frames s \<and>
      frames (snd (allocate_page s)) = frames s - {fst (allocate_page s)}"
    if inv: "pmm_inv s" and "frames s \<noteq> {}"
    using inv
  proof (cases rule: allocate_page_cases)
    case (Some p)
    then show ?thesis
      using inv frames_remove [of s p "snd (allocate_page s)"]
      by (simp add: pmm_inv_def) (auto simp: frames_def)
  next
    case None
    with that show ?thesis by (simp add: frames_def)
  qed
  show "fst (allocate_page s) = 0 \<and> frames (snd (allocate_page s)) = {}"
    if "pmm_inv s" and "frames s = {}"
    using that(1)
  proof (cases rule: allocate_page_cases)
    case (Some p)
    then have "p \<in> free_set s" by simp
    with that(2) show ?thesis by (auto simp: frames_def simp del: in_free_set)
  next
    case None
    then show ?thesis by (simp add: frames_def)
  qed
qed

section \<open>Counting free runs\<close>

text \<open>The value of the counting loop's variables: whole blocks so far, the open run included.\<close>

definition run_blocks :: "u64 \<Rightarrow> u64 \<times> u64 \<Rightarrow> nat" where
  "run_blocks n cr = unat (fst cr) + unat (snd cr) div unat n"

lemma unat_add_div:
  assumes "unat c + unat r < 2 ^ 64"
  shows "unat (c + r div n) = unat c + unat r div unat (n :: u64)"
proof -
  have "unat r div unat n \<le> unat r" by (rule div_le_dividend)
  then have "unat c + unat (r div n) < 2 ^ 64"
    using assms unfolding unat_div_distrib by linarith
  then show ?thesis by (simp add: unat_add_word unat_div_distrib)
qed

lemma run_step_bounds:
  assumes "0 < n" and "unat (fst cr) + unat (snd cr) < 2 ^ 64 - 1"
  shows "unat (fst (run_step used n page cr)) + unat (snd (run_step used n page cr))
           \<le> Suc (unat (fst cr) + unat (snd cr))" (is ?bound)
    and "run_blocks n cr \<le> run_blocks n (run_step used n page cr)" (is ?mono)
    and "run_blocks n (run_step used n page cr) * unat n + unat (snd (run_step used n page cr)) mod unat n
           = run_blocks n cr * unat n + (if used page then 0 else Suc (unat (snd cr) mod unat n))" (is ?count)
proof -
  obtain c r where cr: "cr = (c, r)" by (cases cr)
  have n: "0 < unat n" using assms(1) by (simp add: word_less_nat_alt)
  have r1: "unat (r + 1) = Suc (unat r)"
    using assms(2) cr by (subst unat_add_word) auto
  have c1: "unat (c + r div n) = unat c + unat r div unat n"
    using assms(2) cr by (simp add: unat_add_div)
  show ?bound
    using cr r1 c1 by (auto simp: run_step_def intro: le_SucI)
  show ?mono
    using cr r1 c1 by (auto simp: run_step_def run_blocks_def div_le_mono)
  show ?count
  proof (cases "used page")
    case True
    then show ?thesis using cr c1 by (simp add: run_step_def run_blocks_def)
  next
    case False
    have "Suc (unat r) div unat n * unat n + Suc (unat r) mod unat n = Suc (unat r)" by simp
    moreover have "unat r div unat n * unat n + unat r mod unat n = unat r" by simp
    ultimately show ?thesis
      using cr r1 False by (simp add: run_step_def run_blocks_def algebra_simps)
  qed
qed

lemma fold_run_step_bounds:
  assumes "0 < n" and "unat (fst cr) + unat (snd cr) + length pages < 2 ^ 64"
  shows "unat (fst (fold (run_step used n) pages cr)) + unat (snd (fold (run_step used n) pages cr)) < 2 ^ 64"
    and "run_blocks n cr \<le> run_blocks n (fold (run_step used n) pages cr)"
    and "run_blocks n (fold (run_step used n) pages cr) * unat n
           \<le> run_blocks n cr * unat n + unat (snd cr) mod unat n + count_if (\<lambda>p. \<not> used p) pages"
  using assms(2)
proof (induction pages arbitrary: cr)
  case (Cons page pages)
  {
    case 1
    then show ?case
      using Cons.IH(1) [of "run_step used n page cr"] run_step_bounds(1) [OF assms(1), of cr used page] by simp
  next
    case 2
    then show ?case
      using Cons.IH(2) [of "run_step used n page cr"] run_step_bounds(1,2) [OF assms(1), of cr used page] by simp
  next
    case 3
    then show ?case
      using Cons.IH(3) [of "run_step used n page cr"] run_step_bounds(1,3) [OF assms(1), of cr used page]
      by (simp split: if_splits)
  }
qed auto

lemma run_blocks_exact:
  assumes "unat (fst cr) + unat (snd cr) < 2 ^ 64"
  shows "unat (fst cr + snd cr div n) = run_blocks n cr"
  using assms by (simp add: unat_add_div run_blocks_def)

lemma fold_run_step_find:
  assumes "0 < n" and "unat c + unat r + length pages < 2 ^ 64" and "r < n"
  shows "0 < run_blocks n (fold (run_step used n) pages (c, r)) \<longleftrightarrow>
         0 < c \<or> find_run used n pages st r \<noteq> None"
  using assms(2,3)
proof (induction pages arbitrary: r st)
  case Nil
  then show ?case by (simp add: run_blocks_def word_less_nat_alt)
next
  case (Cons page pages)
  have r1: "unat (r + 1) = Suc (unat r)"
    using Cons.prems by (subst unat_add_word) auto
  consider (used) "used page" | (full) "\<not> used page" "r + 1 = n" | (more) "\<not> used page" "r + 1 \<noteq> n" "r + 1 < n"
    using Cons.prems(2) word_Suc_le [of r n] by fastforce
  then show ?case
  proof cases
    case used
    have "c + r div n = c"
      using Cons.prems(2) by (simp add: word_unat_eq_iff unat_div_distrib word_less_nat_alt word_arith_nat_add)
    then show ?thesis
      using used Cons.IH [of 0 st] Cons.prems assms(1) by (simp add: run_step_def)
  next
    case full
    have "0 < unat n" using assms(1) by (simp add: word_less_nat_alt)
    then have "0 < run_blocks n (c, n)" by (simp add: run_blocks_def)
    also have "\<dots> \<le> run_blocks n (fold (run_step used n) pages (c, n))"
      using Cons.prems r1 full(2) by (intro fold_run_step_bounds(2) assms) auto
    finally show ?thesis using full by (simp add: run_step_def [of _ _ page] Let_def)
  next
    case more
    then show ?thesis
      using Cons.IH [of "r + 1" "if r = 0 then page else st"] Cons.prems r1
      by (simp add: run_step_def Let_def)
  qed
qed

lemma order_block:
  assumes "order \<le> (20 :: u64)"
  shows "unat (push_bit (unat order) (1 :: u64)) = 2 ^ unat order" and "0 < push_bit (unat order) (1 :: u64)"
proof -
  have "unat order \<le> 20" using assms by (simp add: word_le_nat_alt)
  then have "(2 :: nat) ^ unat order \<le> 2 ^ 20" by (intro power_increasing) auto
  then have "(2 :: nat) ^ unat order < 2 ^ 64" by (rule le_less_trans) simp
  then show *: "unat (push_bit (unat order) (1 :: u64)) = 2 ^ unat order"
    using of_nat_inverse [of "2 ^ unat order" "push_bit (unat order) (1 :: u64)"] by (simp add: push_bit_eq_mult)
  show "0 < push_bit (unat order) (1 :: u64)"
    unfolding word_less_nat_alt * by simp
qed

lemma free_run_count_eq:
  assumes "order \<le> 20" and "pmm_core s"
  shows "unat (free_run_count s order) =
     run_blocks (push_bit (unat order) 1)
       (fold (run_step (is_used s) (push_bit (unat order) 1)) (wrange 0x100 (total_pages s)) (0, 0))"
proof -
  have "unat (total_pages s) < 2 ^ 64" using unsigned_less [of "total_pages s"] by simp
  then have "length (wrange 0x100 (total_pages s)) < 2 ^ 64" by simp
  then show ?thesis
    using assms fold_run_step_bounds(1) [OF order_block(2) [OF assms(1)], of "(0,0)"]
    by (subst run_blocks_exact [symmetric])
      (auto simp: free_run_count_def Let_def case_prod_beta)
qed

lemma count_free_pages: "pmm_core s \<Longrightarrow> count_if (\<lambda>p. \<not> is_used s p) (wrange 0x100 (total_pages s)) = unat (free_pages s)"
  by (subst count_if_card) (auto simp: pmm_core_def intro: arg_cong [where f = card])

lemma free_run_count_le:
  assumes "order \<le> 20" and "pmm_core s"
  shows "unat (free_run_count s order) * 2 ^ unat order \<le> unat (free_pages s)"
proof -
  have "unat (total_pages s) < 2 ^ 64" using unsigned_less [of "total_pages s"] by simp
  then show ?thesis
    using fold_run_step_bounds(3) [OF order_block(2) [OF assms(1)], of "(0,0)" "wrange 0x100 (total_pages s)" "is_used s"]
    by (simp add: free_run_count_eq [OF assms] order_block(1) [OF assms(1)] order_block(1) [OF assms(1), simplified] count_free_pages [OF assms(2)] run_blocks_def)
qed

lemma free_run_count_find:
  assumes "order \<le> 20" and "pmm_core s"
  shows "0 < free_run_count s order \<longleftrightarrow>
    find_run (is_used s) (push_bit (unat order) 1) (wrange 0x100 (total_pages s)) 0 0 \<noteq> None"
proof -
  have "unat (total_pages s) < 2 ^ 64" using unsigned_less [of "total_pages s"] by simp
  then show ?thesis
    using fold_run_step_find [OF order_block(2) [OF assms(1)], of 0 0 "wrange 0x100 (total_pages s)" "is_used s" 0]
      order_block(2) [OF assms(1)]
    by (simp add: word_less_nat_alt [of 0 "free_run_count s order"] free_run_count_eq [OF assms])
qed
section \<open>Which pages are free after boot\<close>

text \<open>The ranges \<open>initialize\<close> takes out of the usable regions, in its order.\<close>

definition boot_reserved :: "BootInfo \<Rightarrow> (u64 \<times> u64) list" where
  "boot_reserved boot =
     [(0, 0x100000),
      (bi_kernel_physical_base boot, bi_kernel_physical_end boot - bi_kernel_physical_base boot),
      (bi_user_init_base boot, bi_user_init_size boot),
      (bi_boot_modules boot, bi_boot_module_count boot * 80)]
     @ map (\<lambda>i. (m_base (bi_modules boot i), m_size (bi_modules boot i))) (wrange 0 (bi_boot_module_count boot))
     @ [(bi_address boot, 156),
        (bi_memory_map boot, bi_memory_map_entries boot * bi_memory_map_descriptor_size boot),
        (fb_base (bi_framebuffer boot),
         ucast (fb_pixels_per_scanline (bi_framebuffer boot)) * ucast (fb_height (bi_framebuffer boot))
           * ucast (fb_bytes_per_pixel (bi_framebuffer boot)))]
     @ (if bi_rsdp boot \<noteq> 0 then [(align_down (bi_rsdp boot) kPageSize, kPageSize)] else [])"

text \<open>The pages a range touches, and the pages that lie wholly inside a region.\<close>

definition touches :: "u64 \<times> u64 \<Rightarrow> u64 \<Rightarrow> bool" where
  "touches r p \<longleftrightarrow> align_down (fst r) kPageSize div kPageSize \<le> p
     \<and> p < align_up (fst r + snd r) kPageSize div kPageSize"

definition offers :: "MemoryRegion \<Rightarrow> u64 \<Rightarrow> bool" where
  "offers r p \<longleftrightarrow> (r_type r = Usable \<or> r_type r = BootServices)
     \<and> align_up (r_base r) kPageSize div kPageSize \<le> p
     \<and> p < align_down (r_base r + r_length r) kPageSize div kPageSize \<and> p < kPmmBitmapPages"

lemma is_used_mark_range_used:
  assumes "pmm_core s"
  shows "is_used (mark_range_used s base len) p \<longleftrightarrow> is_used s p \<or> touches (base, len) p"
proof (cases "is_used s p")
  case False
  then have "p < total_pages s" using assms by (rule free_page_bounds(2) [rotated])
  then show ?thesis
    using False by (auto simp: mark_range_used_def Let_def pmm_simps fold_use_is_used touches_def)
qed (simp add: mark_range_used_mono)

lemma is_used_fold_mark:
  assumes "pmm_core s"
  shows "is_used (fold (\<lambda>r s. mark_range_used s (fst r) (snd r)) rs s) p \<longleftrightarrow>
         is_used s p \<or> (\<exists>r \<in> set rs. touches r p)"
  using assms
  by (induction rs arbitrary: s) (auto simp: is_used_mark_range_used mark_range_used_core)

lemma is_used_fold_free:
  assumes "\<And>p. p \<in> set ps \<Longrightarrow> p < kPmmBitmapPages"
  shows "is_used (fold free_if_used ps s) p \<longleftrightarrow> is_used s p \<and> \<not> (p \<in> set ps \<and> 0x100 \<le> p)"
  using assms
proof (induction ps arbitrary: s)
  case (Cons q ps)
  have "is_used (free_if_used q s) p \<longleftrightarrow> is_used s p \<and> \<not> (p = q \<and> 0x100 \<le> p)"
    using Cons.prems [of q] by (auto simp: free_if_used_def is_used_set_used not_less)
  then show ?case using Cons by auto
qed simp

lemma is_used_free_wrange:
  "b \<le> kPmmBitmapPages \<Longrightarrow> is_used (fold free_if_used (wrange a b) s) p \<longleftrightarrow>
     is_used s p \<and> \<not> (a \<le> p \<and> p < b \<and> 0x100 \<le> p)"
  by (subst is_used_fold_free) auto

lemma is_used_init_region: "is_used (init_region r s) p \<longleftrightarrow> is_used s p \<and> \<not> (offers r p \<and> 0x100 \<le> p)"
proof (cases "kPmmBitmapPages < align_down (r_base r + r_length r) kPageSize div kPageSize")
  case True
  have "p < kPmmBitmapPages \<Longrightarrow> p < align_down (r_base r + r_length r) kPageSize div kPageSize"
    using True by (rule less_trans [rotated])
  with True show ?thesis
    by (auto simp: init_region_def Let_def is_used_free_wrange offers_def)
next
  case False
  then have "p < align_down (r_base r + r_length r) kPageSize div kPageSize \<Longrightarrow> p < kPmmBitmapPages"
    by (metis not_less less_le_trans)
  with False show ?thesis
    by (auto simp: init_region_def Let_def is_used_free_wrange offers_def)
qed

lemma is_used_fold_init:
  "is_used (fold (\<lambda>i. init_region (f i)) is s) p \<longleftrightarrow>
   is_used s p \<and> \<not> ((\<exists>i \<in> set is. offers (f i) p) \<and> 0x100 \<le> p)"
  by (induction "is" arbitrary: s) (auto simp: is_used_init_region)

lemma is_used_pmm_initialize:
  "is_used (pmm_initialize s boot) p \<longleftrightarrow>
     p < 0x100 \<or> \<not> (\<exists>i < bi_memory_map_entries boot. offers (bi_regions boot i) p)
     \<or> (\<exists>r \<in> set (boot_reserved boot). touches r p)"
proof -
  define s0 where "s0 = s\<lparr>bitmap := (\<lambda>_. 0xff), total_pages := 0, free_pages := 0, scan_hint := 0x100,
                pmm_stats := zero_stats, pmm_diag := zero_pmm_diag\<rparr>"
  define s1 where "s1 = fold (\<lambda>i. init_region (bi_regions boot i)) (wrange 0 (bi_memory_map_entries boot)) s0"
  have full: "is_used s0 q" for q
    using pmm_core_full [of s] by (auto simp: s0_def pmm_core_def) 
  have "pmm_core s1" by (simp add: s1_def s0_def fold_init_core pmm_core_full)
  have "is_used (pmm_initialize s boot) p \<longleftrightarrow>
     is_used (fold (\<lambda>r s. mark_range_used s (fst r) (snd r)) (boot_reserved boot) s1) p"
    unfolding pmm_initialize_def Let_def boot_reserved_def s1_def s0_def
    by (simp add: pmm_simps fold_map comp_def)
  also have "\<dots> \<longleftrightarrow> is_used s1 p \<or> (\<exists>r \<in> set (boot_reserved boot). touches r p)"
    by (rule is_used_fold_mark) fact
  also have "is_used s1 p \<longleftrightarrow> \<not> ((\<exists>i < bi_memory_map_entries boot. offers (bi_regions boot i) p) \<and> 0x100 \<le> p)"
    by (auto simp: s1_def is_used_fold_init full)
  finally show ?thesis by auto
qed
section \<open>Properties\<close>

text \<open>The states the manager can be in after boot, under any sequence of calls. A call of
  \<open>free_contiguous\<close> whose page numbers wrap around the 64-bit range is excluded.\<close>

inductive pmm_reachable :: "pmm \<Rightarrow> bool" where
  boot: "pmm_reachable (pmm_initialize s boot)"
| page: "pmm_reachable s \<Longrightarrow> pmm_reachable (snd (allocate_page s))"
| run: "pmm_reachable s \<Longrightarrow> pmm_reachable (snd (allocate_contiguous s n))"
| free: "pmm_reachable s \<Longrightarrow> pmm_reachable (free_page s a)"
| free_run: "pmm_reachable s \<Longrightarrow> unat (a div kPageSize) + unat n < 2 ^ 64 \<Longrightarrow> pmm_reachable (free_contiguous s a n)"
| mark_used: "pmm_reachable s \<Longrightarrow> pmm_reachable (mark_range_used s base len)"
| mark_free: "pmm_reachable s \<Longrightarrow> pmm_reachable (mark_range_free s base len)"

lemma allocate_contiguous_inv: "pmm_inv s \<Longrightarrow> pmm_inv (snd (allocate_contiguous s n))"
proof (cases "n = 0")
  case False
  assume "pmm_inv s"
  moreover have "0 < n" using False by (simp add: word_gt_0)
  ultimately show ?thesis by (rule allocate_contiguous_cases)
qed (simp add: allocate_contiguous_def pmm_inv_def Let_def)

lemma free_contiguous_inv:
  "pmm_inv s \<Longrightarrow> unat (a div kPageSize) + unat n < 2 ^ 64 \<Longrightarrow> pmm_inv (free_contiguous s a n)"
  by (cases "bad_free a n") (auto simp: free_contiguous_bad free_contiguous_good)

lemma reachable_inv: "pmm_reachable s \<Longrightarrow> pmm_inv s"
  by (induction rule: pmm_reachable.induct)
    (simp_all add: pmm_initialize_inv allocate_page_inv allocate_contiguous_inv free_page_inv
      free_contiguous_inv mark_range_used_inv mark_range_free_inv)

lemma card_frames: "pmm_inv s \<Longrightarrow> card (frames s) = unat (free_pages s)"
proof -
  assume "pmm_inv s"
  then have core: "pmm_core s" by (simp add: pmm_inv_def)
  have "inj_on (\<lambda>p. p * kPageSize) (free_set s)"
    by (rule inj_on_inverseI [where g = "\<lambda>a. a div kPageSize"])
      (simp add: page_addr(2) free_page_bounds(3) [OF core])
  then show ?thesis using core by (simp add: frames_def card_image pmm_core_def)
qed

lemma frames_empty: "pmm_inv s \<Longrightarrow> frames s = {} \<longleftrightarrow> free_pages s = 0"
  using card_frames [of s] by (auto simp: frames_def word_unat_eq_iff [of "free_pages s"])

lemma free_pages_frames: "pmm_inv s \<Longrightarrow> pmm_inv t \<Longrightarrow> frames s = frames t \<Longrightarrow> free_pages s = free_pages t"
  using card_frames [of s] card_frames [of t] by (simp add: word_unat_eq_iff)

lemma allocate_page_counter:
  assumes "pmm_inv s" and "free_pages s \<noteq> 0"
  shows "free_pages (snd (allocate_page s)) = free_pages s - 1"
proof -
  have "frames s \<noteq> {}" using assms frames_empty by auto
  then have "card (frames (snd (allocate_page s))) = card (frames s) - 1"
    using pmm.alloc_some [OF assms(1)] by simp
  then show ?thesis
    using assms by (simp add: card_frames allocate_page_inv unat_pred_word word_gt_0 word_unat_eq_iff [of "free_pages (snd (allocate_page s))"])
qed

lemma total_pages_free [pmm_simps]:
  "total_pages (free_contiguous s a n) = total_pages s"
  "total_pages (free_page s a) = total_pages s"
  by (simp_all add: free_page_def free_contiguous_def Let_def case_prod_beta pmm_simps)

lemma managed_free_page: "managed_frames (free_page s a) = managed_frames s"
  by (simp add: managed_frames_def pmm_simps)

lemma allocate_contiguous_zero:
  assumes "pmm_inv s" and "0 < n"
  shows "fst (allocate_contiguous s n) = 0 \<longleftrightarrow>
    find_run (is_used s) n (wrange 0x100 (total_pages s)) 0 0 = None"
proof (cases "find_run (is_used s) n (wrange 0x100 (total_pages s)) 0 0")
  case None
  then show ?thesis using assms(2) by (simp add: allocate_contiguous_def Let_def)
next
  case (Some r)
  have "run_result (is_used s) n 0x100 (total_pages s) (Some r)"
    using find_run_pmm [of s n] assms Some by (simp add: pmm_inv_def)
  then have r: "0x100 \<le> r" and "\<not> is_used s r"
    using assms(2) by (auto simp: run_result_def word_less_nat_alt [of 0 n])
  then have "r < kPmmBitmapPages" using assms(1) free_page_bounds(3) by (auto simp: pmm_inv_def)
  then have "r * kPageSize \<noteq> 0" using r by (auto simp: page_addr(4))
  then show ?thesis using Some assms(2) by (auto simp: allocate_contiguous_def Let_def)
qed

text \<open>A machine with eight managed pages above the first megabyte, four of them free.\<close>

definition demo_boot :: BootInfo where
  "demo_boot = \<lparr>bi_address = 0x9000, bi_flags = 0, bi_rsdp = 0,
     bi_framebuffer = \<lparr>fb_base = 0xe0000000, fb_width = 0, fb_height = 0, fb_pixels_per_scanline = 0,
       fb_bytes_per_pixel = 0\<rparr>,
     bi_memory_map = 0x8000, bi_memory_map_entries = 1, bi_memory_map_descriptor_size = 24,
     bi_regions = (\<lambda>_. \<lparr>r_base = 0x100000, r_length = 0x6000, r_type = Usable\<rparr>),
     bi_kernel_physical_base = 0x100000, bi_kernel_physical_end = 0x102000,
     bi_user_init_base = 0x103000, bi_user_init_size = 0x800,
     bi_boot_modules = 0, bi_boot_module_count = 0,
     bi_modules = (\<lambda>_. \<lparr>m_base = 0, m_size = 0, m_path = []\<rparr>)\<rparr>"

definition full_pmm :: pmm where
  "full_pmm = \<lparr>bitmap = (\<lambda>_. 0xff), total_pages = 0, free_pages = 0, scan_hint = 0x100,
     pmm_stats = zero_stats\<lparr>ms_total_pages := 0x108, ms_free_pages := 4, ms_used_pages := 0x104\<rparr>,
     pmm_diag = zero_pmm_diag\<rparr>"

definition demo_pmm :: pmm where
  "demo_pmm = (fold (\<lambda>p s. set_used s p False) [0x100, 0x102, 0x103, 0x105] full_pmm)
     \<lparr>total_pages := 0x108, free_pages := 4\<rparr>"

lemma demo_free_set: "free_set demo_pmm = {0x100, 0x102, 0x103, 0x105}"
proof -
  have "free_set full_pmm = {}"
    using pmm_core_full [of full_pmm] by (auto simp: full_pmm_def pmm_core_def)
  then show ?thesis
    by (simp add: demo_pmm_def free_set_release kPmmBitmapPages_def insert_commute)
qed

lemma demo_inv: "pmm_inv demo_pmm"
  by (simp add: pmm_inv_def pmm_core_def demo_free_set del: in_free_set)
    (simp add: demo_pmm_def full_pmm_def kPmmBitmapPages_def pmm_simps)



text \<open>C2. \<open>allocate_page\<close> fails, returning zero, exactly when no page is free; otherwise it returns the
  page-aligned address of a free frame, and afterwards exactly that frame is no longer free and
  the free counter is one lower.\<close>

theorem allocate_page_correct:
  assumes "pmm_inv s"
  shows "(fst (allocate_page s) = 0 \<longleftrightarrow> free_pages s = 0)
    \<and> (free_pages s \<noteq> 0 \<longrightarrow> fst (allocate_page s) \<in> frames s \<and> fst (allocate_page s) AND 0xfff = 0
         \<and> frames (snd (allocate_page s)) = frames s - {fst (allocate_page s)}
         \<and> free_pages (snd (allocate_page s)) = free_pages s - 1)"
proof -
  have "frames s = {} \<longleftrightarrow> free_pages s = 0"
    by (rule frames_empty [OF assms])
  moreover have "free_pages (snd (allocate_page s)) = free_pages s - 1" if "free_pages s \<noteq> 0"
    by (rule allocate_page_counter [OF assms that])
  ultimately show ?thesis
    using assms pmm.alloc_zero_iff [of s] pmm.alloc_some [of s] pmm.alloc_frame [of s] by auto
qed

theorem allocate_page_correct_witness:
  "pmm_inv demo_pmm \<and> free_pages demo_pmm \<noteq> 0 \<and> fst (allocate_page demo_pmm) \<in> frames demo_pmm
     \<and> frames (snd (allocate_page demo_pmm)) = frames demo_pmm - {fst (allocate_page demo_pmm)}"
  using allocate_page_correct [OF demo_inv] demo_inv by (simp add: demo_pmm_def)

text \<open>C3. Allocating at most as many pages as are free, one after the other, gives pairwise distinct
  free frames.\<close>

theorem allocate_pages_distinct:
  assumes "pmm_inv s" and "n \<le> unat (free_pages s)"
  shows "distinct (fst (alloc_n allocate_page n s)) \<and> length (fst (alloc_n allocate_page n s)) = n
    \<and> set (fst (alloc_n allocate_page n s)) \<subseteq> frames s
    \<and> frames (snd (alloc_n allocate_page n s)) = frames s - set (fst (alloc_n allocate_page n s))"
  using pmm.alloc_n_spec [OF assms(1)] assms by (simp add: card_frames)

theorem allocate_pages_distinct_witness:
  "distinct (fst (alloc_n allocate_page 4 demo_pmm)) \<and> frames (snd (alloc_n allocate_page 4 demo_pmm)) =
     frames demo_pmm - set (fst (alloc_n allocate_page 4 demo_pmm))"
  using allocate_pages_distinct [OF demo_inv, of 4] by (simp add: demo_pmm_def)

text \<open>C4. Freeing the page just allocated restores the free frames, and freeing a managed page twice
  is the same as freeing it once.\<close>

theorem free_page_roundtrip:
  assumes "pmm_inv s"
  shows "(free_pages s \<noteq> 0 \<longrightarrow> frames (free_page (snd (allocate_page s)) (fst (allocate_page s))) = frames s)
    \<and> (a \<in> managed_frames s \<longrightarrow> frames (free_page (free_page s a) a) = frames (free_page s a)
         \<and> free_pages (free_page (free_page s a) a) = free_pages (free_page s a))"
proof -
  have "frames s = {} \<longleftrightarrow> free_pages s = 0"
    by (rule frames_empty [OF assms])
  moreover have same: "frames (free_page (free_page s a) a) = frames (free_page s a)" if "a \<in> managed_frames s"
    using that assms pmm.release_avail [of s a] pmm.release_avail [of "free_page s a" a]
    by (simp add: free_page_inv managed_free_page)
  moreover have "free_pages (free_page (free_page s a) a) = free_pages (free_page s a)" if "a \<in> managed_frames s"
    using same [OF that] by (intro free_pages_frames free_page_inv assms)
  ultimately show ?thesis
    using assms pmm.release_alloc [of s] pmm.alloc_zero_iff [of s] by simp
qed

theorem free_page_roundtrip_witness:
  "frames (free_page (snd (allocate_page demo_pmm)) (fst (allocate_page demo_pmm))) = frames demo_pmm
   \<and> frames (free_page (free_page demo_pmm 0x101000) 0x101000) = frames (free_page demo_pmm 0x101000)"
proof -
  have "0x101000 = 0x101 * kPageSize" by (simp add: kPageSize_def)
  then have "0x101000 \<in> managed_frames demo_pmm"
    unfolding managed_frames_def by (auto simp: demo_pmm_def kPmmBitmapPages_def)
  then show ?thesis
    using free_page_roundtrip [OF demo_inv, where a = "0x101000"] by (simp add: demo_pmm_def)
qed

text \<open>C5. \<open>allocate_contiguous\<close> is first fit: it returns zero exactly when no run of the requested
  length is free, and otherwise the lowest run of free pages, which it takes, and nothing else.\<close>

theorem allocate_contiguous_first_fit:
  assumes "pmm_inv s" and "0 < n"
  shows "(\<exists>r. 0x100 \<le> r \<and> unat r + unat n \<le> unat (total_pages s) \<and> \<not> blocked (is_used s) n r
            \<and> (\<forall>r'. 0x100 \<le> r' \<and> r' < r \<longrightarrow> blocked (is_used s) n r')
            \<and> fst (allocate_contiguous s n) = r * kPageSize \<and> fst (allocate_contiguous s n) \<noteq> 0
            \<and> free_set (snd (allocate_contiguous s n)) = free_set s - {p. r \<le> p \<and> p < r + n})
       \<or> fst (allocate_contiguous s n) = 0 \<and> free_set (snd (allocate_contiguous s n)) = free_set s
            \<and> (\<forall>r. 0x100 \<le> r \<and> unat r + unat n \<le> unat (total_pages s) \<longrightarrow> blocked (is_used s) n r)"
proof (rule allocate_contiguous_cases [OF assms])
  fix r
  assume r: "0x100 \<le> r" "unat r + unat n \<le> unat (total_pages s)" "set (wrange r (r + n)) \<subseteq> free_set s"
    and low: "\<And>r'. 0x100 \<le> r' \<Longrightarrow> r' < r \<Longrightarrow> blocked (is_used s) n r'"
    and res: "fst (allocate_contiguous s n) = r * kPageSize"
      "free_set (snd (allocate_contiguous s n)) = free_set s - set (wrange r (r + n))"
  have "unat (total_pages s) < 2 ^ 64" using unsigned_less [of "total_pages s"] by simp
  then have rn: "unat (r + n) = unat r + unat n" using r(2) by (simp add: unat_add_word)
  have "p \<in> set (wrange r (r + n))" if "r \<le> p" "unat p < unat r + unat n" for p
    using that rn by (simp add: word_less_nat_alt)
  then have nb: "\<not> blocked (is_used s) n r"
    using r(3) unfolding blocked_def by (metis in_free_set subsetD)
  have "r \<in> set (wrange r (r + n))"
    using assms(2) rn by (simp add: word_less_nat_alt)
  then have "\<not> is_used s r" using r(3) by (metis in_free_set subsetD)
  then have "r < kPmmBitmapPages" using assms(1) free_page_bounds(3) by (auto simp: pmm_inv_def)
  then have nz: "r * kPageSize \<noteq> 0" using r(1) by (auto simp: page_addr(4))
  have "set (wrange r (r + n)) = {p. r \<le> p \<and> p < r + n}" by auto
  with r low res nb nz show ?thesis by (intro disjI1 exI [of _ r] conjI) simp_all
qed simp_all

theorem allocate_contiguous_first_fit_witness:
  "fst (allocate_contiguous demo_pmm 2) = 0x102000
   \<and> (\<exists>r. fst (allocate_contiguous demo_pmm 2) = r * kPageSize \<and>
        free_set (snd (allocate_contiguous demo_pmm 2)) = free_set demo_pmm - {p. r \<le> p \<and> p < r + 2})"
proof -
  have "fst (allocate_contiguous demo_pmm 2) = 0x102000" by code_simp
  then show ?thesis using allocate_contiguous_first_fit [OF demo_inv, of 2] by auto
qed
text \<open>C6. After \<open>initialize\<close> a page is free exactly when it lies wholly inside a usable or
  boot-services region of the memory map, above the first megabyte and below the bitmap's limit,
  and touches none of the reserved ranges: the first megabyte, the kernel image, the init image,
  the module table, every module, the boot information, the memory map, the framebuffer and the
  page of the RSDP.\<close>

theorem initialize_free_pages:
  "\<not> is_used (pmm_initialize s boot) p \<longleftrightarrow>
     0x100 \<le> p \<and> (\<exists>i. i < bi_memory_map_entries boot \<and> offers (bi_regions boot i) p)
     \<and> \<not> (\<exists>r. r \<in> set (boot_reserved boot) \<and> touches r p)"
  unfolding is_used_pmm_initialize by (auto simp: not_less [of p])

text \<open>C7. For every order up to 20, \<open>free_run_count\<close> is positive exactly when
  \<open>allocate_contiguous\<close> of a block of that order succeeds, and the counted blocks together hold at
  most the free pages.\<close>

theorem free_run_count_predicts:
  assumes "pmm_inv s" and "order \<le> 20"
  shows "(0 < free_run_count s order \<longleftrightarrow> fst (allocate_contiguous s (push_bit (unat order) 1)) \<noteq> 0)
    \<and> unat (free_run_count s order) * 2 ^ unat order \<le> unat (free_pages s)"
proof -
  note core = assms(1) [unfolded pmm_inv_def, THEN conjunct1]
  show ?thesis
    using free_run_count_le [OF assms(2) core] free_run_count_find [OF assms(2) core]
      allocate_contiguous_zero [OF assms(1) order_block(2) [OF assms(2)]] by simp
qed

theorem free_run_count_predicts_witness:
  "free_run_count demo_pmm 1 = 1 \<and> fst (allocate_contiguous demo_pmm (push_bit (unat (1 :: u64)) 1)) \<noteq> 0"
proof -
  have "free_run_count demo_pmm 1 = 1" by code_simp
  then show ?thesis using free_run_count_predicts [OF demo_inv, of 1] by simp
qed

end
