(* ===== verification/Memory.thy ===== *)
theory Memory
  imports Pmm
begin

text \<open>
  Physical memory as a function from addresses to bytes, the block operations of
  \<open>kernel/src/lib/string.cpp\<close>, and 64-bit objects in memory. \<open>memmove_correct\<close> shows that
  \<open>memmove\<close> copies correctly under any overlap; the locale \<open>table_memory\<close> states what the page
  table code needs of memory.
\<close>

section \<open>Block operations on bytes\<close>

type_synonym mem = "u64 \<Rightarrow> u8"

fun copy_up :: "mem \<Rightarrow> u64 \<Rightarrow> u64 \<Rightarrow> nat \<Rightarrow> mem" where
  "copy_up m d s 0 = m"
| "copy_up m d s (Suc n) = copy_up (m(d := m s)) (d + 1) (s + 1) n"

fun copy_down :: "mem \<Rightarrow> u64 \<Rightarrow> u64 \<Rightarrow> nat \<Rightarrow> mem" where
  "copy_down m d s 0 = m"
| "copy_down m d s (Suc n) = (let d = d - 1; s = s - 1 in copy_down (m(d := m s)) d s n)"

fun fill_up :: "mem \<Rightarrow> u64 \<Rightarrow> u8 \<Rightarrow> nat \<Rightarrow> mem" where
  "fill_up m d c 0 = m"
| "fill_up m d c (Suc n) = fill_up (m(d := c)) (d + 1) c n"

definition memcpy :: "mem \<Rightarrow> u64 \<Rightarrow> u64 \<Rightarrow> u64 \<Rightarrow> mem" where
  "memcpy m dst src n = copy_up m dst src (unat n)"

definition memset :: "mem \<Rightarrow> u64 \<Rightarrow> u32 \<Rightarrow> u64 \<Rightarrow> mem" where
  "memset m dst c n = fill_up m dst (ucast c) (unat n)"

definition memmove :: "mem \<Rightarrow> u64 \<Rightarrow> u64 \<Rightarrow> u64 \<Rightarrow> mem" where
  "memmove m dst src n =
     (if dst < src then copy_up m dst src (unat n)
      else copy_down m (dst + n) (src + n) (unat n))"

text \<open>A run of bytes in memory, read into a local array or written from one.\<close>

definition get_bytes :: "mem \<Rightarrow> u64 \<Rightarrow> u64 \<Rightarrow> u8 list" where
  "get_bytes m a n = map (\<lambda>i. m (a + i)) (wrange 0 n)"

definition put_bytes :: "u64 \<Rightarrow> u8 list \<Rightarrow> mem \<Rightarrow> mem" where
  "put_bytes a bs m = (\<lambda>x. if unat (x - a) < length bs then bs ! unat (x - a) else m x)"

section \<open>Words in memory\<close>

text \<open>Little-endian access to the eight bytes of a \<open>uint64_t\<close> object.\<close>

fun load_le :: "mem \<Rightarrow> u64 \<Rightarrow> nat \<Rightarrow> u64" where
  "load_le m a 0 = 0"
| "load_le m a (Suc k) = ucast (m a) OR push_bit 8 (load_le m (a + 1) k)"

fun store_le :: "mem \<Rightarrow> u64 \<Rightarrow> u64 \<Rightarrow> nat \<Rightarrow> mem" where
  "store_le m a v 0 = m"
| "store_le m a v (Suc k) = store_le (m(a := ucast v)) (a + 1) (drop_bit 8 v) k"

definition load64 :: "mem \<Rightarrow> u64 \<Rightarrow> u64" where
  "load64 m a = load_le m a 8"

definition store64 :: "mem \<Rightarrow> u64 \<Rightarrow> u64 \<Rightarrow> mem" where
  "store64 m a v = store_le m a v 8"

lemma bit_load_le:
  "bit (load_le m a k) n \<longleftrightarrow> n < 64 \<and> n < 8 * k \<and> bit (m (a + of_nat (n div 8))) (n mod 8)"
proof (induction k arbitrary: a n)
  case (Suc k)
  show ?case
  proof (cases "n < 8")
    case True
    then show ?thesis by (auto simp: bit_simps)
  next
    case False
    then have "n div 8 = Suc ((n - 8) div 8)" and "n mod 8 = (n - 8) mod 8"
      by (simp_all add: le_div_geq le_mod_geq)
    with False show ?thesis using bit_imp_le_length [of "m a" n]
      by (auto simp: bit_simps Suc.IH add.assoc)
  qed
qed simp

lemma store_le_outside:
  "(\<And>j. j < k \<Longrightarrow> b \<noteq> a + of_nat j) \<Longrightarrow> store_le m a v k b = m b"
proof (induction k arbitrary: m a v)
  case (Suc k)
  have "b \<noteq> a + 1 + of_nat j" if "j < k" for j
    using Suc.prems [of "Suc j"] that by (simp add: add.assoc)
  moreover have "b \<noteq> a" using Suc.prems [of 0] by simp
  ultimately show ?case by (simp add: Suc.IH)
qed simp

lemma store_le_byte:
  assumes "j < k" and "k \<le> 8"
  shows "store_le m a v k (a + of_nat j) = ucast (drop_bit (8 * j) v)"
  using assms
proof (induction k arbitrary: m a v j)
  case (Suc k)
  show ?case
  proof (cases j)
    case 0
    have "a \<noteq> a + 1 + of_nat i" if "i < k" for i
    proof -
      have "(of_nat (Suc i) :: u64) \<noteq> 0"
        using that Suc.prems(2) by (intro notI) (simp add: word_unat_eq_iff unat_of_nat del: of_nat_Suc)
      then show ?thesis by (simp add: add.assoc)
    qed
    then show ?thesis using 0 by (simp add: store_le_outside)
  next
    case j: (Suc i)
    then have "a + of_nat j = a + 1 + of_nat i" by simp
    then have "store_le m a v (Suc k) (a + of_nat j)
        = store_le (m(a := ucast v)) (a + 1) (drop_bit 8 v) k (a + 1 + of_nat i)" by (simp add: add.assoc)
    also have "\<dots> = ucast (drop_bit (8 * i) (drop_bit 8 v))" using j Suc.prems by (intro Suc.IH) simp_all
    finally show ?thesis using j by (simp add: ac_simps)
  qed
qed simp

lemma load64_store64 [mem_simps]: "load64 (store64 m a v) a = v"
  by (rule bit_word_eqI)
    (auto simp: load64_def store64_def bit_load_le store_le_byte bit_simps)

lemma load64_cong:
  assumes "\<And>k. k < 8 \<Longrightarrow> m (a + of_nat k) = m' (a + of_nat k)"
  shows "load64 m a = load64 m' a"
  by (rule bit_word_eqI) (auto simp: load64_def bit_load_le assms)

definition aligned8 :: "u64 \<Rightarrow> bool" where "aligned8 a \<longleftrightarrow> a AND 7 = 0"

text \<open>Below an address with \<open>n\<close> low zero bits, an offset of at most \<open>n\<close> bits does not carry.\<close>

lemma aligned_offset:
  assumes "a AND mask n = (0 :: u64)" and "k AND NOT (mask n) = 0"
  shows "(a + k) AND NOT (mask n) = a" and "(a + k) AND mask n = k"
proof -
  have bits: "\<not> bit a i" if "i < n" for i
    using assms(1) that bit_imp_le_length [of a i] by (auto simp: bit_eq_iff bit_simps)
  have bitk: "i < n" if "bit k i" for i
    using assms(2) that bit_imp_le_length [of k i] by (auto simp: bit_eq_iff bit_simps)
  have "a + k = a OR k"
    by (rule disjunctive_add) (use bits bitk in blast)
  then show "(a + k) AND NOT (mask n) = a" "(a + k) AND mask n = k"
    using bits bitk by (auto intro!: bit_word_eqI simp: bit_simps)
qed

lemma small_offset:
  assumes "k < 2 ^ n" and "n \<le> 64"
  shows "(of_nat k :: u64) AND NOT (mask n) = 0"
proof -
  have "take_bit n (of_nat k :: u64) = of_nat (take_bit n k)"
    by (simp add: take_bit_of_nat)
  also have "\<dots> = of_nat k" using assms(1) by (simp add: take_bit_nat_eq_self)
  finally have "(of_nat k :: u64) AND mask n = of_nat k" by (simp add: take_bit_eq_mask)
  then show ?thesis by (metis and.assoc bit.conj_cancel_right and_zero_eq)
qed

lemma load64_store64_other [mem_simps]:
  assumes "aligned8 a" and "aligned8 b" and "a \<noteq> b"
  shows "load64 (store64 m a v) b = load64 m b"
unfolding store64_def
proof (rule load64_cong, rule store_le_outside)
  fix k l :: nat assume "k < 8" "l < 8"
  then have "(of_nat k :: u64) AND NOT (mask 3) = 0" "(of_nat l :: u64) AND NOT (mask 3) = 0"
    by (simp_all add: small_offset)
  moreover have "(7 :: u64) = mask 3" by (simp add: mask_numeral)
  ultimately have "(a + of_nat l) AND NOT (mask 3) = a" "(b + of_nat k) AND NOT (mask 3) = b"
    using assms(1,2) unfolding aligned8_def by (metis aligned_offset(1))+
  then show "b + of_nat k \<noteq> a + of_nat l" using assms(3) by metis
qed

section \<open>Correctness of the block operations\<close>

text \<open>What a block copy is to achieve, whatever the overlap: the \<open>n\<close> bytes from \<open>d\<close> hold the old
  bytes from \<open>s\<close>, every other byte is kept.\<close>

definition copied :: "mem \<Rightarrow> u64 \<Rightarrow> u64 \<Rightarrow> nat \<Rightarrow> mem" where
  "copied m d s n = (\<lambda>a. if unat (a - d) < n then m (s + (a - d)) else m a)"

lemma unat_diff_Suc: "(a :: u64) \<noteq> d \<Longrightarrow> unat (a - d) = Suc (unat (a - (d + 1)))"
proof -
  assume "a \<noteq> d"
  then have "0 < a - d" by (simp add: word_gt_0)
  then have "unat (a - d - 1) = unat (a - d) - 1" "0 < unat (a - d)"
    by (simp_all add: unat_pred_word word_less_nat_alt)
  then show ?thesis by (simp add: diff_diff_add)
qed

lemma fill_up_spec:
  "n < 2 ^ 64 \<Longrightarrow> fill_up m d c n = (\<lambda>a. if unat (a - d) < n then c else m a)"
proof (induction n arbitrary: m d)
  case (Suc n)
  show ?case
  proof
    fix a
    show "fill_up m d c (Suc n) a = (if unat (a - d) < Suc n then c else m a)"
    proof (cases "a = d")
      case True
      then show ?thesis using Suc by simp
    next
      case False
      then show ?thesis using Suc unat_diff_Suc [OF False] by simp
    qed
  qed
qed simp

lemma copy_up_spec:
  assumes "n < 2 ^ 64" and "\<And>i j. i < j \<Longrightarrow> j < n \<Longrightarrow> d + of_nat i \<noteq> s + of_nat j"
  shows "copy_up m d s n = copied m d s n"
  using assms
proof (induction n arbitrary: m d s)
  case (Suc n)
  have IH: "copy_up (m(d := m s)) (d + 1) (s + 1) n = copied (m(d := m s)) (d + 1) (s + 1) n"
  proof (rule Suc.IH)
    show "d + 1 + of_nat i \<noteq> s + 1 + of_nat j" if "i < j" "j < n" for i j
      using Suc.prems(2) [of "Suc i" "Suc j"] that by (simp add: algebra_simps)
  qed (use Suc.prems in simp)
  show ?case
  proof
    fix a
    show "copy_up m d s (Suc n) a = copied m d s (Suc n) a"
    proof (cases "a = d")
      case True
      have "\<not> unat (d - (d + 1)) < n" using Suc.prems(1) by (simp add: unsigned_minus_1_eq_mask mask_eq_exp_minus_1)
      then show ?thesis using True IH by (simp add: copied_def)
    next
      case False
      have eq: "s + 1 + (a - (d + 1)) = s + (a - d)" by simp
      have "s + (a - d) \<noteq> d" if "unat (a - (d + 1)) < n"
        using Suc.prems(2) [of 0 "unat (a - d)"] that unat_diff_Suc [OF False] by auto
      then show ?thesis using IH False eq unat_diff_Suc [OF False] by (auto simp: copied_def)
    qed
  qed
qed (simp add: copied_def)

lemma copy_down_spec:
  assumes "n < 2 ^ 64" and "\<And>i j. i < j \<Longrightarrow> j < n \<Longrightarrow> d + of_nat j \<noteq> s + of_nat i"
  shows "copy_down m (d + of_nat n) (s + of_nat n) n = copied m d s n"
  using assms
proof (induction n arbitrary: m)
  case (Suc n)
  define m' where "m' = m(d + of_nat n := m (s + of_nat n))"
  have "copy_down m (d + of_nat (Suc n)) (s + of_nat (Suc n)) (Suc n)
      = copy_down m' (d + of_nat n) (s + of_nat n) n"
    by (simp add: m'_def Let_def algebra_simps)
  also have "\<dots> = copied m' d s n" using Suc.prems by (intro Suc.IH) auto
  also have "\<dots> = copied m d s (Suc n)"
  proof
    fix a
    have own: "of_nat (unat (a - d)) = a - d" by simp
    have "unat (of_nat n :: u64) = n" using Suc.prems(1) by (intro of_nat_inverse) auto
    then have "unat (a - d) = n \<longleftrightarrow> a = d + of_nat n"
      by (metis own add_diff_cancel_left' diff_add_cancel add.commute)
    moreover have "s + (a - d) \<noteq> d + of_nat n" if "unat (a - d) < n"
      using Suc.prems(2) [of "unat (a - d)" n] that own by auto
    ultimately show "copied m' d s n a = copied m d s (Suc n) a"
      by (auto simp: copied_def m'_def less_Suc_eq)
  qed
  finally show ?case .
qed (simp add: copied_def)

lemma unat_offset: "unat d + i < 2 ^ 64 \<Longrightarrow> unat (d + of_nat i :: u64) = unat d + i"
  by (subst unat_add_word) (auto simp: of_nat_inverse)

lemma offset_eq:
  assumes "d + of_nat i = (s + of_nat j :: u64)" and "unat d + i < 2 ^ 64" and "unat s + j < 2 ^ 64"
  shows "unat d + i = unat s + j"
  using assms unat_offset by metis

lemma memset_spec: "memset m d c n = (\<lambda>a. if a - d < n then ucast c else m a)"
  using unsigned_less [of n, where 'a = nat] by (simp add: memset_def fill_up_spec word_less_nat_alt)

lemma memcpy_spec:
  assumes "\<And>i j. i < unat n \<Longrightarrow> j < unat n \<Longrightarrow> d + of_nat i \<noteq> s + of_nat j"
  shows "memcpy m d s n = copied m d s (unat n)"
  using unsigned_less [of n, where 'a = nat] assms by (simp add: memcpy_def copy_up_spec)

lemma memmove_spec:
  assumes "unat d + unat n \<le> 2 ^ 64" and "unat s + unat n \<le> 2 ^ 64"
  shows "memmove m d s n = copied m d s (unat n)"
proof -
  have n: "unat n < 2 ^ 64" using unsigned_less [of n, where 'a = nat] by simp
  have eq: "unat d + i = unat s + j" if "d + of_nat i = s + of_nat j" "i < unat n" "j < unat n" for i j
    using offset_eq [OF that(1)] that(2,3) assms by simp
  show ?thesis
  proof (cases "d < s")
    case True
    then have "unat d < unat s" by (simp add: word_less_nat_alt)
    then show ?thesis
      using eq n True by (fastforce simp: memmove_def intro!: copy_up_spec)
  next
    case False
    then have "unat s \<le> unat d" by (simp add: word_less_nat_alt)
    then have "copy_down m (d + of_nat (unat n)) (s + of_nat (unat n)) (unat n) = copied m d s (unat n)"
      using eq n by (fastforce intro!: copy_down_spec)
    then show ?thesis using False by (simp add: memmove_def)
  qed
qed

section \<open>The memory a page table lives in\<close>

definition entry_addr :: "u64 \<Rightarrow> u16 \<Rightarrow> u64" where
  "entry_addr table index = table + 8 * ucast index"

lemma entry_addr_split:
  assumes "t AND 0xfff = 0" and "i < 512"
  shows "entry_addr t i AND NOT 0xfff = t" and "entry_addr t i AND 0xfff = 8 * ucast i"
    and "aligned8 (entry_addr t i)"
proof -
  have m: "(0xfff :: u64) = mask 12" by (simp add: mask_numeral)
  have i: "unat i < 512" using assms(2) by (simp add: word_less_nat_alt)
  have k: "8 * ucast i = (of_nat (8 * unat i) :: u64)" by simp
  have off: "(8 * ucast i :: u64) AND NOT (mask 12) = 0"
    unfolding k by (rule small_offset) (use i in auto)
  show "entry_addr t i AND NOT 0xfff = t" "entry_addr t i AND 0xfff = 8 * ucast i"
    unfolding entry_addr_def m using aligned_offset [OF _ off] assms(1) m by metis+
  have seven: "(7 :: u64) = 0xfff AND mask 3" by (simp add: mask_numeral)
  have "entry_addr t i AND 7 = (8 * ucast i) AND mask 3"
    unfolding seven and.assoc [symmetric] \<open>entry_addr t i AND 0xfff = 8 * ucast i\<close> ..
  also have "8 * ucast i = (push_bit 3 (ucast i) :: u64)" by (simp add: push_bit_eq_mult)
  also have "push_bit 3 (ucast i) AND mask 3 = (0 :: u64)"
    by (auto intro!: bit_word_eqI simp: bit_simps)
  finally show "aligned8 (entry_addr t i)" by (simp add: aligned8_def)
qed

lemma entry_addr_inj:
  assumes "t AND 0xfff = 0" and "i < 512" and "u AND 0xfff = 0" and "j < 512"
  shows "entry_addr t i = entry_addr u j \<longleftrightarrow> t = u \<and> i = j"
proof
  assume eq: "entry_addr t i = entry_addr u j"
  have small: "unat (8 * ucast k :: u64) = 8 * unat k" if "k < 512" for k :: u16
  proof -
    have "unat k < 512" using that by (simp add: word_less_nat_alt)
    then show ?thesis using of_nat_inverse [of "8 * unat k" "8 * ucast k :: u64"] by simp
  qed
  have "t = u" using eq entry_addr_split(1) assms by metis
  moreover have "8 * ucast i = (8 * ucast j :: u64)" using eq entry_addr_split(2) assms by metis
  then have "8 * unat i = 8 * unat j" using small assms(2,4) by metis
  ultimately show "t = u \<and> i = j" by (simp add: word_unat_eq_iff)
qed simp

lemma in_page:
  assumes "p AND 0xfff = (0 :: u64)"
  shows "b - p < kPageSize \<longleftrightarrow> b AND NOT 0xfff = p"
proof
  have m: "(0xfff :: u64) = mask 12" by (simp add: mask_numeral)
  assume "b - p < kPageSize"
  then have "unat (b - p) < 2 ^ 12" by (simp add: kPageSize_def word_less_nat_alt)
  then have "(of_nat (unat (b - p)) :: u64) AND NOT (mask 12) = 0" by (rule small_offset) simp
  then have "(p + (b - p)) AND NOT (mask 12) = p" using assms m by (intro aligned_offset(1)) simp_all
  then show "b AND NOT 0xfff = p" by (simp add: m)
next
  assume p: "b AND NOT 0xfff = p"
  have "b = (b AND 0xfff) + (b AND NOT 0xfff)"
    by (subst disjunctive_add) (auto simp: bit_simps intro: bit_word_eqI)
  then have "b - p = b AND 0xfff" using p by (metis add_diff_cancel_right')
  also have "\<dots> \<le> 0xfff" by (rule word_and_le1)
  finally show "b - p < kPageSize" by (simp add: kPageSize_def word_le_nat_alt word_less_nat_alt)
qed

lemma aligned8_page:
  assumes "aligned8 a" and "k < 8"
  shows "(a + of_nat k) AND NOT 0xfff = a AND NOT 0xfff"
proof -
  have "(of_nat k :: u64) AND NOT (mask 3) = 0" using assms(2) by (intro small_offset) auto
  moreover have "a AND mask 3 = 0" using assms(1) by (simp add: aligned8_def mask_numeral)
  ultimately have a: "(a + of_nat k) AND NOT (mask 3) = a" by (intro aligned_offset(1))
  have n: "NOT 0xfff = NOT (mask 3) AND NOT (0xfff :: u64)" by (simp add: mask_numeral)
  show ?thesis by (subst n) (simp only: a and.assoc [symmetric])
qed

lemma load64_memset_page:
  assumes "p AND 0xfff = 0" and "aligned8 a"
  shows "load64 (memset m p 0 kPageSize) a = (if a AND NOT 0xfff = p then 0 else load64 m a)"
proof -
  have page: "(a + of_nat k - p < kPageSize) = (a AND NOT 0xfff = p)" if "k < 8" for k
    using in_page [OF assms(1)] aligned8_page [OF assms(2) that] by simp
  show ?thesis
  proof (cases "a AND NOT 0xfff = p")
    case True
    have "load64 (memset m p 0 kPageSize) a = load64 (\<lambda>_. 0) a"
      by (rule load64_cong) (use page True in \<open>simp add: memset_spec\<close>)
    also have "\<dots> = 0" by (rule bit_word_eqI) (simp add: load64_def bit_load_le)
    finally show ?thesis using True by simp
  next
    case False
    have "load64 (memset m p 0 kPageSize) a = load64 m a"
      by (rule load64_cong) (use page False in \<open>simp add: memset_spec\<close>)
    then show ?thesis using False by simp
  qed
qed

text \<open>What page-table code needs of memory: aligned 64-bit objects are independent, and clearing a
  page zeroes exactly the objects inside it.\<close>

locale table_memory =
  fixes ld :: "'m \<Rightarrow> u64 \<Rightarrow> u64"
    and st :: "'m \<Rightarrow> u64 \<Rightarrow> u64 \<Rightarrow> 'm"
    and clear :: "'m \<Rightarrow> u64 \<Rightarrow> 'm"
  assumes ld_st: "ld (st m a v) a = v"
    and ld_st_other: "aligned8 a \<Longrightarrow> aligned8 b \<Longrightarrow> a \<noteq> b \<Longrightarrow> ld (st m a v) b = ld m b"
    and ld_clear: "p AND 0xfff = 0 \<Longrightarrow> aligned8 a \<Longrightarrow>
      ld (clear m p) a = (if a AND NOT 0xfff = p then 0 else ld m a)"

interpretation bytes: table_memory load64 store64 "\<lambda>m p. memset m p 0 kPageSize"
  by unfold_locales (simp_all add: mem_simps load64_memset_page)

section \<open>Properties\<close>

text \<open>C8. For blocks that do not run past the end of the address space, \<open>memmove\<close> leaves in the
  destination exactly the bytes the source held before the call, whatever the overlap, and every
  byte outside the destination as it was.\<close>

theorem memmove_correct:
  assumes "unat dst + unat n \<le> 2 ^ 64" and "unat src + unat n \<le> 2 ^ 64"
  shows "memmove m dst src n a = (if unat (a - dst) < unat n then m (src + (a - dst)) else m a)"
  using memmove_spec [OF assms] by (simp add: copied_def)

theorem memmove_correct_witness:
  "memmove (\<lambda>a. ucast a) 0x1002 0x1000 4 0x1005 = 3 \<and> memmove (\<lambda>a. ucast a) 0x1000 0x1002 4 0x1003 = 5"
  using memmove_correct [of "0x1002" 4 "0x1000" "\<lambda>a. ucast a" "0x1005"]
    memmove_correct [of "0x1000" 4 "0x1002" "\<lambda>a. ucast a" "0x1003"] by simp

end
