(* ===== verification/Paging.thy ===== *)
theory Paging
  imports Memory
begin

text \<open>
  Page tables: the virtual memory manager of \<open>kernel/src/mm/vmm.cpp\<close> and the address spaces of
  \<open>kernel/src/mm/address_space.cpp\<close>, over byte memory and the physical memory manager. Tables are
  identity mapped, so that a table pointer is a physical address. Interrupting the other processors
  and \<open>invlpg\<close> are recorded as traces.
\<close>

section \<open>Constants and state\<close>

definition kAddrMask :: u64 where "kAddrMask = 0x000ffffffffff000"
definition PagePresent :: u64 where "PagePresent = 1"
definition PageWrite :: u64 where "PageWrite = 2"
definition PageUser :: u64 where "PageUser = 4"
definition PageGlobal :: u64 where "PageGlobal = push_bit 8 1"
definition PageNoExecute :: u64 where "PageNoExecute = push_bit 63 1"
definition kDefaultTableFlags :: u64 where "kDefaultTableFlags = PagePresent OR PageWrite"

definition pml4_index :: "u64 \<Rightarrow> u16" where "pml4_index v = ucast (drop_bit 39 v AND 0x1ff)"
definition pdpt_index :: "u64 \<Rightarrow> u16" where "pdpt_index v = ucast (drop_bit 30 v AND 0x1ff)"
definition pd_index :: "u64 \<Rightarrow> u16" where "pd_index v = ucast (drop_bit 21 v AND 0x1ff)"
definition pt_index :: "u64 \<Rightarrow> u16" where "pt_index v = ucast (drop_bit 12 v AND 0x1ff)"

record MappingResult =
  mr_ok :: bool
  mr_error :: string

definition map_ok :: MappingResult where "map_ok = \<lparr>mr_ok = True, mr_error = ''ok''\<rparr>"
definition map_fail :: "string \<Rightarrow> MappingResult" where "map_fail e = \<lparr>mr_ok = False, mr_error = e\<rparr>"

record VirtualMemoryDiagnostics =
  map_page_calls :: u64
  map_range_calls :: u64
  unmap_page_calls :: u64
  mapped_pages :: u64
  unmapped_pages :: u64
  failed_maps :: u64
  failed_unmaps :: u64
  duplicate_map_rejects :: u64
  unaligned_map_rejects :: u64
  absent_unmap_rejects :: u64
  remote_shootdowns_requested :: u64
  last_mapped_virt :: u64
  last_unmapped_virt :: u64

text \<open>The machine the paging code runs on: physical memory (identity mapped), the physical memory
  manager, the control register, the fields of the \<open>VirtualMemoryManager\<close>, whether the local APIC
  timer drives the clock, and the pages invalidated locally and on the other processors so far.\<close>

record machine =
  m_mem :: mem
  m_pmm :: pmm
  m_cr3 :: u64
  m_root :: u64
  m_vmm_diag :: VirtualMemoryDiagnostics
  m_lapic_timer :: bool
  m_invlpg :: "u64 list"
  m_shootdowns :: "u64 list"

definition with_diag :: "(VirtualMemoryDiagnostics \<Rightarrow> VirtualMemoryDiagnostics) \<Rightarrow> machine \<Rightarrow> machine" where
  "with_diag f s = s\<lparr>m_vmm_diag := f (m_vmm_diag s)\<rparr>"

section \<open>The virtual memory manager\<close>

definition m_allocate_page :: "machine \<Rightarrow> u64 \<times> machine" where
  "m_allocate_page s = (let (page, p) = allocate_page (m_pmm s) in (page, s\<lparr>m_pmm := p\<rparr>))"

definition table_from_phys :: "u64 \<Rightarrow> u64" where
  "table_from_phys physical = physical AND kAddrMask"

definition load_cr3 :: "machine \<Rightarrow> u64 \<Rightarrow> machine" where
  "load_cr3 s physical = (let s = s\<lparr>m_root := physical AND kAddrMask\<rparr> in s\<lparr>m_cr3 := m_root s\<rparr>)"

definition initialize_identity :: "machine \<Rightarrow> machine" where
  "initialize_identity s =
     (let firmware_root = m_cr3 s AND kAddrMask;
          (owned_root, s) = m_allocate_page s
      in if owned_root = 0 then s\<lparr>m_root := firmware_root\<rparr>
         else load_cr3 (s\<lparr>m_mem := memcpy (m_mem s) owned_root firmware_root kPageSize\<rparr>) owned_root)"

definition invalidate_local_page :: "machine \<Rightarrow> u64 \<Rightarrow> machine" where
  "invalidate_local_page s virt = s\<lparr>m_invlpg := virt # m_invlpg s\<rparr>"

text \<open>\<open>tf\<close> are the flags of a new table entry: \<open>kDefaultTableFlags\<close> in \<open>vmm.cpp\<close>, those of
  \<open>table_flags\<close> below in \<open>address_space.cpp\<close>, whose \<open>ensure_table\<close> is otherwise the same. The
  result 0 is the null pointer.\<close>

definition ensure_table :: "machine \<Rightarrow> u64 \<Rightarrow> u16 \<Rightarrow> u64 \<Rightarrow> u64 \<times> machine" where
  "ensure_table s table index tf =
     (let a = entry_addr table index
      in if load64 (m_mem s) a AND PagePresent = 0 then
           let (page, s) = m_allocate_page s
           in if page = 0 then (0, s)
              else let s = s\<lparr>m_mem := memset (m_mem s) page 0 kPageSize\<rparr>;
                       s = s\<lparr>m_mem := store64 (m_mem s) a (page OR tf)\<rparr>
                   in (table_from_phys (load64 (m_mem s) a), s)
         else (table_from_phys (load64 (m_mem s) a), s))"

definition vmm_fail :: "string \<Rightarrow> machine \<Rightarrow> MappingResult \<times> machine" where
  "vmm_fail e s = (map_fail e, with_diag (\<lambda>d. d\<lparr>failed_maps := failed_maps d + 1\<rparr>) s)"

definition finish_remote :: "machine \<Rightarrow> u64 \<Rightarrow> machine" where
  "finish_remote s virt =
     (if \<not> m_lapic_timer s
      then with_diag (\<lambda>d. d\<lparr>remote_shootdowns_requested := remote_shootdowns_requested d + 1\<rparr>)
             (s\<lparr>m_shootdowns := virt # m_shootdowns s\<rparr>)
      else s)"

definition vmm_map_page :: "machine \<Rightarrow> u64 \<Rightarrow> u64 \<Rightarrow> u64 \<Rightarrow> MappingResult \<times> machine" where
  "vmm_map_page s virt phys flags =
     (let s = with_diag (\<lambda>d. d\<lparr>map_page_calls := map_page_calls d + 1\<rparr>) s
      in if virt AND (kPageSize - 1) \<noteq> 0 \<or> phys AND (kPageSize - 1) \<noteq> 0
         then vmm_fail ''unaligned map_page address''
                (with_diag (\<lambda>d. d\<lparr>unaligned_map_rejects := unaligned_map_rejects d + 1\<rparr>) s)
         else
         let pml4 = table_from_phys (m_root s);
             (pdpt, s) = ensure_table s pml4 (pml4_index virt) kDefaultTableFlags
         in if pdpt = 0 then vmm_fail ''failed to allocate PDPT'' s else
         let (pd, s) = ensure_table s pdpt (pdpt_index virt) kDefaultTableFlags
         in if pd = 0 then vmm_fail ''failed to allocate PD'' s else
         let (pt, s) = ensure_table s pd (pd_index virt) kDefaultTableFlags
         in if pt = 0 then vmm_fail ''failed to allocate PT'' s
         else if load64 (m_mem s) (entry_addr pt (pt_index virt)) AND PagePresent \<noteq> 0
         then vmm_fail ''virtual page is already mapped''
                (with_diag (\<lambda>d. d\<lparr>duplicate_map_rejects := duplicate_map_rejects d + 1\<rparr>) s)
         else
         let s = s\<lparr>m_mem := store64 (m_mem s) (entry_addr pt (pt_index virt))
                     ((phys AND kAddrMask) OR (flags AND NOT kAddrMask) OR PagePresent)\<rparr>;
             s = finish_remote (invalidate_local_page s virt) virt
         in (map_ok, with_diag (\<lambda>d. d\<lparr>mapped_pages := mapped_pages d + 1, last_mapped_virt := virt\<rparr>) s))"

fun map_pages :: "machine \<Rightarrow> u64 \<Rightarrow> u64 \<Rightarrow> u64 \<Rightarrow> u64 list \<Rightarrow> MappingResult \<times> machine" where
  "map_pages s virt phys flags [] = (map_ok, s)"
| "map_pages s virt phys flags (i # is) =
     (let (result, s) = vmm_map_page s (virt + i * kPageSize) (phys + i * kPageSize) flags
      in if \<not> mr_ok result then (result, s) else map_pages s virt phys flags is)"

definition map_range :: "machine \<Rightarrow> u64 \<Rightarrow> u64 \<Rightarrow> u64 \<Rightarrow> u64 \<Rightarrow> MappingResult \<times> machine" where
  "map_range s virt phys len flags =
     (let s = with_diag (\<lambda>d. d\<lparr>map_range_calls := map_range_calls d + 1\<rparr>) s;
          pages = align_up len kPageSize div kPageSize
      in map_pages s virt phys flags (wrange 0 pages))"

definition absent :: "string \<Rightarrow> machine \<Rightarrow> MappingResult \<times> machine" where
  "absent e s = (map_fail e, with_diag (\<lambda>d. d\<lparr>failed_unmaps := failed_unmaps d + 1,
     absent_unmap_rejects := absent_unmap_rejects d + 1\<rparr>) s)"

definition unmap_page :: "machine \<Rightarrow> u64 \<Rightarrow> MappingResult \<times> machine" where
  "unmap_page s virt =
     (let s = with_diag (\<lambda>d. d\<lparr>unmap_page_calls := unmap_page_calls d + 1\<rparr>) s;
          pml4e = load64 (m_mem s) (entry_addr (table_from_phys (m_root s)) (pml4_index virt))
      in if pml4e AND PagePresent = 0 then absent ''PML4 entry absent'' s else
      let pdpte = load64 (m_mem s) (entry_addr (table_from_phys pml4e) (pdpt_index virt))
      in if pdpte AND PagePresent = 0 then absent ''PDPT entry absent'' s else
      let pde = load64 (m_mem s) (entry_addr (table_from_phys pdpte) (pd_index virt))
      in if pde AND PagePresent = 0 then absent ''PD entry absent'' s else
      let pte_addr = entry_addr (table_from_phys pde) (pt_index virt)
      in if load64 (m_mem s) pte_addr AND PagePresent = 0 then absent ''PT entry absent'' s else
      let s = s\<lparr>m_mem := store64 (m_mem s) pte_addr 0\<rparr>;
          s = finish_remote (invalidate_local_page s virt) virt
      in (map_ok, with_diag (\<lambda>d. d\<lparr>unmapped_pages := unmapped_pages d + 1, last_unmapped_virt := virt\<rparr>) s))"

definition vmm_translate :: "machine \<Rightarrow> u64 \<Rightarrow> u64" where
  "vmm_translate s virt =
     (let pml4e = load64 (m_mem s) (entry_addr (table_from_phys (m_root s)) (pml4_index virt))
      in if pml4e AND PagePresent = 0 then 0 else
      let pdpte = load64 (m_mem s) (entry_addr (table_from_phys pml4e) (pdpt_index virt))
      in if pdpte AND PagePresent = 0 then 0
         else if pdpte AND push_bit 7 1 \<noteq> 0 then (pdpte AND 0x000fffffc0000000) + (virt AND 0x3fffffff) else
      let pde = load64 (m_mem s) (entry_addr (table_from_phys pdpte) (pd_index virt))
      in if pde AND PagePresent = 0 then 0
         else if pde AND push_bit 7 1 \<noteq> 0 then (pde AND 0x000fffffffe00000) + (virt AND 0x1fffff) else
      let pte = load64 (m_mem s) (entry_addr (table_from_phys pde) (pt_index virt))
      in if pte AND PagePresent = 0 then 0 else (pte AND kAddrMask) + (virt AND 0xfff))"

section \<open>Address spaces\<close>

definition table_flags :: "u64 \<Rightarrow> u64" where
  "table_flags flags = PagePresent OR PageWrite OR (flags AND PageUser)"

definition copy_entry :: "u64 \<Rightarrow> u64 \<Rightarrow> u16 \<Rightarrow> machine \<Rightarrow> machine" where
  "copy_entry dst src i s =
     s\<lparr>m_mem := store64 (m_mem s) (entry_addr dst i) (load64 (m_mem s) (entry_addr src i))\<rparr>"

definition create_address_space :: "machine \<Rightarrow> u64 \<times> machine" where
  "create_address_space s =
     (let (root, s) = m_allocate_page s
      in if root = 0 then (0, s)
         else let s = s\<lparr>m_mem := memset (m_mem s) root 0 kPageSize\<rparr>;
                  dst = table_from_phys root;
                  src = table_from_phys (m_cr3 s)
              in (root, fold (copy_entry dst src) (wrange 256 512) s))"

definition as_map_page :: "machine \<Rightarrow> u64 \<Rightarrow> u64 \<Rightarrow> u64 \<Rightarrow> u64 \<Rightarrow> MappingResult \<times> machine" where
  "as_map_page s space virt phys flags =
     (if space = 0 then (map_fail ''address space has no PML4'', s)
      else if virt AND (kPageSize - 1) \<noteq> 0 \<or> phys AND (kPageSize - 1) \<noteq> 0
      then (map_fail ''unaligned address-space map'', s) else
      let pml4 = table_from_phys space;
          (pdpt, s) = ensure_table s pml4 (pml4_index virt) (table_flags flags)
      in if pdpt = 0 then (map_fail ''failed to allocate address-space PDPT'', s) else
      let (pd, s) = ensure_table s pdpt (pdpt_index virt) (table_flags flags)
      in if pd = 0 then (map_fail ''failed to allocate address-space PD'', s) else
      let (pt, s) = ensure_table s pd (pd_index virt) (table_flags flags)
      in if pt = 0 then (map_fail ''failed to allocate address-space PT'', s)
      else if load64 (m_mem s) (entry_addr pt (pt_index virt)) AND PagePresent \<noteq> 0
      then (map_fail ''address-space virtual page is already mapped'', s)
      else (map_ok, s\<lparr>m_mem := store64 (m_mem s) (entry_addr pt (pt_index virt))
                        ((phys AND kAddrMask) OR (flags AND NOT kAddrMask) OR PagePresent)\<rparr>))"

text \<open>The walk that \<open>translate\<close> and \<open>page_flags\<close> share: the address of the last-level entry.\<close>

definition pte_of :: "machine \<Rightarrow> u64 \<Rightarrow> u64 \<Rightarrow> u64 option" where
  "pte_of s space virt =
     (if space = 0 then None else
      let pml4e = load64 (m_mem s) (entry_addr (table_from_phys space) (pml4_index virt))
      in if pml4e AND PagePresent = 0 then None else
      let pdpte = load64 (m_mem s) (entry_addr (table_from_phys pml4e) (pdpt_index virt))
      in if pdpte AND PagePresent = 0 then None else
      let pde = load64 (m_mem s) (entry_addr (table_from_phys pdpte) (pd_index virt))
      in if pde AND PagePresent = 0 then None
         else Some (entry_addr (table_from_phys pde) (pt_index virt)))"

definition as_translate :: "machine \<Rightarrow> u64 \<Rightarrow> u64 \<Rightarrow> u64" where
  "as_translate s space virt =
     (case pte_of s space virt of None \<Rightarrow> 0
      | Some a \<Rightarrow> let pte = load64 (m_mem s) a
                  in if pte AND PagePresent = 0 then 0 else (pte AND kAddrMask) + (virt AND 0xfff))"

definition page_flags :: "machine \<Rightarrow> u64 \<Rightarrow> u64 \<Rightarrow> u64" where
  "page_flags s space virt =
     (case pte_of s space virt of None \<Rightarrow> 0 | Some a \<Rightarrow> load64 (m_mem s) a)"

definition m_free_page :: "u64 \<Rightarrow> machine \<Rightarrow> machine" where
  "m_free_page a s = s\<lparr>m_pmm := free_page (m_pmm s) a\<rparr>"

text \<open>The three nested loops of \<open>destroy_address_space\<close>, one definition each.\<close>

definition free_pt :: "u64 \<Rightarrow> u16 \<Rightarrow> machine \<Rightarrow> machine" where
  "free_pt pd i s =
     (let pde = load64 (m_mem s) (entry_addr pd i)
      in if pde AND PagePresent = 0 then s else m_free_page (pde AND kAddrMask) s)"

definition free_pd :: "u64 \<Rightarrow> u16 \<Rightarrow> machine \<Rightarrow> machine" where
  "free_pd pdpt i s =
     (let pdpte = load64 (m_mem s) (entry_addr pdpt i)
      in if pdpte AND PagePresent = 0 then s
         else m_free_page (pdpte AND kAddrMask) (fold (free_pt (table_from_phys pdpte)) (wrange 0 512) s))"

definition free_pdpt :: "u64 \<Rightarrow> u16 \<Rightarrow> machine \<Rightarrow> machine" where
  "free_pdpt pml4 i s =
     (let pml4e = load64 (m_mem s) (entry_addr pml4 i)
      in if pml4e AND PagePresent = 0 then s
         else m_free_page (pml4e AND kAddrMask) (fold (free_pd (table_from_phys pml4e)) (wrange 0 512) s))"

definition destroy_address_space :: "machine \<Rightarrow> u64 \<Rightarrow> u64 \<times> machine" where
  "destroy_address_space s space =
     (if space = 0 then (0, s)
      else (0, m_free_page space (fold (free_pdpt (table_from_phys space)) (wrange 0 256) s)))"

section \<open>Table walks\<close>

text \<open>The tables reached from \<open>t\<close> along a list of indices, reading entries by \<open>rd\<close>; four indices
  lead to the mapped page.\<close>

fun walk :: "(u64 \<Rightarrow> u64) \<Rightarrow> u64 \<Rightarrow> u16 list \<Rightarrow> u64 option" where
  "walk rd t [] = Some t"
| "walk rd t (i # is) =
     (let e = rd (entry_addr t i)
      in if e AND PagePresent = 0 then None else walk rd (e AND kAddrMask) is)"

lemma walk_append: "walk rd t (is @ js) = Option.bind (walk rd t is) (\<lambda>u. walk rd u js)"
  by (induction "is" arbitrary: t) (simp_all add: Let_def)

lemma walk_same:
  assumes "\<And>ks k ls t. js = ks @ k # ls \<Longrightarrow> walk rd root ks = Some t \<Longrightarrow>
    rd' (entry_addr t k) = rd (entry_addr t k)"
  shows "walk rd' root js = walk rd root js"
  using assms
proof (induction js arbitrary: root)
  case (Cons j js)
  have e: "rd' (entry_addr root j) = rd (entry_addr root j)"
    using Cons.prems [of "[]" j js root] by simp
  show ?case
  proof (cases "rd (entry_addr root j) AND PagePresent = 0")
    case False
    have "walk rd' (rd (entry_addr root j) AND kAddrMask) js = walk rd (rd (entry_addr root j) AND kAddrMask) js"
      by (rule Cons.IH) (use Cons.prems [of "j # _"] False in \<open>simp add: Let_def\<close>)
    then show ?thesis using e by (simp add: Let_def)
  qed (use e in \<open>simp add: Let_def\<close>)
qed simp

definition valid_path :: "u16 set \<Rightarrow> u16 list \<Rightarrow> bool" where
  "valid_path H is \<longleftrightarrow> (\<forall>i \<in> set is. i < 512) \<and> (is \<noteq> [] \<longrightarrow> hd is \<in> H)"

text \<open>
  Below the top-level slots \<open>H\<close> the tables form a tree of distinct, aligned pages outside the free
  frames \<open>F\<close>, without large pages at the middle levels.
\<close>

definition pt_ok :: "(u64 \<Rightarrow> u64) \<Rightarrow> u64 \<Rightarrow> u16 set \<Rightarrow> u64 set \<Rightarrow> bool" where
  "pt_ok rd root H F \<longleftrightarrow>
     (\<forall>is t. valid_path H is \<and> length is \<le> 3 \<and> walk rd root is = Some t \<longrightarrow>
        t AND 0xfff = 0 \<and> t \<noteq> 0 \<and> t \<notin> F)
     \<and> (\<forall>is js t. valid_path H is \<and> valid_path H js \<and> length is \<le> 3 \<and> length js \<le> 3
          \<and> walk rd root is = Some t \<and> walk rd root js = Some t \<longrightarrow> is = js)
     \<and> (\<forall>is i t. valid_path H (is @ [i]) \<and> length is \<in> {1, 2} \<and> walk rd root is = Some t
          \<and> rd (entry_addr t i) AND PagePresent \<noteq> 0 \<longrightarrow> rd (entry_addr t i) AND push_bit 7 1 = 0)"

lemma valid_path_prefix: "valid_path H (is @ js) \<Longrightarrow> valid_path H is"
  by (cases "is") (auto simp: valid_path_def)

lemma valid_path_last: "valid_path H (is @ i # js) \<Longrightarrow> i < 512"
  by (simp add: valid_path_def)

lemma pt_okD:
  assumes "pt_ok rd root H F" and "valid_path H is" and "length is \<le> 3" and "walk rd root is = Some t"
  shows "t AND 0xfff = 0" and "t \<noteq> 0" and "t \<notin> F"
    and "valid_path H js \<Longrightarrow> length js \<le> 3 \<Longrightarrow> walk rd root js = Some t \<Longrightarrow> js = is"
  using assms unfolding pt_ok_def by blast+

lemma pt_okI:
  assumes "\<And>is t. valid_path H is \<Longrightarrow> length is \<le> 3 \<Longrightarrow> walk rd root is = Some t \<Longrightarrow>
      t AND 0xfff = 0 \<and> t \<noteq> 0 \<and> t \<notin> F"
    and "\<And>is js t. valid_path H is \<Longrightarrow> length is \<le> 3 \<Longrightarrow> walk rd root is = Some t \<Longrightarrow>
      valid_path H js \<Longrightarrow> length js \<le> 3 \<Longrightarrow> walk rd root js = Some t \<Longrightarrow> is = js"
    and "\<And>is i t. valid_path H (is @ [i]) \<Longrightarrow> length is \<in> {1, 2} \<Longrightarrow> walk rd root is = Some t \<Longrightarrow>
      rd (entry_addr t i) AND PagePresent \<noteq> 0 \<Longrightarrow> rd (entry_addr t i) AND push_bit 7 1 = 0"
  shows "pt_ok rd root H F"
  unfolding pt_ok_def
proof (intro conjI allI impI; elim conjE)
  fix "is" i t
  assume "valid_path H (is @ [i])" "length is \<in> {1, 2}" "walk rd root is = Some t"
    "rd (entry_addr t i) AND PagePresent \<noteq> 0"
  then show "rd (entry_addr t i) AND push_bit 7 1 = 0" by (rule assms(3))
qed (use assms(1,2) in blast)+

lemma pt_ok_no_huge:
  "pt_ok rd root H F \<Longrightarrow> valid_path H (is @ [i]) \<Longrightarrow> length is \<in> {1, 2} \<Longrightarrow> walk rd root is = Some t \<Longrightarrow>
     rd (entry_addr t i) AND PagePresent \<noteq> 0 \<Longrightarrow> rd (entry_addr t i) AND push_bit 7 1 = 0"
  unfolding pt_ok_def by blast

context table_memory
begin

lemma walk_st:
  assumes ok: "pt_ok (ld m) root H F" and ps: "valid_path H (ps @ [i])" "length ps \<le> 3" "walk (ld m) root ps = Some t"
    and js: "valid_path H js" "length js \<le> 4" "take (Suc (length ps)) js \<noteq> ps @ [i]"
  shows "walk (ld (st m (entry_addr t i) e)) root js = walk (ld m) root js"
proof (rule walk_same)
  fix ks k ls u
  assume split: "js = ks @ k # ls" and u: "walk (ld m) root ks = Some u"
  have ks: "valid_path H ks" "length ks \<le> 3" "k < 512"
    using js(1,2) split by (auto intro: valid_path_prefix valid_path_last)
  have ps': "valid_path H ps" "i < 512" using ps(1) by (auto intro: valid_path_prefix valid_path_last)
  have al: "u AND 0xfff = 0" "t AND 0xfff = 0"
    using pt_okD(1) [OF ok] ks u ps' ps by blast+
  have "\<not> (u = t \<and> k = i)"
    using pt_okD(4) [OF ok ps'(1) ps(2,3) ks(1,2)] u js(3) split by auto
  then have "entry_addr t i \<noteq> entry_addr u k"
    using entry_addr_inj al ks(3) ps'(2) by metis
  then show "ld (st m (entry_addr t i) e) (entry_addr u k) = ld m (entry_addr u k)"
    by (intro ld_st_other entry_addr_split(3) al ks(3) ps'(2))
qed

lemma ld_new_table:
  assumes "t AND 0xfff = 0" "p AND 0xfff = 0" "u AND 0xfff = 0" "i < 512" "k < 512"
  shows "ld (st (clear m p) (entry_addr t i) e) (entry_addr u k) =
    (if u = t \<and> k = i then e else if u = p then 0 else ld m (entry_addr u k))"
proof (cases "u = t \<and> k = i")
  case False
  then have "entry_addr t i \<noteq> entry_addr u k" using assms entry_addr_inj by metis
  then have "ld (st (clear m p) (entry_addr t i) e) (entry_addr u k) = ld (clear m p) (entry_addr u k)"
    by (intro ld_st_other entry_addr_split(3) assms)
  also have "\<dots> = (if entry_addr u k AND NOT 0xfff = p then 0 else ld m (entry_addr u k))"
    by (intro ld_clear entry_addr_split(3) assms)
  finally show ?thesis using False unfolding entry_addr_split(1) [OF assms(3,5)] by auto
qed (simp add: ld_st)

text \<open>Linking a cleared free page \<open>p\<close> as a new table below \<open>t\<close> adds one table and changes no other walk.\<close>

lemma walk_link:
  assumes ok: "pt_ok (ld m) root H F" and ps: "valid_path H (ps @ [i])" "length ps \<le> 3" "walk (ld m) root ps = Some t"
    and new: "p \<in> F" "p AND kAddrMask = p" "p AND 0xfff = 0"
    and fl: "fl AND kAddrMask = 0" "fl AND PagePresent \<noteq> 0"
    and free: "ld m (entry_addr t i) AND PagePresent = 0"
    and js: "valid_path H js" "length js \<le> 4"
  shows "walk (ld (st (clear m p) (entry_addr t i) (p OR fl))) root js =
    (if js = ps @ [i] then Some p else walk (ld m) root js)" (is "walk ?rd root js = _")
proof -
  have ps': "valid_path H ps" "i < 512" using ps(1) by (auto intro: valid_path_prefix valid_path_last)
  note t = pt_okD [OF ok ps'(1) ps(2,3)]
  have keep: "walk ?rd root ks = walk (ld m) root ks"
    if ks: "valid_path H ks" "length ks \<le> 4" "take (Suc (length ps)) ks \<noteq> ps @ [i]" for ks
  proof (rule walk_same)
    fix ls k ms u
    assume split: "ks = ls @ k # ms" and u: "walk (ld m) root ls = Some u"
    have ls: "valid_path H ls" "length ls \<le> 3" "k < 512"
      using ks(1,2) split by (auto intro: valid_path_prefix valid_path_last)
    note u' = pt_okD [OF ok ls(1,2) u]
    have "\<not> (u = t \<and> k = i)"
      using pt_okD(4) [OF ok ps'(1) ps(2,3) ls(1,2)] u ks(3) split by auto
    then show "?rd (entry_addr u k) = ld m (entry_addr u k)"
      using ld_new_table [OF t(1) new(3) u'(1) ps'(2) ls(3)] u'(3) new(1) by auto
  qed
  have e: "?rd (entry_addr t i) = p OR fl" by (simp add: ld_st)
  have pr: "(p OR fl) AND PagePresent \<noteq> 0" "(p OR fl) AND kAddrMask = p"
    using fl new(2) by (simp_all add: bit.conj_disj_distrib2 or_eq_0_iff)
  show ?thesis
  proof (cases "take (Suc (length ps)) js = ps @ [i]")
    case False
    then show ?thesis using keep [OF js] by auto
  next
    case True
    then obtain zs where zs: "js = ps @ i # zs"
      by (metis append.assoc append_Cons append_Nil append_take_drop_id)
    have "walk ?rd root ps = Some t" using keep [OF ps'(1)] ps(2,3) by simp
    then have new_walk: "walk ?rd root js = walk ?rd p zs" using zs e pr by (simp add: walk_append Let_def)
    have old_walk: "walk (ld m) root js = None" using zs ps(3) free by (simp add: walk_append Let_def)
    show ?thesis
    proof (cases zs)
      case (Cons z zs')
      have "z < 512" using js(1) zs Cons by (simp add: valid_path_def)
      then have "?rd (entry_addr p z) = 0"
        using ld_new_table [OF t(1) new(3) new(3) ps'(2)] t(3) new(1) by auto
      then show ?thesis using new_walk old_walk zs Cons by (simp add: Let_def)
    qed (use new_walk zs in simp)
  qed
qed


lemma pt_ok_link:
  assumes ok: "pt_ok (ld m) root H F" and ps: "valid_path H (ps @ [i])" "length ps \<le> 2" "walk (ld m) root ps = Some t"
    and new: "p \<in> F" "p AND kAddrMask = p" "p AND 0xfff = 0" "p \<noteq> 0"
    and fl: "fl AND kAddrMask = 0" "fl AND PagePresent \<noteq> 0" "fl AND push_bit 7 1 = 0"
    and free: "ld m (entry_addr t i) AND PagePresent = 0"
  shows "pt_ok (ld (st (clear m p) (entry_addr t i) (p OR fl))) root H (F - {p})" (is "pt_ok ?rd root H _")
proof -
  have len: "length ps \<le> 3" using ps(2) by simp
  have ps': "valid_path H ps" "i < 512" using ps(1) by (auto intro: valid_path_prefix valid_path_last)
  note t = pt_okD [OF ok ps'(1) len ps(3)]
  have w: "walk ?rd root js = (if js = ps @ [i] then Some p else walk (ld m) root js)"
    if "valid_path H js" "length js \<le> 3" for js
    using walk_link [OF ok ps(1) len ps(3) new(1-3) fl(1,2) free that(1)] that(2) by simp
  have p7: "p AND push_bit 7 1 = 0"
  proof -
    have "p AND push_bit 7 1 = p AND (kAddrMask AND push_bit 7 1)" using new(2) by (metis and.assoc)
    also have "kAddrMask AND push_bit 7 1 = 0" by (simp add: kAddrMask_def)
    finally show ?thesis by simp
  qed
  have 1: "u AND 0xfff = 0 \<and> u \<noteq> 0 \<and> u \<notin> F - {p}"
    if "valid_path H is" "length is \<le> 3" "walk ?rd root is = Some u" for "is" u
    using that(3) w [OF that(1,2)] pt_okD(1-3) [OF ok that(1,2)] new(3,4) by (auto split: if_splits)
  have 2: "is = js" if "valid_path H is" "length is \<le> 3" "walk ?rd root is = Some u"
    "valid_path H js" "length js \<le> 3" "walk ?rd root js = Some u" for "is" js u
  proof (cases "is = ps @ [i] \<or> js = ps @ [i]")
    case True
    then show ?thesis
      using that(3,6) w [OF that(1,2)] w [OF that(4,5)] pt_okD(3) [OF ok that(1,2)] pt_okD(3) [OF ok that(4,5)] new(1)
      by (auto split: if_splits)
  next
    case False
    then show ?thesis
      using that(3,6) w [OF that(1,2)] w [OF that(4,5)] pt_okD(4) [OF ok that(4,5) _ that(1,2)] by metis
  qed
  have 3: "?rd (entry_addr u k) AND push_bit 7 1 = 0"
    if "valid_path H (is @ [k])" "length is \<in> {1, 2}" "walk ?rd root is = Some u"
      "?rd (entry_addr u k) AND PagePresent \<noteq> 0" for "is" k u
  proof -
    have v: "valid_path H is" "length is \<le> 3" "k < 512"
      using that(1,2) by (auto intro: valid_path_prefix valid_path_last)
    have u: "u AND 0xfff = 0" using 1 [OF v(1,2) that(3)] by simp
    note rd = ld_new_table [OF t(1) new(3) u ps'(2) v(3), of m "p OR fl"]
    show ?thesis
    proof (cases "u = t \<and> k = i")
      case True
      then show ?thesis using rd p7 fl(3) by (simp add: bit.conj_disj_distrib2)
    next
      case False
      then have "u \<noteq> p" and same: "?rd (entry_addr u k) = ld m (entry_addr u k)"
        using rd that(4) by (auto split: if_splits)
      then have "walk (ld m) root is = Some u" using w [OF v(1,2)] that(3) by (auto split: if_splits)
      then show ?thesis using pt_ok_no_huge [OF ok that(1,2)] that(4) same by simp
    qed
  qed
  show ?thesis using 1 2 3 by (rule pt_okI)
qed

text \<open>Writing a last-level entry changes the walks through it and nothing else.\<close>

lemma walk_leaf:
  assumes ok: "pt_ok (ld m) root H F" and ps: "valid_path H (ps @ [i])" "length ps = 3" "walk (ld m) root ps = Some t"
    and js: "valid_path H js" "length js \<le> 4"
  shows "walk (ld (st m (entry_addr t i) e)) root js =
    (if js = ps @ [i] then (if e AND PagePresent = 0 then None else Some (e AND kAddrMask))
     else walk (ld m) root js)"
proof (cases "js = ps @ [i]")
  case True
  have "walk (ld (st m (entry_addr t i) e)) root ps = Some t"
    using walk_st [OF ok ps(1) _ ps(3), of ps e] ps valid_path_prefix [OF ps(1)] by simp
  then show ?thesis using True by (simp add: walk_append Let_def ld_st)
next
  case False
  then have "take (Suc (length ps)) js \<noteq> ps @ [i]" using js(2) ps(2) by auto
  then show ?thesis using walk_st [OF ok ps(1) _ ps(3) js, of e] ps(2) False by simp
qed

lemma pt_ok_leaf:
  assumes ok: "pt_ok (ld m) root H F" and ps: "valid_path H (ps @ [i])" "length ps = 3" "walk (ld m) root ps = Some t"
  shows "pt_ok (ld (st m (entry_addr t i) e)) root H F" (is "pt_ok ?rd root H F")
proof -
  have len: "length ps \<le> 3" using ps(2) by simp
  have ps': "valid_path H ps" "i < 512" using ps(1) by (auto intro: valid_path_prefix valid_path_last)
  note t = pt_okD [OF ok ps'(1) len ps(3)]
  have w: "walk ?rd root js = walk (ld m) root js" if "valid_path H js" "length js \<le> 3" for js
    using walk_leaf [OF ok ps that(1)] that(2) ps(2) by auto
  have 3: "?rd (entry_addr u k) AND push_bit 7 1 = 0"
    if "valid_path H (is @ [k])" "length is \<in> {1, 2}" "walk ?rd root is = Some u"
      "?rd (entry_addr u k) AND PagePresent \<noteq> 0" for "is" k u
  proof -
    have v: "valid_path H is" "length is \<le> 3" "k < 512"
      using that(1,2) by (auto intro: valid_path_prefix valid_path_last)
    have u: "walk (ld m) root is = Some u" using w [OF v(1,2)] that(3) by simp
    have "u \<noteq> t" using t(4) [OF v(1,2)] u that(2) ps(2) by auto
    then have "entry_addr t i \<noteq> entry_addr u k"
      using entry_addr_inj t(1) pt_okD(1) [OF ok v(1,2) u] v(3) ps'(2) by metis
    then have "?rd (entry_addr u k) = ld m (entry_addr u k)"
      by (intro ld_st_other entry_addr_split(3) t(1) pt_okD(1) [OF ok v(1,2) u] v(3) ps'(2))
    then show ?thesis using pt_ok_no_huge [OF ok that(1,2) u] that(4) by simp
  qed
  show ?thesis
  proof (rule pt_okI)
    fix "is" u assume v: "valid_path H is" "length is \<le> 3" "walk ?rd root is = Some u"
    then have u: "walk (ld m) root is = Some u" using w by simp
    show "u AND 0xfff = 0 \<and> u \<noteq> 0 \<and> u \<notin> F" using pt_okD(1-3) [OF ok v(1,2) u] by simp
    fix js assume "valid_path H js" "length js \<le> 3" "walk ?rd root js = Some u"
    then show "is = js" using pt_okD(4) [OF ok v(1,2) u] w by simp
  qed (rule 3)
qed

end

section \<open>Frames as table entries\<close>

lemma frame_addr_mask:
  assumes "a \<in> managed_frames s"
  shows "a AND kAddrMask = a" and "a AND 0xfff = 0" and "a \<noteq> 0"
proof -
  obtain p where p: "a = p * kPageSize" "p < kPmmBitmapPages" "a \<noteq> 0"
    using assms by (rule managed_frame_good)
  have "unat p < 2 ^ 20" using p(2) by (simp add: kPmmBitmapPages_def word_less_nat_alt)
  then have low: "take_bit 20 (unat p) = unat p" by (rule take_bit_nat_eq_self)
  have bits: "n < 20" if "bit p n" for n
  proof -
    have "bit (unat p) n" using that by (simp add: bit_unsigned_iff)
    then show ?thesis by (subst (asm) low [symmetric]) (simp add: bit_take_bit_iff)
  qed
  have mask: "kAddrMask = push_bit 12 (mask 40)" by (simp add: kAddrMask_def mask_numeral)
  have a: "a = push_bit 12 p" using p(1) by (simp add: push_bit_eq_mult kPageSize_def mult.commute)
  show "a AND kAddrMask = a"
    unfolding mask a
  proof (rule bit_word_eqI)
    fix n show "bit (push_bit 12 p AND push_bit 12 (mask 40)) n = bit (push_bit 12 p) n"
      using bits [of "n - 12"] by (auto simp: bit_simps)
  qed
  show "a AND 0xfff = 0" using page_addr(3) [OF p(2)] p(1) by (simp add: kPageSize_def)
qed (use assms in \<open>auto elim: managed_frame_good\<close>)

section \<open>The invariant of a set of tables\<close>

abbreviation rd :: "machine \<Rightarrow> u64 \<Rightarrow> u64" where "rd s \<equiv> load64 (m_mem s)"

definition pg_inv :: "machine \<Rightarrow> u64 \<Rightarrow> u16 set \<Rightarrow> bool" where
  "pg_inv s root H \<longleftrightarrow> pmm_inv (m_pmm s) \<and> pt_ok (rd s) root H (frames (m_pmm s))"

definition tables :: "machine \<Rightarrow> u64 \<Rightarrow> u16 set \<Rightarrow> u64 set" where
  "tables s root H = {t. \<exists>is. valid_path H is \<and> length is \<le> 3 \<and> walk (rd s) root is = Some t}"

definition claimed :: "machine \<Rightarrow> u64 \<Rightarrow> u16 set \<Rightarrow> u64 set" where
  "claimed s root H = frames (m_pmm s) \<union> tables s root H"

text \<open>What every operation below respects: the invariant is kept, frames move only between the free
  frames and the tables, and memory outside both is not touched.\<close>

definition pg_step :: "machine \<Rightarrow> machine \<Rightarrow> u64 \<Rightarrow> u16 set \<Rightarrow> bool" where
  "pg_step s s' root H \<longleftrightarrow> pg_inv s' root H \<and> claimed s' root H = claimed s root H
     \<and> frames (m_pmm s') \<subseteq> frames (m_pmm s) \<and> managed_frames (m_pmm s') = managed_frames (m_pmm s)
     \<and> m_root s' = m_root s \<and> m_cr3 s' = m_cr3 s
     \<and> (\<forall>u k. u AND 0xfff = 0 \<and> k < 512 \<and> u \<notin> claimed s root H \<longrightarrow>
          rd s' (entry_addr u k) = rd s (entry_addr u k))"

lemma pg_step_refl: "pg_inv s root H \<Longrightarrow> pg_step s s root H"
  by (simp add: pg_step_def)

lemma pg_step_trans: "pg_step s s' root H \<Longrightarrow> pg_step s' s'' root H \<Longrightarrow> pg_step s s'' root H"
  unfolding pg_step_def by (metis subset_trans)

text \<open>All translations below \<open>H\<close> agree.\<close>

definition same_maps :: "machine \<Rightarrow> machine \<Rightarrow> u64 \<Rightarrow> u16 set \<Rightarrow> bool" where
  "same_maps s s' root H \<longleftrightarrow>
     (\<forall>js. valid_path H js \<and> length js = 4 \<longrightarrow> walk (rd s') root js = walk (rd s) root js)"

definition good_flags :: "u64 \<Rightarrow> bool" where
  "good_flags fl \<longleftrightarrow> fl AND kAddrMask = 0 \<and> fl AND PagePresent \<noteq> 0 \<and> fl AND push_bit 7 1 = 0"

lemma good_flags_default: "good_flags kDefaultTableFlags"
  by (simp add: good_flags_def kDefaultTableFlags_def PagePresent_def PageWrite_def kAddrMask_def)

lemma good_flags_table: "good_flags (table_flags flags)"
proof -
  have three: "(3 :: u64) = 1 OR 2" by simp
  have "table_flags flags AND x = (3 AND x) OR (flags AND (4 AND x))" for x
    unfolding three by (simp only: table_flags_def PagePresent_def PageWrite_def PageUser_def
        bit.conj_disj_distrib2 and.assoc or.assoc)
  then show ?thesis by (simp add: good_flags_def PagePresent_def kAddrMask_def or_eq_0_iff)
qed

lemma allocate_page_machine:
  assumes "pmm_inv (m_pmm s)"
  obtains (none) s' where "m_allocate_page s = (0, s')" and "m_mem s' = m_mem s" and "pmm_inv (m_pmm s')"
      and "frames (m_pmm s) = {}" and "frames (m_pmm s') = {}"
      and "managed_frames (m_pmm s') = managed_frames (m_pmm s)" and "m_root s' = m_root s" and "m_cr3 s' = m_cr3 s"
  | (some) p s' where "m_allocate_page s = (p, s')" and "m_mem s' = m_mem s" and "pmm_inv (m_pmm s')"
      and "p \<in> frames (m_pmm s)" and "p \<in> managed_frames (m_pmm s)" and "frames (m_pmm s') = frames (m_pmm s) - {p}"
      and "managed_frames (m_pmm s') = managed_frames (m_pmm s)" and "m_root s' = m_root s" and "m_cr3 s' = m_cr3 s"
proof (cases "frames (m_pmm s) = {}")
  case True
  then show ?thesis
    using pmm.alloc_none [OF assms] pmm.inv_alloc [OF assms] pmm.managed_alloc [of "m_pmm s"] none
    by (simp add: m_allocate_page_def case_prod_beta)
next
  case False
  then show ?thesis
    using pmm.alloc_some [OF assms] pmm.inv_alloc [OF assms] pmm.managed_alloc [of "m_pmm s"]
      pmm.avail_managed [OF assms] some
    by (fastforce simp: m_allocate_page_def case_prod_beta)
qed

lemma tablesI: "valid_path H is \<Longrightarrow> length is \<le> 3 \<Longrightarrow> walk (rd s) root is = Some t \<Longrightarrow> t \<in> tables s root H"
  by (auto simp: tables_def)

text \<open>A free frame \<open>p\<close> becomes a new, empty table.\<close>

lemma link_step:
  assumes inv: "pg_inv s root H" and ps: "valid_path H (ps @ [i])" "length ps \<le> 2" "walk (rd s) root ps = Some t"
    and tf: "good_flags tf" and absent: "rd s (entry_addr t i) AND PagePresent = 0"
    and p: "p \<in> frames (m_pmm s)" "p \<in> managed_frames (m_pmm s)"
    and mem: "m_mem s' = store64 (memset (m_mem s) p 0 kPageSize) (entry_addr t i) (p OR tf)"
    and pmm: "pmm_inv (m_pmm s')" "frames (m_pmm s') = frames (m_pmm s) - {p}"
      "managed_frames (m_pmm s') = managed_frames (m_pmm s)"
    and regs: "m_root s' = m_root s" "m_cr3 s' = m_cr3 s"
  shows "pg_step s s' root H" and "same_maps s s' root H" and "walk (rd s') root (ps @ [i]) = Some p"
proof -
  have ok: "pt_ok (rd s) root H (frames (m_pmm s))" using inv by (simp add: pg_inv_def)
  have ps': "valid_path H ps" "i < 512" "length ps \<le> 3"
    using ps(1,2) by (auto intro: valid_path_prefix valid_path_last)
  note t = pt_okD [OF ok ps'(1,3) ps(3)]
  note q = frame_addr_mask [OF p(2)]
  have tf': "tf AND kAddrMask = 0" "tf AND PagePresent \<noteq> 0" "tf AND push_bit 7 1 = 0"
    using tf by (simp_all add: good_flags_def)
  have w: "walk (rd s') root js = (if js = ps @ [i] then Some p else walk (rd s) root js)"
    if "valid_path H js" "length js \<le> 4" for js
    unfolding mem by (rule bytes.walk_link [OF ok ps(1) ps'(3) ps(3) p(1) q(1,2) tf'(1,2) absent that])
  then show "walk (rd s') root (ps @ [i]) = Some p" using ps by simp
  show "same_maps s s' root H" using w ps(2) by (auto simp: same_maps_def)
  have "pt_ok (rd s') root H (frames (m_pmm s'))"
    unfolding mem pmm(2) by (rule bytes.pt_ok_link [OF ok ps p(1) q tf' absent])
  moreover have "tables s' root H = insert p (tables s root H)"
  proof -
    have none: "walk (rd s) root (ps @ [i]) = None" using ps(3) absent by (simp add: walk_append Let_def)
    have "u = p \<or> u \<in> tables s root H" if "u \<in> tables s' root H" for u
      using that w unfolding tables_def by (fastforce split: if_splits)
    moreover have "p \<in> tables s' root H" using w [OF ps(1)] ps by (intro tablesI [OF ps(1)]) auto
    moreover have "u \<in> tables s' root H" if u: "u \<in> tables s root H" for u
    proof -
      obtain "is" where "valid_path H is" "length is \<le> 3" "walk (rd s) root is = Some u"
        using u by (auto simp: tables_def)
      then show ?thesis using w [of "is"] none by (intro tablesI [of H "is"]) auto
    qed
    ultimately show ?thesis by blast
  qed
  then have "claimed s' root H = claimed s root H" using p(1) pmm(2) by (auto simp: claimed_def)
  moreover have "rd s' (entry_addr u k) = rd s (entry_addr u k)"
    if u: "u AND 0xfff = 0" "k < 512" "u \<notin> claimed s root H" for u k
  proof -
    have "u \<noteq> p" "u \<noteq> t" using u(3) p(1) tablesI [OF ps'(1,3) ps(3)] by (auto simp: claimed_def)
    then show ?thesis
      using bytes.ld_new_table [OF t(1) q(2) u(1) ps'(2) u(2)] unfolding mem by simp
  qed
  ultimately show "pg_step s s' root H"
    using pmm regs by (simp add: pg_step_def pg_inv_def)
qed

lemma ensure_table_spec:
  assumes inv: "pg_inv s root H" and ps: "valid_path H (ps @ [i])" "length ps \<le> 2" "walk (rd s) root ps = Some t"
    and tf: "good_flags tf" and e: "ensure_table s t i tf = (t', s')"
  shows "pg_step s s' root H" and "same_maps s s' root H"
    and "t' \<noteq> 0 \<Longrightarrow> walk (rd s') root (ps @ [i]) = Some t'"
    and "t' = 0 \<Longrightarrow> frames (m_pmm s') = {}"
proof -
  have ok: "pt_ok (rd s) root H (frames (m_pmm s))" and pmm: "pmm_inv (m_pmm s)"
    using inv by (simp_all add: pg_inv_def)
  have ps': "valid_path H ps" "i < 512" "length ps \<le> 3"
    using ps(1,2) by (auto intro: valid_path_prefix valid_path_last)
  note t = pt_okD [OF ok ps'(1,3) ps(3)]
  let ?P = "pg_step s s' root H \<and> same_maps s s' root H
    \<and> (t' \<noteq> 0 \<longrightarrow> walk (rd s') root (ps @ [i]) = Some t') \<and> (t' = 0 \<longrightarrow> frames (m_pmm s') = {})"
  have ?P
  proof (cases "rd s (entry_addr t i) AND PagePresent = 0")
    case False
    then have s': "s' = s" and t': "t' = rd s (entry_addr t i) AND kAddrMask"
      using e by (auto simp: ensure_table_def table_from_phys_def Let_def)
    have w: "walk (rd s) root (ps @ [i]) = Some t'"
      using ps(3) False t' by (simp add: walk_append Let_def)
    have "length (ps @ [i]) \<le> 3" using ps(2) by simp
    then have "t' \<noteq> 0" using pt_okD(2) [OF ok ps(1) _ w] by simp
    then show ?thesis using w s' inv by (simp add: pg_step_refl same_maps_def)
  next
    case absent: True
    show ?thesis using pmm
    proof (cases rule: allocate_page_machine)
      case (none s1)
      then have "s' = s1" "t' = 0" using e absent by (auto simp: ensure_table_def Let_def)
      then show ?thesis
        using none ok pmm by (simp add: pg_step_def pg_inv_def same_maps_def claimed_def tables_def)
    next
      case (some p s1)
      note p = frame_addr_mask [OF some(5)]
      define s2 where "s2 = s1\<lparr>m_mem := store64 (memset (m_mem s) p 0 kPageSize) (entry_addr t i) (p OR tf)\<rparr>"
      have "s' = s2" "t' = (p OR tf) AND kAddrMask"
        using e absent some(1,2) p(3) by (auto simp: ensure_table_def Let_def s2_def mem_simps table_from_phys_def)
      moreover have "(p OR tf) AND kAddrMask = p"
        using p(1) tf by (simp add: bit.conj_disj_distrib2 good_flags_def)
      ultimately show ?thesis
        using link_step [OF inv ps tf absent some(4,5), of s2] some p(3) by (simp add: s2_def)
    qed
  qed
  then show "pg_step s s' root H" and "same_maps s s' root H"
    and "t' \<noteq> 0 \<Longrightarrow> walk (rd s') root (ps @ [i]) = Some t'"
    and "t' = 0 \<Longrightarrow> frames (m_pmm s') = {}" by auto
qed

section \<open>Mapping a page\<close>

definition vpath :: "u64 \<Rightarrow> u16 list" where
  "vpath v = [pml4_index v, pdpt_index v, pd_index v, pt_index v]"

lemma length_vpath [simp]: "length (vpath v) = 4"
  by (simp add: vpath_def)

text \<open>The successive \<open>ensure_table\<close> calls of the two \<open>map_page\<close> functions.\<close>

fun ensure_path :: "machine \<Rightarrow> u64 \<Rightarrow> u16 list \<Rightarrow> u64 \<Rightarrow> u64 \<times> machine" where
  "ensure_path s t [] tf = (t, s)"
| "ensure_path s t (i # is) tf =
     (let (t', s') = ensure_table s t i tf in if t' = 0 then (0, s') else ensure_path s' t' is tf)"

lemma same_maps_refl: "same_maps s s root H"
  by (simp add: same_maps_def)

lemma same_maps_trans: "same_maps s s' root H \<Longrightarrow> same_maps s' s'' root H \<Longrightarrow> same_maps s s'' root H"
  by (simp add: same_maps_def)

lemma ensure_path_spec:
  assumes "pg_inv s root H" and "valid_path H (ps @ is)" and "length (ps @ is) \<le> 3"
    and "walk (rd s) root ps = Some t" and "good_flags tf" and "ensure_path s t is tf = (t', s')"
  shows "pg_step s s' root H \<and> same_maps s s' root H
    \<and> (t' \<noteq> 0 \<longrightarrow> walk (rd s') root (ps @ is) = Some t') \<and> (t' = 0 \<longrightarrow> frames (m_pmm s') = {})"
  using assms
proof (induction "is" arbitrary: s t ps)
  case Nil
  then have "t \<noteq> 0" using pt_okD(2) [of "rd s" root H "frames (m_pmm s)" ps t] by (simp add: pg_inv_def)
  then show ?case using Nil by (simp add: pg_step_refl same_maps_refl)
next
  case (Cons i "is")
  obtain t1 s1 where e: "ensure_table s t i tf = (t1, s1)" by (cases "ensure_table s t i tf")
  have ps: "valid_path H (ps @ [i])" "length ps \<le> 2"
    using Cons.prems(2,3) valid_path_prefix [of H "ps @ [i]" "is"] by simp_all
  note spec = ensure_table_spec [OF Cons.prems(1) ps Cons.prems(4,5) e]
  show ?case
  proof (cases "t1 = 0")
    case True
    then show ?thesis using Cons.prems(6) e spec by simp
  next
    case False
    then have "ensure_path s1 t1 is tf = (t', s')" using Cons.prems(6) e by simp
    then have "pg_step s1 s' root H \<and> same_maps s1 s' root H
      \<and> (t' \<noteq> 0 \<longrightarrow> walk (rd s') root ((ps @ [i]) @ is) = Some t') \<and> (t' = 0 \<longrightarrow> frames (m_pmm s') = {})"
      using Cons.prems(2,3,5) spec(1) spec(3) [OF False] by (intro Cons.IH) (auto simp: pg_step_def)
    then show ?thesis using spec(1,2) by (auto intro: pg_step_trans same_maps_trans)
  qed
qed

lemma leaf_step:
  assumes inv: "pg_inv s root H" and ps: "valid_path H (ps @ [i])" "length ps = 3" "walk (rd s) root ps = Some t"
    and s': "s' = s\<lparr>m_mem := store64 (m_mem s) (entry_addr t i) e\<rparr>"
  shows "pg_step s s' root H"
    and "valid_path H js \<Longrightarrow> length js = 4 \<Longrightarrow> walk (rd s') root js =
      (if js = ps @ [i] then (if e AND PagePresent = 0 then None else Some (e AND kAddrMask))
       else walk (rd s) root js)"
proof -
  have ok: "pt_ok (rd s) root H (frames (m_pmm s))" using inv by (simp add: pg_inv_def)
  note w = bytes.walk_leaf [OF ok ps, of _ e]
  show "valid_path H js \<Longrightarrow> length js = 4 \<Longrightarrow> walk (rd s') root js =
      (if js = ps @ [i] then (if e AND PagePresent = 0 then None else Some (e AND kAddrMask))
       else walk (rd s) root js)" using w s' by simp
  have len: "length ps \<le> 3" and ps': "valid_path H ps" "i < 512"
    using ps by (auto intro: valid_path_prefix valid_path_last)
  note t = pt_okD [OF ok ps'(1) len ps(3)]
  have "walk (rd s') root js = walk (rd s) root js" if "valid_path H js" "length js \<le> 3" for js
    using w [OF that(1)] that(2) s' ps(2) by auto
  then have "tables s' root H = tables s root H" unfolding tables_def by metis
  moreover have "rd s' (entry_addr u k) = rd s (entry_addr u k)"
    if u: "u AND 0xfff = 0" "k < 512" "u \<notin> claimed s root H" for u k
  proof -
    have "u \<noteq> t" using u(3) tablesI [OF ps'(1) len ps(3)] by (auto simp: claimed_def)
    then have "entry_addr t i \<noteq> entry_addr u k" using entry_addr_inj t(1) u(1,2) ps'(2) by metis
    then show ?thesis unfolding s' by (simp add: load64_store64_other entry_addr_split(3) t(1) u ps'(2))
  qed
  ultimately show "pg_step s s' root H"
    using bytes.pt_ok_leaf [OF ok ps, of e] inv s' by (simp add: pg_step_def pg_inv_def claimed_def)
qed

text \<open>The outcome of a mapping operation on \<open>virt\<close>.\<close>

definition mapped_to :: "machine \<Rightarrow> machine \<Rightarrow> u64 \<Rightarrow> u16 set \<Rightarrow> u64 \<Rightarrow> u64 option \<Rightarrow> bool" where
  "mapped_to s s' root H virt a \<longleftrightarrow>
     (\<forall>js. valid_path H js \<and> length js = 4 \<longrightarrow>
        walk (rd s') root js = (if js = vpath virt then a else walk (rd s) root js))"

lemma map_core:
  assumes inv: "pg_inv s root H" and v: "valid_path H (vpath virt)" and tf: "good_flags tf"
    and e: "ensure_path s root [pml4_index virt, pdpt_index virt, pd_index virt] tf = (pt, s1)" and pt: "pt \<noteq> 0"
  shows "walk (rd s) root (vpath virt) = None \<longleftrightarrow> rd s1 (entry_addr pt (pt_index virt)) AND PagePresent = 0"
    and "sm = s1\<lparr>m_mem := store64 (m_mem s1) (entry_addr pt (pt_index virt)) en\<rparr> \<Longrightarrow> en AND PagePresent \<noteq> 0 \<Longrightarrow>
      pg_step s sm root H \<and> mapped_to s sm root H virt (Some (en AND kAddrMask))"
proof -
  let ?ps = "[pml4_index virt, pdpt_index virt, pd_index virt]"
  have path: "vpath virt = ?ps @ [pt_index virt]" by (simp add: vpath_def)
  have v3: "valid_path H ([] @ ?ps)" using v valid_path_prefix [of H ?ps "[pt_index virt]"] path by simp
  have spec: "pg_step s s1 root H" "same_maps s s1 root H" "walk (rd s1) root ?ps = Some pt"
    using ensure_path_spec [OF inv v3 _ _ tf e] pt by simp_all
  have "walk (rd s1) root (vpath virt) = walk (rd s) root (vpath virt)"
    using spec(2) v unfolding same_maps_def by (metis length_vpath)
  then show "walk (rd s) root (vpath virt) = None \<longleftrightarrow> rd s1 (entry_addr pt (pt_index virt)) AND PagePresent = 0"
    using spec(3) by (simp only: path walk_append) (auto simp: Let_def split: if_splits)
  assume sm: "sm = s1\<lparr>m_mem := store64 (m_mem s1) (entry_addr pt (pt_index virt)) en\<rparr>" and en: "en AND PagePresent \<noteq> 0"
  have inv1: "pg_inv s1 root H" using spec(1) by (simp add: pg_step_def)
  have v4: "valid_path H (?ps @ [pt_index virt])" using v path by simp
  note leaf = leaf_step [OF inv1 v4 _ spec(3) sm]
  have "mapped_to s sm root H virt (Some (en AND kAddrMask))"
    unfolding mapped_to_def path using leaf(2) spec(2) en by (simp add: same_maps_def)
  then show "pg_step s sm root H \<and> mapped_to s sm root H virt (Some (en AND kAddrMask))"
    using leaf(1) spec(1) by (simp add: pg_step_trans [of s s1])
qed

section \<open>The virtual memory manager and address spaces on walks\<close>

lemma with_diag_fields [simp]:
  "m_mem (with_diag f s) = m_mem s" "m_pmm (with_diag f s) = m_pmm s" "m_root (with_diag f s) = m_root s"
  "m_cr3 (with_diag f s) = m_cr3 s"
  by (simp_all add: with_diag_def)

lemma remote_fields [simp]:
  "m_mem (finish_remote s v) = m_mem s" "m_pmm (finish_remote s v) = m_pmm s"
  "m_root (finish_remote s v) = m_root s" "m_cr3 (finish_remote s v) = m_cr3 s"
  "m_mem (invalidate_local_page s v) = m_mem s" "m_pmm (invalidate_local_page s v) = m_pmm s"
  "m_root (invalidate_local_page s v) = m_root s" "m_cr3 (invalidate_local_page s v) = m_cr3 s"
  by (simp_all add: finish_remote_def invalidate_local_page_def)

text \<open>Only memory, the frames and the registers matter for translation.\<close>

definition same_machine :: "machine \<Rightarrow> machine \<Rightarrow> bool" where
  "same_machine s s' \<longleftrightarrow> m_mem s' = m_mem s \<and> m_pmm s' = m_pmm s \<and> m_root s' = m_root s \<and> m_cr3 s' = m_cr3 s"

lemma pg_step_same: "same_machine s' s'' \<Longrightarrow> pg_step s s'' root H = pg_step s s' root H"
  by (simp add: same_machine_def pg_step_def pg_inv_def claimed_def tables_def)

lemma pg_inv_same: "same_machine s s' \<Longrightarrow> pg_inv s' root H = pg_inv s root H"
  by (simp add: same_machine_def pg_inv_def)

lemma as_translate_walk:
  assumes "space \<noteq> 0" and "space AND kAddrMask = space"
  shows "as_translate s space v =
    (case walk (rd s) space (vpath v) of None \<Rightarrow> 0 | Some a \<Rightarrow> a + (v AND 0xfff))"
  using assms by (simp add: as_translate_def pte_of_def vpath_def table_from_phys_def Let_def)

lemma vmm_translate_walk:
  assumes inv: "pg_inv s (m_root s) H" and "m_root s AND kAddrMask = m_root s" and v: "valid_path H (vpath v)"
  shows "vmm_translate s v =
    (case walk (rd s) (m_root s) (vpath v) of None \<Rightarrow> 0 | Some a \<Rightarrow> a + (v AND 0xfff))"
proof -
  have ok: "pt_ok (rd s) (m_root s) H (frames (m_pmm s))" using inv by (simp add: pg_inv_def)
  define e1 where "e1 = rd s (entry_addr (m_root s) (pml4_index v))"
  define e2 where "e2 = rd s (entry_addr (e1 AND kAddrMask) (pdpt_index v))"
  define e3 where "e3 = rd s (entry_addr (e2 AND kAddrMask) (pd_index v))"
  have p2: "valid_path H ([pml4_index v] @ [pdpt_index v])" and p3: "valid_path H ([pml4_index v, pdpt_index v] @ [pd_index v])"
    using v by (auto simp: valid_path_def vpath_def)
  have h2: "e2 AND push_bit 7 1 = 0" if "e1 AND PagePresent \<noteq> 0" "e2 AND PagePresent \<noteq> 0"
    using pt_ok_no_huge [OF ok p2] that by (simp add: e1_def e2_def Let_def)
  have h3: "e3 AND push_bit 7 1 = 0" if "e1 AND PagePresent \<noteq> 0" "e2 AND PagePresent \<noteq> 0" "e3 AND PagePresent \<noteq> 0"
    using pt_ok_no_huge [OF ok p3] that by (simp add: e1_def e2_def e3_def Let_def)
  show ?thesis
    using h2 h3 assms(2)
    by (simp add: vmm_translate_def vpath_def table_from_phys_def Let_def e1_def [symmetric] e2_def [symmetric] e3_def [symmetric]
        del: push_bit_eq_mult)
qed

definition leaf_entry :: "u64 \<Rightarrow> u64 \<Rightarrow> u64" where
  "leaf_entry phys flags = (phys AND kAddrMask) OR (flags AND NOT kAddrMask) OR PagePresent"

lemma leaf_entry_props:
  "leaf_entry phys flags AND PagePresent \<noteq> 0" "leaf_entry phys flags AND kAddrMask = phys AND kAddrMask"
  by (simp_all add: leaf_entry_def bit.conj_disj_distrib2 or_eq_0_iff PagePresent_def and.assoc)
    (simp add: kAddrMask_def)

lemma as_map_page_path:
  assumes "space \<noteq> 0" and "virt AND (kPageSize - 1) = 0" and "phys AND (kPageSize - 1) = 0"
    and "ensure_path s (table_from_phys space) [pml4_index virt, pdpt_index virt, pd_index virt] (table_flags flags) = (pt, s1)"
  shows "pt = 0 \<Longrightarrow> \<not> mr_ok (fst (as_map_page s space virt phys flags)) \<and> snd (as_map_page s space virt phys flags) = s1"
    and "pt \<noteq> 0 \<Longrightarrow> as_map_page s space virt phys flags =
      (if rd s1 (entry_addr pt (pt_index virt)) AND PagePresent \<noteq> 0
       then (map_fail ''address-space virtual page is already mapped'', s1)
       else (map_ok, s1\<lparr>m_mem := store64 (m_mem s1) (entry_addr pt (pt_index virt)) (leaf_entry phys flags)\<rparr>))"
  using assms
  by (auto simp: as_map_page_def Let_def leaf_entry_def map_fail_def split: prod.splits if_splits)

lemma vmm_map_page_path:
  assumes "virt AND (kPageSize - 1) = 0" and "phys AND (kPageSize - 1) = 0"
    and "ensure_path (with_diag (\<lambda>d. d\<lparr>map_page_calls := map_page_calls d + 1\<rparr>) s) (table_from_phys (m_root s))
      [pml4_index virt, pdpt_index virt, pd_index virt] kDefaultTableFlags = (pt, s1)"
  shows "pt = 0 \<Longrightarrow> \<not> mr_ok (fst (vmm_map_page s virt phys flags)) \<and> same_machine s1 (snd (vmm_map_page s virt phys flags))"
    and "pt \<noteq> 0 \<Longrightarrow> rd s1 (entry_addr pt (pt_index virt)) AND PagePresent \<noteq> 0 \<Longrightarrow>
      \<not> mr_ok (fst (vmm_map_page s virt phys flags)) \<and> same_machine s1 (snd (vmm_map_page s virt phys flags))"
    and "pt \<noteq> 0 \<Longrightarrow> rd s1 (entry_addr pt (pt_index virt)) AND PagePresent = 0 \<Longrightarrow>
      mr_ok (fst (vmm_map_page s virt phys flags))
      \<and> same_machine (s1\<lparr>m_mem := store64 (m_mem s1) (entry_addr pt (pt_index virt)) (leaf_entry phys flags)\<rparr>)
          (snd (vmm_map_page s virt phys flags))"
  using assms
  by (auto simp: vmm_map_page_def vmm_fail_def Let_def leaf_entry_def map_fail_def map_ok_def same_machine_def
      split: prod.splits if_splits)

definition map_outcome :: "machine \<Rightarrow> machine \<Rightarrow> bool \<Rightarrow> u64 \<Rightarrow> u16 set \<Rightarrow> u64 \<Rightarrow> u64 \<Rightarrow> bool" where
  "map_outcome s s' ok root H virt phys \<longleftrightarrow> pg_step s s' root H
     \<and> (if ok then walk (rd s) root (vpath virt) = None \<and> mapped_to s s' root H virt (Some (phys AND kAddrMask))
        else same_maps s s' root H \<and>
          (virt AND (kPageSize - 1) \<noteq> 0 \<or> phys AND (kPageSize - 1) \<noteq> 0 \<or> frames (m_pmm s') = {}
           \<or> walk (rd s) root (vpath virt) \<noteq> None))"

lemma map_outcome_same:
  "same_machine s' s'' \<Longrightarrow> map_outcome s s' ok root H virt phys \<Longrightarrow> map_outcome s s'' ok root H virt phys"
  using pg_step_same [of s' s'' s root H]
  by (auto simp: map_outcome_def same_machine_def same_maps_def mapped_to_def)

lemma ensure_outcome:
  assumes inv: "pg_inv s root H" and v: "valid_path H (vpath virt)" and tf: "good_flags tf"
    and e: "ensure_path s root [pml4_index virt, pdpt_index virt, pd_index virt] tf = (pt, s1)"
  shows "pt = 0 \<Longrightarrow> map_outcome s s1 False root H virt phys"
    and "pt \<noteq> 0 \<Longrightarrow> rd s1 (entry_addr pt (pt_index virt)) AND PagePresent \<noteq> 0 \<Longrightarrow>
      map_outcome s s1 False root H virt phys"
    and "pt \<noteq> 0 \<Longrightarrow> rd s1 (entry_addr pt (pt_index virt)) AND PagePresent = 0 \<Longrightarrow>
      map_outcome s (s1\<lparr>m_mem := store64 (m_mem s1) (entry_addr pt (pt_index virt)) (leaf_entry phys flags)\<rparr>)
        True root H virt phys"
proof -
  let ?ps = "[pml4_index virt, pdpt_index virt, pd_index virt]"
  have "valid_path H ([] @ ?ps)"
    using v valid_path_prefix [of H ?ps "[pt_index virt]"] by (simp add: vpath_def)
  note spec = ensure_path_spec [OF inv this _ _ tf e]
  show "pt = 0 \<Longrightarrow> map_outcome s s1 False root H virt phys"
    using spec by (simp add: map_outcome_def)
  show "pt \<noteq> 0 \<Longrightarrow> rd s1 (entry_addr pt (pt_index virt)) AND PagePresent \<noteq> 0 \<Longrightarrow>
      map_outcome s s1 False root H virt phys"
    using spec map_core(1) [OF inv v tf e] by (simp add: map_outcome_def)
  show "pt \<noteq> 0 \<Longrightarrow> rd s1 (entry_addr pt (pt_index virt)) AND PagePresent = 0 \<Longrightarrow>
      map_outcome s (s1\<lparr>m_mem := store64 (m_mem s1) (entry_addr pt (pt_index virt)) (leaf_entry phys flags)\<rparr>)
        True root H virt phys"
    using map_core(1) [OF inv v tf e] map_core(2) [OF inv v tf e, where sm = "s1\<lparr>m_mem := store64 (m_mem s1) (entry_addr pt (pt_index virt)) (leaf_entry phys flags)\<rparr>" and en = "leaf_entry phys flags"]
      leaf_entry_props by (simp add: map_outcome_def)
qed

lemma as_map_page_outcome:
  assumes inv: "pg_inv s space H" and sp: "space \<noteq> 0" "space AND kAddrMask = space" and v: "valid_path H (vpath virt)"
    and e: "as_map_page s space virt phys flags = (r, s')"
  shows "map_outcome s s' (mr_ok r) space H virt phys"
proof (cases "virt AND (kPageSize - 1) = 0 \<and> phys AND (kPageSize - 1) = 0")
  case False
  then have "s' = s" "\<not> mr_ok r" using e sp by (auto simp: as_map_page_def map_fail_def)
  then show ?thesis using False inv by (auto simp: map_outcome_def pg_step_refl same_maps_refl)
next
  case al: True
  obtain pt s1 where p: "ensure_path s space [pml4_index virt, pdpt_index virt, pd_index virt] (table_flags flags) = (pt, s1)"
    by (cases "ensure_path s space [pml4_index virt, pdpt_index virt, pd_index virt] (table_flags flags)")
  have p': "ensure_path s (table_from_phys space) [pml4_index virt, pdpt_index virt, pd_index virt] (table_flags flags) = (pt, s1)"
    using p sp by (simp add: table_from_phys_def)
  note path = as_map_page_path [OF sp(1) conjunct1 [OF al] conjunct2 [OF al] p']
  note out = ensure_outcome [OF inv v good_flags_table p]
  show ?thesis
    using path out e by (cases "pt = 0") (auto simp: map_ok_def map_fail_def split: if_splits)
qed

lemma vmm_map_page_outcome:
  assumes inv: "pg_inv s (m_root s) H" and root: "m_root s AND kAddrMask = m_root s" and v: "valid_path H (vpath virt)"
    and e: "vmm_map_page s virt phys flags = (r, s')"
  shows "map_outcome s s' (mr_ok r) (m_root s) H virt phys"
proof -
  define s0 where "s0 = with_diag (\<lambda>d. d\<lparr>map_page_calls := map_page_calls d + 1\<rparr>) s"
  have s0: "same_machine s s0" by (simp add: s0_def same_machine_def)
  have start: "map_outcome s t ok (m_root s) H virt phys" if "map_outcome s0 t ok (m_root s) H virt phys" for t ok
    using that s0 by (cases ok) (simp_all add: map_outcome_def pg_step_def claimed_def tables_def mapped_to_def same_maps_def same_machine_def)
  have inv0: "pg_inv s0 (m_root s) H" using inv s0 by (simp add: pg_inv_same)
  show ?thesis
  proof (cases "virt AND (kPageSize - 1) = 0 \<and> phys AND (kPageSize - 1) = 0")
    case False
    then have c: "(virt AND (kPageSize - 1) \<noteq> 0 \<or> phys AND (kPageSize - 1) \<noteq> 0) = True" by simp
    have "same_machine s s'" "\<not> mr_ok r"
      using e unfolding vmm_map_page_def c if_True
      by (auto simp: vmm_fail_def map_fail_def same_machine_def Let_def)
    moreover have "map_outcome s s False (m_root s) H virt phys"
      using False pg_step_refl [OF inv] by (auto simp: map_outcome_def same_maps_refl)
    ultimately show ?thesis using map_outcome_same by simp
  next
    case al: True
    obtain pt s1 where p: "ensure_path s0 (m_root s) [pml4_index virt, pdpt_index virt, pd_index virt] kDefaultTableFlags = (pt, s1)"
      by (cases "ensure_path s0 (m_root s) [pml4_index virt, pdpt_index virt, pd_index virt] kDefaultTableFlags")
    note path = vmm_map_page_path [OF conjunct1 [OF al] conjunct2 [OF al], of s pt s1 flags, folded s0_def,
        unfolded table_from_phys_def root, OF p]
    note out = ensure_outcome(1,2) [OF inv0 v good_flags_default p, of phys, THEN start]
      ensure_outcome(3) [OF inv0 v good_flags_default p, of phys flags, THEN start]
    show ?thesis
    proof (cases "pt = 0 \<or> rd s1 (entry_addr pt (pt_index virt)) AND PagePresent \<noteq> 0")
      case True
      then have "same_machine s1 s'" "\<not> mr_ok r" using path(1,2) e by auto
      moreover have "map_outcome s s1 False (m_root s) H virt phys" using True out(1,2) by blast
      ultimately show ?thesis using map_outcome_same by simp
    next
      case False
      then have "mr_ok r" and same: "same_machine (s1\<lparr>m_mem := store64 (m_mem s1) (entry_addr pt (pt_index virt))
          (leaf_entry phys flags)\<rparr>) s'"
        using path(3) e by auto
      then show ?thesis using map_outcome_same [OF same] out(3) False by simp
    qed
  qed
qed

section \<open>Unmapping a page\<close>

lemma unmap_page_outcome:
  assumes inv: "pg_inv s (m_root s) H" and root: "m_root s AND kAddrMask = m_root s" and v: "valid_path H (vpath virt)"
    and e: "unmap_page s virt = (r, s')"
  shows "pg_step s s' (m_root s) H"
    and "mr_ok r \<longleftrightarrow> walk (rd s) (m_root s) (vpath virt) \<noteq> None"
    and "mapped_to s s' (m_root s) H virt None"
proof -
  let ?ps = "[pml4_index virt, pdpt_index virt, pd_index virt]"
  have path: "vpath virt = ?ps @ [pt_index virt]" by (simp add: vpath_def)
  let ?P = "pg_step s s' (m_root s) H \<and> (mr_ok r \<longleftrightarrow> walk (rd s) (m_root s) (vpath virt) \<noteq> None)
    \<and> mapped_to s s' (m_root s) H virt None"
  have ?P
  proof (cases "walk (rd s) (m_root s) (vpath virt)")
    case None
    then have "same_machine s s'" "\<not> mr_ok r"
      using e root
      by (auto simp: unmap_page_def absent_def map_fail_def same_machine_def vpath_def table_from_phys_def Let_def
          split: if_splits)
    then show ?thesis
      using None pg_step_refl [OF inv] pg_step_same [of s s' s] by (auto simp: mapped_to_def same_machine_def)
  next
    case (Some a)
    then obtain pt where pt: "walk (rd s) (m_root s) ?ps = Some pt"
      unfolding path walk_append by (cases "walk (rd s) (m_root s) ?ps") auto
    define sm where "sm = s\<lparr>m_mem := store64 (m_mem s) (entry_addr pt (pt_index virt)) 0\<rparr>"
    have "same_machine sm s'" "mr_ok r"
      using e root Some pt
      by (auto simp: unmap_page_def absent_def map_ok_def same_machine_def vpath_def table_from_phys_def Let_def sm_def
          split: if_splits)
    moreover have "pg_step s sm (m_root s) H" "mapped_to s sm (m_root s) H virt None"
      using leaf_step [OF inv v [unfolded path] _ pt sm_def] by (simp_all add: mapped_to_def path)
    ultimately show ?thesis
      using Some pg_step_same [of sm s' s] by (auto simp: mapped_to_def same_machine_def)
  qed
  then show "pg_step s s' (m_root s) H"
    and "mr_ok r \<longleftrightarrow> walk (rd s) (m_root s) (vpath virt) \<noteq> None"
    and "mapped_to s s' (m_root s) H virt None" by auto
qed

section \<open>Several address spaces\<close>

lemma tablesD:
  assumes "pg_inv s root H" and "t \<in> tables s root H"
  shows "t AND 0xfff = 0" and "t \<noteq> 0" and "t \<notin> frames (m_pmm s)"
proof -
  obtain "is" where p: "valid_path H is" "length is \<le> 3" "walk (rd s) root is = Some t"
    using assms(2) by (auto simp: tables_def)
  have "pt_ok (rd s) root H (frames (m_pmm s))" using assms(1) by (simp add: pg_inv_def)
  note pt_okD [OF this p]
  then show "t AND 0xfff = 0" and "t \<noteq> 0" and "t \<notin> frames (m_pmm s)" by blast+
qed

text \<open>Memory that no table of \<open>root\<close> occupies may change freely.\<close>

lemma pg_inv_frame:
  assumes inv: "pg_inv s root H" and pmm: "pmm_inv (m_pmm s')" "frames (m_pmm s') \<subseteq> frames (m_pmm s)"
    and mem: "\<And>u k. u \<in> tables s root H \<Longrightarrow> k < 512 \<Longrightarrow> rd s' (entry_addr u k) = rd s (entry_addr u k)"
  shows "valid_path H js \<Longrightarrow> length js \<le> 4 \<Longrightarrow> walk (rd s') root js = walk (rd s) root js"
    and "pg_inv s' root H" and "tables s' root H = tables s root H"
proof -
  have ok: "pt_ok (rd s) root H (frames (m_pmm s))" using inv by (simp add: pg_inv_def)
  have w: "walk (rd s') root js = walk (rd s) root js" if js: "valid_path H js" "length js \<le> 4" for js
  proof (rule walk_same)
    fix ks k ls t
    assume "js = ks @ k # ls" and t: "walk (rd s) root ks = Some t"
    then have "valid_path H ks" "length ks \<le> 3" "k < 512"
      using js by (auto intro: valid_path_prefix valid_path_last)
    then show "rd s' (entry_addr t k) = rd s (entry_addr t k)" using t by (intro mem tablesI)
  qed
  then show "valid_path H js \<Longrightarrow> length js \<le> 4 \<Longrightarrow> walk (rd s') root js = walk (rd s) root js" .
  have w3: "walk (rd s') root js = walk (rd s) root js" if "valid_path H js" "length js \<le> 3" for js
    using w that by simp
  then show "tables s' root H = tables s root H" unfolding tables_def by metis
  have "pt_ok (rd s') root H (frames (m_pmm s'))"
  proof (rule pt_okI)
    fix "is" t assume p: "valid_path H is" "length is \<le> 3" "walk (rd s') root is = Some t"
    note t = pt_okD [OF ok p(1,2) w3 [OF p(1,2), symmetric, THEN trans, OF p(3)]]
    show "t AND 0xfff = 0 \<and> t \<noteq> 0 \<and> t \<notin> frames (m_pmm s')" using t(1-3) pmm(2) by blast
    fix js assume "valid_path H js" "length js \<le> 3" "walk (rd s') root js = Some t"
    then show "is = js" using t(4) w3 by simp
  next
    fix "is" i t
    assume p: "valid_path H (is @ [i])" "length is \<in> {1, 2}" "walk (rd s') root is = Some t"
      and e: "rd s' (entry_addr t i) AND PagePresent \<noteq> 0"
    have v: "valid_path H is" "length is \<le> 3" "i < 512"
      using p by (auto intro: valid_path_prefix valid_path_last)
    then have t: "walk (rd s) root is = Some t" using p(3) w3 by simp
    then have "rd s' (entry_addr t i) = rd s (entry_addr t i)" using mem tablesI v by metis
    then show "rd s' (entry_addr t i) AND push_bit 7 1 = 0" using pt_ok_no_huge [OF ok p(1,2) t] e by simp
  qed
  then show "pg_inv s' root H" using pmm(1) by (simp add: pg_inv_def)
qed

lemma pg_step_other:
  assumes step: "pg_step s s' root H" and inv: "pg_inv s sp K" and dis: "tables s sp K \<inter> tables s root H = {}"
  shows "same_maps s s' sp K" and "pg_inv s' sp K" and "tables s' sp K = tables s sp K"
    and "tables s' sp K \<inter> tables s' root H = {}"
proof -
  have dis': "tables s sp K \<inter> claimed s root H = {}"
    using dis tablesD(3) [OF inv] by (auto simp: claimed_def)
  have pmm: "pmm_inv (m_pmm s')" "frames (m_pmm s') \<subseteq> frames (m_pmm s)"
    using step by (simp_all add: pg_step_def pg_inv_def)
  have "rd s' (entry_addr u k) = rd s (entry_addr u k)" if "u \<in> tables s sp K" "k < 512" for u k
    using step that dis' tablesD(1) [OF inv that(1)] unfolding pg_step_def by blast
  note f = pg_inv_frame [OF inv pmm this]
  show "same_maps s s' sp K" using f(1) by (simp add: same_maps_def)
  show "pg_inv s' sp K" "tables s' sp K = tables s sp K" using f(2,3) by auto
  have "tables s' root H \<subseteq> claimed s root H" using step by (auto simp: pg_step_def claimed_def)
  then show "tables s' sp K \<inter> tables s' root H = {}" using f(3) dis' by auto
qed

text \<open>The user half of an address space whose tables are all frames of the allocator.\<close>

definition user_half :: "u16 set" where "user_half = {i. i < 256}"

definition as_inv :: "machine \<Rightarrow> u64 \<Rightarrow> bool" where
  "as_inv s space \<longleftrightarrow> pg_inv s space user_half \<and> tables s space user_half \<subseteq> managed_frames (m_pmm s)"

lemma root_table: "root \<in> tables s root H"
  by (auto simp: tables_def valid_path_def intro: exI [of _ "[]"])

lemma as_inv_root: "as_inv s space \<Longrightarrow> space \<noteq> 0 \<and> space AND kAddrMask = space"
  using root_table [of space s user_half] frame_addr_mask [of space "m_pmm s"] by (auto simp: as_inv_def)

lemma as_inv_step:
  assumes "as_inv s space" and "pg_step s s' space user_half"
  shows "as_inv s' space"
proof -
  have "frames (m_pmm s) \<subseteq> managed_frames (m_pmm s)"
    using assms(1) by (simp add: as_inv_def pg_inv_def pmm.avail_managed)
  then show ?thesis using assms by (auto simp: as_inv_def pg_step_def claimed_def)
qed

lemma pml4_user: "valid_path user_half (vpath v) \<longleftrightarrow> pml4_index v < 256"
proof -
  have small: "ucast (w AND 0x1ff) < (512 :: u16)" for w :: u64
  proof -
    have "unat (w AND 0x1ff) \<le> unat (0x1ff :: u64)" by (metis word_and_le1 word_le_nat_alt)
    then have "unat (w AND 0x1ff) < 512" by simp
    then show ?thesis by (simp add: word_less_nat_alt unat_ucast_mod)
  qed
  show ?thesis
    using small by (auto simp: valid_path_def vpath_def user_half_def pml4_index_def pdpt_index_def pd_index_def pt_index_def)
qed

section \<open>Creation and destruction\<close>

lemma copy_entries:
  assumes "dst AND 0xfff = 0" and "\<And>i. i \<in> set is \<Longrightarrow> 256 \<le> i \<and> i < 512"
    and "u AND 0xfff = 0" and "k < 512" and "u \<noteq> dst \<or> k < 256"
  shows "rd (fold (copy_entry dst src) is s) (entry_addr u k) = rd s (entry_addr u k)"
  using assms(2)
proof (induction "is" arbitrary: s)
  case (Cons i "is")
  have i: "256 \<le> i" "i < 512" using Cons.prems by auto
  then have "entry_addr dst i \<noteq> entry_addr u k"
    using entry_addr_inj [OF assms(1) i(2) assms(3,4)] assms(5) by auto
  then show ?case
    using Cons i assms by (simp add: copy_entry_def load64_store64_other entry_addr_split(3))
qed simp

lemma copy_entry_fields [simp]:
  "m_pmm (fold (copy_entry dst src) is s) = m_pmm s" "m_root (fold (copy_entry dst src) is s) = m_root s"
  "m_cr3 (fold (copy_entry dst src) is s) = m_cr3 s"
  by (induction "is" arbitrary: s) (simp_all add: copy_entry_def)

lemma create_outcome:
  assumes "pmm_inv (m_pmm s)" and "create_address_space s = (root, s')" and "root \<noteq> 0"
  shows "root \<in> frames (m_pmm s)" and "frames (m_pmm s') = frames (m_pmm s) - {root}" and "pmm_inv (m_pmm s')"
    and "managed_frames (m_pmm s') = managed_frames (m_pmm s)"
    and "\<And>u k. u AND 0xfff = 0 \<Longrightarrow> k < 512 \<Longrightarrow> u \<noteq> root \<Longrightarrow> rd s' (entry_addr u k) = rd s (entry_addr u k)"
    and "\<And>k. k < 256 \<Longrightarrow> rd s' (entry_addr root k) = 0"
proof -
  let ?P = "root \<in> frames (m_pmm s) \<and> frames (m_pmm s') = frames (m_pmm s) - {root} \<and> pmm_inv (m_pmm s')
    \<and> managed_frames (m_pmm s') = managed_frames (m_pmm s)
    \<and> (\<forall>u k. u AND 0xfff = 0 \<longrightarrow> k < 512 \<longrightarrow> u \<noteq> root \<longrightarrow> rd s' (entry_addr u k) = rd s (entry_addr u k))
    \<and> (\<forall>k. k < 256 \<longrightarrow> rd s' (entry_addr root k) = 0)"
  have ?P
    using assms(1)
  proof (cases rule: allocate_page_machine)
    case (none s1)
    then show ?thesis using assms(2,3) by (simp add: create_address_space_def)
  next
    case (some p s1)
    note p = frame_addr_mask [OF some(5)]
    define s2 where "s2 = s1\<lparr>m_mem := memset (m_mem s) p 0 kPageSize\<rparr>"
    have s': "root = p" "s' = fold (copy_entry p (table_from_phys (m_cr3 s))) (wrange 256 512) s2"
      using assms(2) some p by (auto simp: create_address_space_def Let_def s2_def table_from_phys_def)
    have r2: "rd s2 (entry_addr u k) = (if u = p then 0 else rd s (entry_addr u k))"
      if "u AND 0xfff = 0" "k < 512" for u k
      using load64_memset_page [OF p(2) entry_addr_split(3) [OF that]] entry_addr_split(1) [OF that]
      by (simp add: s2_def)
    have cp: "rd s' (entry_addr u k) = rd s2 (entry_addr u k)"
      if "u AND 0xfff = 0" "k < 512" "u \<noteq> p \<or> k < 256" for u k
      unfolding s'(2) by (rule copy_entries) (use p that in auto)
    have "rd s' (entry_addr root k) = 0" if "k < 256" for k
    proof -
      have "k < 512" using that by (simp add: word_less_nat_alt)
      then show ?thesis using cp [of p k] r2 [of p k] p s'(1) that by simp
    qed
    then show ?thesis using some s' cp r2 by (simp add: s2_def)
  qed
  then show "root \<in> frames (m_pmm s)" and "frames (m_pmm s') = frames (m_pmm s) - {root}" and "pmm_inv (m_pmm s')"
    and "managed_frames (m_pmm s') = managed_frames (m_pmm s)"
    and "\<And>u k. u AND 0xfff = 0 \<Longrightarrow> k < 512 \<Longrightarrow> u \<noteq> root \<Longrightarrow> rd s' (entry_addr u k) = rd s (entry_addr u k)"
    and "\<And>k. k < 256 \<Longrightarrow> rd s' (entry_addr root k) = 0" by auto
qed

lemma create_empty:
  assumes pmm: "pmm_inv (m_pmm s)" and c: "create_address_space s = (root, s')" and nz: "root \<noteq> 0"
  shows "as_inv s' root" and "tables s' root user_half = {root}"
    and "valid_path user_half js \<Longrightarrow> js \<noteq> [] \<Longrightarrow> walk (rd s') root js = None"
proof -
  note o = create_outcome [OF pmm c nz]
  show none: "walk (rd s') root js = None" if "valid_path user_half js" "js \<noteq> []" for js
    using that o(6) by (cases js) (auto simp: valid_path_def user_half_def Let_def)
  have only: "js = [] \<and> t = root" if "valid_path user_half js" "walk (rd s') root js = Some t" for js t
    using that none by (cases "js = []") auto
  show tabs: "tables s' root user_half = {root}"
    using only root_table [of root s' user_half] unfolding tables_def by blast
  have man: "root \<in> managed_frames (m_pmm s')" using o(1,4) pmm.avail_managed [OF pmm] by auto
  have "pt_ok (rd s') root user_half (frames (m_pmm s'))"
  proof (rule pt_okI)
    fix "is" js t assume p: "valid_path user_half is" "walk (rd s') root is = Some t"
    show "t AND 0xfff = 0 \<and> t \<noteq> 0 \<and> t \<notin> frames (m_pmm s')"
      using only [OF p] frame_addr_mask [OF man] o(2) by simp
    assume "valid_path user_half js" "walk (rd s') root js = Some t"
    then show "is = js" using only [OF p] only by blast
  next
    fix "is" i t assume "valid_path user_half (is @ [i])" "length is \<in> {1, 2}" "walk (rd s') root is = Some t"
    then have "is = []" using only [of "is" t] valid_path_prefix by blast
    then show "rd s' (entry_addr t i) AND push_bit 7 1 = 0" using \<open>length is \<in> {1, 2}\<close> by simp
  qed
  then show "as_inv s' root" using tabs man o(3) by (simp add: as_inv_def pg_inv_def)
qed

text \<open>Giving back the frames \<open>A\<close>, and nothing else.\<close>

definition released :: "machine \<Rightarrow> machine \<Rightarrow> u64 set \<Rightarrow> bool" where
  "released s s' A \<longleftrightarrow> m_mem s' = m_mem s \<and> m_root s' = m_root s \<and> m_cr3 s' = m_cr3 s
     \<and> pmm_inv (m_pmm s') \<and> managed_frames (m_pmm s') = managed_frames (m_pmm s)
     \<and> frames (m_pmm s') = frames (m_pmm s) \<union> A"

lemma released_refl: "pmm_inv (m_pmm s) \<Longrightarrow> released s s {}"
  by (simp add: released_def)

lemma released_trans: "released s s' A \<Longrightarrow> released s' s'' B \<Longrightarrow> released s s'' (A \<union> B)"
  by (auto simp: released_def)

lemma released_page:
  "pmm_inv (m_pmm s) \<Longrightarrow> a \<in> managed_frames (m_pmm s) \<Longrightarrow> released s (m_free_page a s) {a}"
  by (simp add: released_def m_free_page_def free_page_inv managed_free_page free_page_frames)

lemma released_fold:
  assumes "pmm_inv (m_pmm s)"
    and "\<And>i t. i \<in> set is \<Longrightarrow> pmm_inv (m_pmm t) \<Longrightarrow> m_mem t = m_mem s \<Longrightarrow>
      managed_frames (m_pmm t) = managed_frames (m_pmm s) \<Longrightarrow> released t (f i t) (A i)"
  shows "released s (fold f is s) (\<Union>i \<in> set is. A i)"
  using assms
proof (induction "is" arbitrary: s)
  case (Cons i "is")
  have first: "released s (f i s) (A i)" using Cons.prems by simp
  then have "pmm_inv (m_pmm (f i s))" "m_mem (f i s) = m_mem s" "managed_frames (m_pmm (f i s)) = managed_frames (m_pmm s)"
    by (simp_all add: released_def)
  then have "released (f i s) (fold f is (f i s)) (\<Union>i \<in> set is. A i)"
    by (intro Cons.IH Cons.prems(2)) simp_all
  then show ?case using released_trans [OF first] by simp
qed (simp add: released_refl)

lemma released_parent:
  assumes "released s t B" and "a \<in> managed_frames (m_pmm s)"
  shows "released s (m_free_page a t) (insert a B)"
proof -
  have "released t (m_free_page a t) {a}" using assms by (intro released_page) (simp_all add: released_def)
  then show ?thesis using released_trans [OF assms(1)] by fastforce
qed

text \<open>The tables properly below \<open>t\<close>, at most \<open>n\<close> levels down.\<close>

fun below :: "(u64 \<Rightarrow> u64) \<Rightarrow> nat \<Rightarrow> u64 \<Rightarrow> u64 set" where
  "below r 0 t = {}"
| "below r (Suc n) t = (\<Union>i \<in> set (wrange 0 512 :: u16 list). if r (entry_addr t i) AND PagePresent = 0 then {}
     else insert (r (entry_addr t i) AND kAddrMask) (below r n (r (entry_addr t i) AND kAddrMask)))"

definition slot :: "(u64 \<Rightarrow> u64) \<Rightarrow> nat \<Rightarrow> u64 \<Rightarrow> u16 \<Rightarrow> u64 set" where
  "slot r n t i = (if r (entry_addr t i) AND PagePresent = 0 then {}
     else insert (r (entry_addr t i) AND kAddrMask) (below r n (r (entry_addr t i) AND kAddrMask)))"

lemma below_slot: "below r (Suc n) t = (\<Union>i \<in> set (wrange 0 512). slot r n t i)"
  by (simp add: slot_def)

lemma below_walk:
  "u \<in> below r n t \<longleftrightarrow> (\<exists>is. is \<noteq> [] \<and> length is \<le> n \<and> (\<forall>i \<in> set is. i < 512) \<and> walk r t is = Some u)"
proof (induction n arbitrary: t)
  case (Suc n)
  show ?case
  proof
    assume "u \<in> below r (Suc n) t"
    then obtain i where i: "i < 512" "r (entry_addr t i) AND PagePresent \<noteq> 0"
      and "u = r (entry_addr t i) AND kAddrMask \<or> u \<in> below r n (r (entry_addr t i) AND kAddrMask)"
      by (auto split: if_splits)
    then obtain "is" where "length is \<le> n" "\<forall>i \<in> set is. i < 512" "walk r (r (entry_addr t i) AND kAddrMask) is = Some u"
      using Suc.IH by (metis empty_iff empty_set list.size(3) walk.simps(1) zero_le)
    then show "\<exists>is. is \<noteq> [] \<and> length is \<le> Suc n \<and> (\<forall>i \<in> set is. i < 512) \<and> walk r t is = Some u"
      using i by (intro exI [of _ "i # is"]) (simp add: Let_def)
  next
    assume "\<exists>is. is \<noteq> [] \<and> length is \<le> Suc n \<and> (\<forall>i \<in> set is. i < 512) \<and> walk r t is = Some u"
    then obtain i js where p: "length js \<le> n" "i < 512" "\<forall>j \<in> set js. j < 512" "walk r t (i # js) = Some u"
      by (metis length_Cons list.exhaust list.set_intros(1,2) Suc_le_mono)
    then have "r (entry_addr t i) AND PagePresent \<noteq> 0" "walk r (r (entry_addr t i) AND kAddrMask) js = Some u"
      by (auto simp: Let_def split: if_splits)
    then have "u \<in> slot r n t i"
      using p Suc.IH by (cases "js = []") (auto simp: slot_def)
    then show "u \<in> below r (Suc n) t" unfolding below_slot using p(2) by auto
  qed
qed simp

lemma slot_walk:
  "u \<in> slot r n t i \<longleftrightarrow> (\<exists>js. length js \<le> n \<and> (\<forall>j \<in> set js. j < 512) \<and> walk r t (i # js) = Some u)"
proof (cases "r (entry_addr t i) AND PagePresent = 0")
  case False
  define t' where "t' = r (entry_addr t i) AND kAddrMask"
  have "u \<in> slot r n t i \<longleftrightarrow> u = t' \<or> u \<in> below r n t'" using False by (simp add: slot_def t'_def)
  also have "\<dots> \<longleftrightarrow> (\<exists>js. length js \<le> n \<and> (\<forall>j \<in> set js. j < 512) \<and> walk r t' js = Some u)"
    unfolding below_walk by (metis empty_iff empty_set list.size(3) option.inject walk.simps(1) zero_le)
  finally show ?thesis using False by (simp add: t'_def Let_def)
qed (simp add: slot_def)

lemma tables_slots:
  "tables s root user_half = insert root (\<Union>i \<in> set (wrange 0 256). slot (rd s) 2 root i)"
proof (rule set_eqI)
  fix u
  have path: "valid_path user_half (i # js) \<longleftrightarrow> i < 256 \<and> (\<forall>j \<in> set js. j < 512)" for i js
    by (auto simp: valid_path_def user_half_def word_less_nat_alt)
  have "u \<in> tables s root user_half \<longleftrightarrow> u = root \<or> (\<exists>i js. i < 256 \<and> (\<forall>j \<in> set js. j < 512) \<and> length js \<le> 2
      \<and> walk (rd s) root (i # js) = Some u)" (is "?L \<longleftrightarrow> ?R")
  proof
    assume ?L
    then obtain "is" where "valid_path user_half is" "length is \<le> 3" "walk (rd s) root is = Some u"
      by (auto simp: tables_def)
    then show ?R
    proof (cases "is")
      case (Cons i js)
      then have "i < 256 \<and> (\<forall>j \<in> set js. j < 512) \<and> length js \<le> 2 \<and> walk (rd s) root (i # js) = Some u"
        using \<open>valid_path user_half is\<close> \<open>length is \<le> 3\<close> \<open>walk (rd s) root is = Some u\<close> path by simp
      then show ?thesis by blast
    qed simp
  next
    assume ?R
    then show ?L
    proof
      assume "\<exists>i js. i < 256 \<and> (\<forall>j \<in> set js. j < 512) \<and> length js \<le> 2 \<and> walk (rd s) root (i # js) = Some u"
      then obtain i js where "valid_path user_half (i # js)" "length (i # js) \<le> 3" "walk (rd s) root (i # js) = Some u"
        using path by auto
      then show ?L by (rule tablesI)
    qed (simp add: root_table)
  qed
  also have "\<dots> \<longleftrightarrow> u \<in> insert root (\<Union>i \<in> set (wrange 0 256). slot (rd s) 2 root i)"
    unfolding insert_iff UN_iff slot_walk Bex_def set_wrange by (simp del: walk.simps) blast
  finally show "u \<in> tables s root user_half \<longleftrightarrow> \<dots>" .
qed

text \<open>One slot of a table, given back together with everything below it.\<close>

lemma free_pt_released:
  assumes "pmm_inv (m_pmm s)" and "slot (rd s) 0 pd i \<subseteq> managed_frames (m_pmm s)"
  shows "released s (free_pt pd i s) (slot (rd s) 0 pd i)"
  using assms by (auto simp: free_pt_def slot_def Let_def released_refl released_page split: if_splits)

lemma free_level_released:
  assumes "pmm_inv (m_pmm s)" and "slot (rd s) (Suc n) t i \<subseteq> managed_frames (m_pmm s)"
    and present: "rd s (entry_addr t i) AND PagePresent \<noteq> 0"
    and f: "\<And>s j. pmm_inv (m_pmm s) \<Longrightarrow> slot (rd s) n u j \<subseteq> managed_frames (m_pmm s) \<Longrightarrow>
      released s (f j s) (slot (rd s) n u j)"
    and u: "u = rd s (entry_addr t i) AND kAddrMask"
  shows "released s (m_free_page u (fold f (wrange 0 512) s)) (slot (rd s) (Suc n) t i)"
proof -
  have sl: "slot (rd s) (Suc n) t i = insert u (\<Union>j \<in> set (wrange 0 512). slot (rd s) n u j)"
    using present below_slot [of "rd s" n u] by (simp add: slot_def u)
  have "released s (fold f (wrange 0 512) s) (\<Union>j \<in> set (wrange 0 512). slot (rd s) n u j)"
  proof (rule released_fold [OF assms(1)])
    fix j :: u16 and x :: machine
    assume j: "j \<in> set (wrange 0 512)" and x: "pmm_inv (m_pmm x)" "m_mem x = m_mem s"
      "managed_frames (m_pmm x) = managed_frames (m_pmm s)"
    have "slot (rd s) n u j \<subseteq> managed_frames (m_pmm s)" using j assms(2) sl by blast
    then show "released x (f j x) (slot (rd s) n u j)" using f [of x j] x by simp
  qed
  then show ?thesis unfolding sl by (rule released_parent) (use assms(2) sl in auto)
qed

lemma free_pd_released:
  assumes "pmm_inv (m_pmm s)" and "slot (rd s) 1 pdpt i \<subseteq> managed_frames (m_pmm s)"
  shows "released s (free_pd pdpt i s) (slot (rd s) 1 pdpt i)"
proof (cases "rd s (entry_addr pdpt i) AND PagePresent = 0")
  case True
  then show ?thesis using assms by (simp add: free_pd_def slot_def released_refl)
next
  case False
  then show ?thesis
    using free_level_released [of s 0 pdpt i _ "free_pt (rd s (entry_addr pdpt i) AND kAddrMask)"] assms
    by (simp add: free_pd_def table_from_phys_def free_pt_released Let_def)
qed

lemma free_pdpt_released:
  assumes "pmm_inv (m_pmm s)" and "slot (rd s) 2 pml4 i \<subseteq> managed_frames (m_pmm s)"
  shows "released s (free_pdpt pml4 i s) (slot (rd s) 2 pml4 i)"
proof (cases "rd s (entry_addr pml4 i) AND PagePresent = 0")
  case True
  then show ?thesis using assms by (simp add: free_pdpt_def slot_def released_refl)
next
  case False
  then show ?thesis
    using free_level_released [of s 1 pml4 i _ "free_pd (rd s (entry_addr pml4 i) AND kAddrMask)", OF _ _ _ free_pd_released] assms
    by (simp add: free_pdpt_def table_from_phys_def numeral_2_eq_2 Let_def)
qed

lemma destroy_released:
  assumes inv: "as_inv s space"
  shows "released s (snd (destroy_address_space s space)) (tables s space user_half)"
proof -
  have sp: "space \<noteq> 0" "space AND kAddrMask = space" using as_inv_root [OF inv] by auto
  have pmm: "pmm_inv (m_pmm s)" and man: "tables s space user_half \<subseteq> managed_frames (m_pmm s)"
    using inv by (simp_all add: as_inv_def pg_inv_def)
  have "released s (fold (free_pdpt space) (wrange 0 256) s) (\<Union>i \<in> set (wrange 0 256). slot (rd s) 2 space i)"
  proof (rule released_fold [OF pmm])
    fix j :: u16 and x :: machine
    assume j: "j \<in> set (wrange 0 256)" and x: "pmm_inv (m_pmm x)" "m_mem x = m_mem s"
      "managed_frames (m_pmm x) = managed_frames (m_pmm s)"
    have "slot (rd s) 2 space j \<subseteq> managed_frames (m_pmm s)" using j man unfolding tables_slots by blast
    then show "released x (free_pdpt space j x) (slot (rd s) 2 space j)"
      using free_pdpt_released [of x space j] x by simp
  qed
  then show ?thesis
    unfolding tables_slots destroy_address_space_def using sp man root_table [of space s user_half]
    by (auto simp: table_from_phys_def intro!: released_parent)
qed

section \<open>Properties\<close>

text \<open>Two addresses on the same virtual page: bits 12 to 47 agree.\<close>

definition same_vpage :: "u64 \<Rightarrow> u64 \<Rightarrow> bool" where
  "same_vpage v w \<longleftrightarrow> drop_bit 12 (take_bit 48 v) = drop_bit 12 (take_bit 48 w)"

lemma index_eq:
  "ucast (drop_bit k v AND 0x1ff) = (ucast (drop_bit k w AND 0x1ff) :: u16) \<longleftrightarrow>
   (\<forall>n < 9. bit v (k + n) = bit w (k + n))" for v w :: u64
proof -
  have m: "(0x1ff :: u64) = mask 9" by (simp add: mask_numeral)
  have bits: "bit (ucast (drop_bit k x AND 0x1ff) :: u16) n \<longleftrightarrow> n < 9 \<and> bit x (k + n)" for x :: u64 and n
    unfolding m by (auto simp: bit_simps dest: bit_imp_le_length)
  show ?thesis
  proof
    assume "ucast (drop_bit k v AND 0x1ff) = (ucast (drop_bit k w AND 0x1ff) :: u16)"
    then show "\<forall>n < 9. bit v (k + n) = bit w (k + n)" using bits by metis
  qed (rule bit_word_eqI, auto simp: bits)
qed

lemma vpath_eq: "vpath v = vpath w \<longleftrightarrow> same_vpage v w"
proof -
  have bits: "bit (drop_bit 12 (take_bit 48 x)) n \<longleftrightarrow> n + 12 < 48 \<and> bit x (n + 12)" for x :: u64 and n
    by (simp add: bit_simps ac_simps)
  have "same_vpage v w \<longleftrightarrow> (\<forall>n. 12 \<le> n \<and> n < 48 \<longrightarrow> bit v n = bit w n)"
  proof
    assume "same_vpage v w"
    then have eq: "n + 12 < 48 \<and> bit v (n + 12) \<longleftrightarrow> n + 12 < 48 \<and> bit w (n + 12)" for n
      unfolding same_vpage_def using bits by metis
    show "\<forall>n. 12 \<le> n \<and> n < 48 \<longrightarrow> bit v n = bit w n"
      using eq [of "n - 12" for n] by (metis le_add_diff_inverse2)
  next
    assume "\<forall>n. 12 \<le> n \<and> n < 48 \<longrightarrow> bit v n = bit w n"
    then show "same_vpage v w"
      unfolding same_vpage_def by (intro bit_word_eqI) (auto simp: bits)
  qed
  also have "\<dots> \<longleftrightarrow> (\<forall>k \<in> {12, 21, 30, 39}. \<forall>n < 9. bit v (k + n) = bit w (k + n))"
    (is "?L \<longleftrightarrow> ?R")
  proof
    assume R: ?R
    show ?L
    proof (intro allI impI)
      fix n :: nat assume n: "12 \<le> n \<and> n < 48"
      then have "12 + 9 * ((n - 12) div 9) \<in> {12, 21, 30, 39}" and "(n - 12) mod 9 < 9"
        and "12 + 9 * ((n - 12) div 9) + (n - 12) mod 9 = n" by auto
      then show "bit v n = bit w n" using R by metis
    qed
  qed auto
  finally show ?thesis
    by (auto simp: vpath_def pml4_index_def pdpt_index_def pd_index_def pt_index_def index_eq)
qed

text \<open>A machine with four free frames and one freshly created address space.\<close>

definition demo_machine :: machine where
  "demo_machine = \<lparr>m_mem = (\<lambda>_. 0), m_pmm = demo_pmm, m_cr3 = 0x1000, m_root = 0x1000,
     m_vmm_diag = \<lparr>map_page_calls = 0, map_range_calls = 0, unmap_page_calls = 0, mapped_pages = 0,
       unmapped_pages = 0, failed_maps = 0, failed_unmaps = 0, duplicate_map_rejects = 0,
       unaligned_map_rejects = 0, absent_unmap_rejects = 0, remote_shootdowns_requested = 0,
       last_mapped_virt = 0, last_unmapped_virt = 0\<rparr>,
     m_lapic_timer = False, m_invlpg = [], m_shootdowns = []\<rparr>"

definition demo_space :: u64 where "demo_space = fst (create_address_space demo_machine)"
definition demo_as :: machine where "demo_as = snd (create_address_space demo_machine)"

lemma create_succeeds:
  assumes "pmm_inv (m_pmm s)" and "frames (m_pmm s) \<noteq> {}"
  shows "fst (create_address_space s) \<noteq> 0"
  using assms(1)
proof (cases rule: allocate_page_machine)
  case (some p s')
  then show ?thesis using frame_addr_mask(3) by (auto simp: create_address_space_def Let_def)
qed (use assms(2) in simp)

lemma demo_as_inv: "as_inv demo_as demo_space"
proof -
  have "frames (m_pmm demo_machine) \<noteq> {}" by (simp add: demo_machine_def frames_def demo_free_set)
  then show ?thesis
    using create_succeeds [of demo_machine] create_empty(1) [of demo_machine demo_space demo_as] demo_inv
    by (simp add: demo_machine_def [symmetric] demo_space_def demo_as_def) (simp add: demo_machine_def)
qed

lemma translate_step:
  assumes inv: "as_inv s space" and v: "pml4_index v < 256" "pml4_index virt < 256"
    and m: "as_map_page s space virt phys flags = (r, s')"
  shows "as_translate s' space v =
    (if mr_ok r \<and> same_vpage v virt then (phys AND kAddrMask) + (v AND 0xfff) else as_translate s space v)"
proof -
  have sp: "space \<noteq> 0" "space AND kAddrMask = space" using as_inv_root [OF inv] by auto
  have "map_outcome s s' (mr_ok r) space user_half virt phys"
    using as_map_page_outcome [OF _ sp _ m] inv v(2) by (simp add: as_inv_def pml4_user)
  then have "walk (rd s') space (vpath v) =
      (if mr_ok r \<and> vpath v = vpath virt then Some (phys AND kAddrMask) else walk (rd s) space (vpath v))"
    using v(1) by (cases "mr_ok r") (simp_all add: map_outcome_def mapped_to_def same_maps_def pml4_user)
  then show ?thesis using sp by (simp add: as_translate_walk vpath_eq)
qed

lemma as_map_step:
  assumes "as_inv s space" and "pml4_index virt < 256" and "as_map_page s space virt phys flags = (r, s')"
  shows "pg_step s s' space user_half"
  using as_map_page_outcome [of s space user_half virt phys flags r s'] as_inv_root [OF assms(1)] assms
  by (simp add: as_inv_def pml4_user map_outcome_def)

text \<open>Each missing table costs one frame.\<close>

lemma ensure_table_cost:
  assumes "pmm_inv (m_pmm s)" and "frames (m_pmm s) \<noteq> {}" and e: "ensure_table s t i tf = (t', s')"
    and tf: "good_flags tf" and nz: "rd s (entry_addr t i) AND PagePresent \<noteq> 0 \<Longrightarrow> rd s (entry_addr t i) AND kAddrMask \<noteq> 0"
  shows "t' \<noteq> 0" and "card (frames (m_pmm s)) \<le> Suc (card (frames (m_pmm s')))"
proof -
  have "t' \<noteq> 0 \<and> card (frames (m_pmm s)) \<le> Suc (card (frames (m_pmm s')))"
  proof (cases "rd s (entry_addr t i) AND PagePresent = 0")
    case absent: True
    show ?thesis
      using assms(1)
    proof (cases rule: allocate_page_machine)
      case (some p s1)
      note p = frame_addr_mask [OF some(5)]
      have "t' = p" "m_pmm s' = m_pmm s1"
        using e absent some(1,2) p tf
        by (auto simp: ensure_table_def Let_def mem_simps table_from_phys_def bit.conj_disj_distrib2 good_flags_def)
      then show ?thesis using some(4,6) p(3) pmm.avail_finite [of "m_pmm s"] by (simp add: card_Diff_singleton)
    qed (use assms(2) in simp)
  next
    case False
    then show ?thesis using e nz by (auto simp: ensure_table_def table_from_phys_def Let_def)
  qed
  then show "t' \<noteq> 0" and "card (frames (m_pmm s)) \<le> Suc (card (frames (m_pmm s')))" by auto
qed

lemma ensure_path_succeeds:
  assumes "pg_inv s root H" and "valid_path H (ps @ is)" and "length (ps @ is) \<le> 3"
    and "walk (rd s) root ps = Some t" and "good_flags tf" and "length is \<le> card (frames (m_pmm s))"
  shows "fst (ensure_path s t is tf) \<noteq> 0"
  using assms
proof (induction "is" arbitrary: s t ps)
  case Nil
  then show ?case using pt_okD(2) [of "rd s" root H "frames (m_pmm s)" ps t] by (simp add: pg_inv_def)
next
  case (Cons i "is")
  obtain t1 s1 where e: "ensure_table s t i tf = (t1, s1)" by (cases "ensure_table s t i tf")
  have ps: "valid_path H (ps @ [i])" "length ps \<le> 2"
    using Cons.prems(2,3) valid_path_prefix [of H "ps @ [i]" "is"] by simp_all
  note spec = ensure_table_spec [OF Cons.prems(1) ps Cons.prems(4,5) e]
  have pmm: "pmm_inv (m_pmm s)" and ok: "pt_ok (rd s) root H (frames (m_pmm s))"
    using Cons.prems(1) by (simp_all add: pg_inv_def)
  have ne: "frames (m_pmm s) \<noteq> {}" using Cons.prems(6) by auto
  have "rd s (entry_addr t i) AND kAddrMask \<noteq> 0" if "rd s (entry_addr t i) AND PagePresent \<noteq> 0"
    using pt_okD(2) [OF ok ps(1)] ps(2) Cons.prems(4) that by (simp add: walk_append Let_def)
  note cost = ensure_table_cost [OF pmm ne e Cons.prems(5) this]
  have "fst (ensure_path s1 t1 is tf) \<noteq> 0"
    using Cons.prems spec(1) spec(3) [OF cost(1)] cost(2)
    by (intro Cons.IH [of s1 "ps @ [i]"]) (simp_all add: pg_step_def)
  then show ?case using e cost(1) by simp
qed

lemma as_map_page_succeeds:
  assumes inv: "as_inv s space" and v: "pml4_index virt < 256"
    and al: "virt AND (kPageSize - 1) = 0" "phys AND (kPageSize - 1) = 0"
    and unmapped: "walk (rd s) space (vpath virt) = None" and free: "3 \<le> free_pages (m_pmm s)"
  shows "mr_ok (fst (as_map_page s space virt phys flags))"
proof -
  have sp: "space \<noteq> 0" "table_from_phys space = space"
    using as_inv_root [OF inv] by (simp_all add: table_from_phys_def)
  let ?is = "[pml4_index virt, pdpt_index virt, pd_index virt]"
  have path: "vpath virt = ?is @ [pt_index virt]" by (simp add: vpath_def)
  have vp: "valid_path user_half (vpath virt)" and pg: "pg_inv s space user_half"
    using v inv by (simp_all add: pml4_user as_inv_def)
  obtain pt s1 where e: "ensure_path s space ?is (table_flags flags) = (pt, s1)"
    by (cases "ensure_path s space ?is (table_flags flags)")
  have "3 \<le> card (frames (m_pmm s))"
    using free pg by (simp add: card_frames pg_inv_def word_le_nat_alt)
  then have "pt \<noteq> 0"
    using ensure_path_succeeds [OF pg _ _ _ good_flags_table, of "[]" ?is space flags] e
      valid_path_prefix [OF vp [unfolded path]] by simp
  then show ?thesis
    using as_map_page_path(2) [OF sp(1) al, of s flags pt s1] e sp(2) unmapped
      map_core(1) [OF pg vp good_flags_table e] by (simp add: map_ok_def)
qed

lemma create_keeps:
  assumes c: "create_address_space s = (root, s')" and nz: "root \<noteq> 0" and inv: "as_inv s other"
  shows "as_inv s' other" and "same_maps s s' other user_half" and "tables s' other user_half \<inter> tables s' root user_half = {}"
proof -
  have pg: "pg_inv s other user_half" and pmm: "pmm_inv (m_pmm s)" using inv by (simp_all add: as_inv_def pg_inv_def)
  note o = create_outcome [OF pmm c nz]
  have "rd s' (entry_addr u k) = rd s (entry_addr u k)" if "u \<in> tables s other user_half" "k < 512" for u k
    using o(5) [of u k] o(1) tablesD [OF pg that(1)] that(2) by auto
  note f = pg_inv_frame [OF pg o(3) _ this]
  show "as_inv s' other" using f(2,3) o(2,4) inv by (auto simp: as_inv_def)
  show "same_maps s s' other user_half" using f(1) o(2) by (auto simp: same_maps_def)
  show "tables s' other user_half \<inter> tables s' root user_half = {}"
    using f(3) o(1,2) create_empty(2) [OF pmm c nz] tablesD(3) [OF pg] by auto
qed

text \<open>C9. A successful \<open>map_page\<close> of a user page makes exactly that page translate to the given frame;
  a failed one changes no user translation; in both cases the tables stay well formed. It fails
  only for an unaligned address, fewer than three free frames or a page that is already mapped.\<close>

theorem as_map_page_correct:
  assumes "as_inv s space" and "pml4_index virt < 256"
    and "as_map_page s space virt phys flags = (r, s')"
  shows "as_inv s' space
    \<and> (\<forall>v. pml4_index v < 256 \<longrightarrow> as_translate s' space v =
         (if mr_ok r \<and> same_vpage v virt then (phys AND kAddrMask) + (v AND 0xfff) else as_translate s space v))
    \<and> (\<not> mr_ok r \<longrightarrow> virt AND 0xfff \<noteq> 0 \<or> phys AND 0xfff \<noteq> 0 \<or> free_pages (m_pmm s) < 3
         \<or> walk (rd s) space (vpath virt) \<noteq> None)"
proof -
  have out: "map_outcome s s' (mr_ok r) space user_half virt phys"
    using as_map_page_outcome [of s space user_half virt phys flags r s'] as_inv_root [OF assms(1)] assms
    by (simp add: as_inv_def pml4_user)
  then have inv: "as_inv s' space" using as_inv_step [OF assms(1)] by (simp add: map_outcome_def)
  then show ?thesis
    using translate_step [OF assms(1) _ assms(2,3)] as_map_page_succeeds [OF assms(1,2), of phys flags] assms(3)
    by (auto simp: kPageSize_def) (metis not_less)
qed

theorem as_map_page_correct_witness:
  "as_inv demo_as demo_space \<and> pml4_index 0x400000 < 256
   \<and> as_inv (snd (as_map_page demo_as demo_space 0x400000 0x105000 7)) demo_space"
proof -
  have idx: "pml4_index 0x400000 < 256" by (simp add: pml4_index_def)
  then show ?thesis
    using demo_as_inv as_map_page_correct [OF demo_as_inv idx, of "0x105000" 7] by (simp add: prod_eq_iff)
qed

text \<open>C10. Address spaces with disjoint tables are isolated: mapping a page in one changes no user
  translation of the other, keeps the other well formed and keeps their tables disjoint.\<close>

theorem as_map_page_isolated:
  assumes "as_inv s space" and "as_inv s other" and "tables s other user_half \<inter> tables s space user_half = {}"
    and "pml4_index virt < 256" and "as_map_page s space virt phys flags = (r, s')" and "pml4_index v < 256"
  shows "as_translate s' other v = as_translate s other v \<and> as_inv s' other
    \<and> tables s' other user_half \<inter> tables s' space user_half = {}"
proof -
  have step: "pg_step s s' space user_half" by (rule as_map_step [OF assms(1,4,5)])
  have inv: "pg_inv s other user_half" using assms(2) by (simp add: as_inv_def)
  note o = pg_step_other [OF step inv assms(3)]
  have "walk (rd s') other (vpath v) = walk (rd s) other (vpath v)"
    using o(1) assms(6) by (simp add: same_maps_def pml4_user)
  moreover have "as_inv s' other" using o(2,3) assms(2) step by (simp add: as_inv_def pg_step_def)
  ultimately show ?thesis using o(4) as_inv_root [OF assms(2)] by (simp add: as_translate_walk)
qed

definition demo_space2 :: u64 where "demo_space2 = fst (create_address_space demo_as)"
definition demo_as2 :: machine where "demo_as2 = snd (create_address_space demo_as)"

lemma demo_frames: "card (frames (m_pmm demo_as)) = 3"
proof -
  have pmm: "pmm_inv (m_pmm demo_machine)" and ne: "frames (m_pmm demo_machine) \<noteq> {}"
    by (simp_all add: demo_machine_def demo_inv frames_def demo_free_set)
  have c: "create_address_space demo_machine = (demo_space, demo_as)" by (simp add: demo_space_def demo_as_def)
  have nz: "demo_space \<noteq> 0" using create_succeeds [OF pmm ne] by (simp add: demo_space_def)
  have "card (frames (m_pmm demo_machine)) = 4"
    using card_frames [OF demo_inv] by (simp add: demo_machine_def demo_pmm_def)
  then show ?thesis
    using create_outcome(1,2) [OF pmm c nz] pmm.avail_finite [of "m_pmm demo_machine"] by simp
qed

lemma demo_two_spaces:
  "as_inv demo_as2 demo_space" "as_inv demo_as2 demo_space2"
  "tables demo_as2 demo_space user_half \<inter> tables demo_as2 demo_space2 user_half = {}"
proof -
  have pmm: "pmm_inv (m_pmm demo_as)" using demo_as_inv by (simp add: as_inv_def pg_inv_def)
  have c: "create_address_space demo_as = (demo_space2, demo_as2)" by (simp add: demo_space2_def demo_as2_def)
  have "frames (m_pmm demo_as) \<noteq> {}" using demo_frames by auto
  then have nz: "demo_space2 \<noteq> 0" using create_succeeds [OF pmm] by (simp add: demo_space2_def)
  show "as_inv demo_as2 demo_space" "tables demo_as2 demo_space user_half \<inter> tables demo_as2 demo_space2 user_half = {}"
    using create_keeps [OF c nz demo_as_inv] by auto
  show "as_inv demo_as2 demo_space2" using create_empty(1) [OF pmm c nz] .
qed

theorem as_map_page_isolated_witness:
  "as_inv demo_as2 demo_space \<and> as_inv demo_as2 demo_space2
   \<and> as_translate (snd (as_map_page demo_as2 demo_space2 0x400000 0x105000 7)) demo_space 0x400123
     = as_translate demo_as2 demo_space 0x400123"
proof -
  have idx: "pml4_index 0x400000 < 256" "pml4_index 0x400123 < 256" by (simp_all add: pml4_index_def)
  obtain r s' where m: "as_map_page demo_as2 demo_space2 0x400000 0x105000 7 = (r, s')"
    by (cases "as_map_page demo_as2 demo_space2 0x400000 0x105000 7")
  show ?thesis
    using as_map_page_isolated [OF demo_two_spaces(2,1,3) idx(1) m idx(2)] demo_two_spaces m by simp
qed

text \<open>A whole life of an address space: it is created, an arbitrary list of mapping requests is
  made, and it is destroyed.\<close>

fun map_all :: "machine \<Rightarrow> u64 \<Rightarrow> (u64 \<times> u64 \<times> u64) list \<Rightarrow> machine" where
  "map_all s space [] = s"
| "map_all s space ((virt, phys, flags) # rs) = map_all (snd (as_map_page s space virt phys flags)) space rs"

lemma map_all_step:
  assumes "as_inv s space" and "\<forall>(virt, phys, flags) \<in> set rs. pml4_index virt < 256"
  shows "pg_step s (map_all s space rs) space user_half"
  using assms
proof (induction rs arbitrary: s)
  case Nil
  then show ?case by (simp add: as_inv_def pg_step_refl)
next
  case (Cons q rs)
  obtain virt phys flags where q: "q = (virt, phys, flags)" by (cases q)
  have step: "pg_step s (snd (as_map_page s space virt phys flags)) space user_half"
    using as_map_step [OF Cons.prems(1), of virt phys flags] Cons.prems(2) q by (simp add: prod_eq_iff)
  then have "as_inv (snd (as_map_page s space virt phys flags)) space" by (rule as_inv_step [OF Cons.prems(1)])
  then show ?case using Cons q step by (auto intro: pg_step_trans)
qed

text \<open>C11. No frame is lost: creating an address space, making any requests to map user pages,
  successful or not, and destroying the address space leaves the free frames as they were.\<close>

theorem address_space_lifecycle:
  assumes "pmm_inv (m_pmm s)" and "create_address_space s = (root, s1)" and "root \<noteq> 0"
    and "\<forall>(virt, phys, flags) \<in> set rs. pml4_index virt < 256"
  shows "frames (m_pmm (snd (destroy_address_space (map_all s1 root rs) root))) = frames (m_pmm s)"
proof -
  have inv: "as_inv s1 root" using create_empty(1) [OF assms(1-3)] .
  have step: "pg_step s1 (map_all s1 root rs) root user_half" by (rule map_all_step [OF inv assms(4)])
  have "frames (m_pmm (snd (destroy_address_space (map_all s1 root rs) root))) = claimed (map_all s1 root rs) root user_half"
    using destroy_released [OF as_inv_step [OF inv step]] by (simp add: released_def claimed_def)
  also have "\<dots> = claimed s1 root user_half" using step by (simp add: pg_step_def)
  also have "\<dots> = frames (m_pmm s)"
    using create_outcome(1,2) [OF assms(1-3)] create_empty(2) [OF assms(1-3)] by (auto simp: claimed_def)
  finally show ?thesis .
qed

theorem address_space_lifecycle_witness:
  "frames (m_pmm (snd (destroy_address_space
     (map_all demo_as demo_space [(0x400000, 0x105000, 7), (0x400000, 0x106000, 7), (0x401000, 0x107000, 3)])
     demo_space))) = frames demo_pmm"
proof -
  have pmm: "pmm_inv (m_pmm demo_machine)" by (simp add: demo_machine_def demo_inv)
  have c: "create_address_space demo_machine = (demo_space, demo_as)" by (simp add: demo_space_def demo_as_def)
  have nz: "demo_space \<noteq> 0" using demo_as_inv as_inv_root by blast
  show ?thesis
    using address_space_lifecycle [OF pmm c nz, of "[(0x400000, 0x105000, 7), (0x400000, 0x106000, 7), (0x401000, 0x107000, 3)]"]
    by (simp add: pml4_index_def demo_machine_def)
qed


lemma vmm_map_page_succeeds:
  assumes inv: "pg_inv s (m_root s) H" and root: "m_root s AND kAddrMask = m_root s" and vp: "valid_path H (vpath virt)"
    and al: "virt AND (kPageSize - 1) = 0" "phys AND (kPageSize - 1) = 0"
    and unmapped: "walk (rd s) (m_root s) (vpath virt) = None" and free: "3 \<le> card (frames (m_pmm s))"
  shows "mr_ok (fst (vmm_map_page s virt phys flags))"
proof -
  let ?is = "[pml4_index virt, pdpt_index virt, pd_index virt]"
  have path: "vpath virt = ?is @ [pt_index virt]" by (simp add: vpath_def)
  define s0 where "s0 = with_diag (\<lambda>d. d\<lparr>map_page_calls := map_page_calls d + 1\<rparr>) s"
  have s0: "same_machine s s0" by (simp add: s0_def same_machine_def)
  have inv0: "pg_inv s0 (m_root s) H" using inv s0 by (simp add: pg_inv_same)
  obtain pt s1 where e: "ensure_path s0 (m_root s) ?is kDefaultTableFlags = (pt, s1)"
    by (cases "ensure_path s0 (m_root s) ?is kDefaultTableFlags")
  have "pt \<noteq> 0"
    using ensure_path_succeeds [OF inv0 _ _ _ good_flags_default, of "[]" ?is "m_root s"] e
      valid_path_prefix [OF vp [unfolded path]] free s0 by (simp add: same_machine_def)
  then show ?thesis
    using vmm_map_page_path(3) [OF al, of s pt s1 flags] e root unmapped s0
      map_core(1) [OF inv0 vp good_flags_default e] by (simp add: s0_def table_from_phys_def same_machine_def)
qed


end
