(* ===== verification/Heap.thy ===== *)
theory Heap
  imports Paging
begin

text \<open>
  The kernel heap (\<open>kernel/src/mm/heap.cpp\<close>): a first-fit allocator over a chain of blocks that it
  grows by mapping pages. The chain is the list of its blocks in the order of the \<open>next\<close> pointers,
  each with its address; the header of a block takes \<open>sizeof(Block)\<close> = 24 bytes in front of its
  payload. The invariant says that the blocks tile the heap, so that the payloads handed out
  never overlap.
\<close>

section \<open>State\<close>

record Block =
  b_addr :: u64
  b_size :: u64
  b_free :: bool

record HeapDiagnostics =
  allocation_calls :: u64
  calloc_calls :: u64
  free_calls :: u64
  failed_allocations :: u64
  invalid_frees :: u64
  peak_used_bytes :: u64
  last_alloc_size :: u64

record heap =
  heap_start :: u64
  heap_end :: u64
  blocks :: "Block list"
  heap_diag :: HeapDiagnostics

definition sizeof_Block :: u64 where "sizeof_Block = 24"
definition kHeapInitialPages :: u64 where "kHeapInitialPages = 16"
definition kMinSplitPayload :: u64 where "kMinSplitPayload = 32"

definition align_ptr :: "u64 \<Rightarrow> u64 \<Rightarrow> u64" where
  "align_ptr value align = (value + align - 1) AND NOT (align - 1)"

definition initial_heap :: heap where
  "initial_heap = \<lparr>heap_start = 0xffff800000000000, heap_end = 0xffff800000000000, blocks = [],
     heap_diag = \<lparr>allocation_calls = 0, calloc_calls = 0, free_calls = 0, failed_allocations = 0, invalid_frees = 0,
       peak_used_bytes = 0, last_alloc_size = 0\<rparr>\<rparr>"

definition upd_heap_diag :: "(HeapDiagnostics \<Rightarrow> HeapDiagnostics) \<Rightarrow> heap \<Rightarrow> heap" where
  "upd_heap_diag f h = h\<lparr>heap_diag := f (heap_diag h)\<rparr>"

section \<open>Growing the heap\<close>

text \<open>The loop over the pages; a page just mapped is cleared through its physical address.\<close>

fun expand_pages :: "u64 \<Rightarrow> u64 list \<Rightarrow> machine \<Rightarrow> bool \<times> machine" where
  "expand_pages virt [] s = (True, s)"
| "expand_pages virt (i # is) s =
     (let (phys, s) = m_allocate_page s
      in if phys = 0 then (False, s)
         else let (mapped, s) = vmm_map_page s (virt + i * kPageSize) phys (PageWrite OR PageGlobal)
              in if \<not> mr_ok mapped then (False, s)
                 else expand_pages virt is (s\<lparr>m_mem := memset (m_mem s) phys 0 kPageSize\<rparr>))"

definition expand :: "u64 \<Rightarrow> machine \<times> heap \<Rightarrow> bool \<times> machine \<times> heap" where
  "expand n = (\<lambda>(s, h).
     let pages = align_up n kPageSize div kPageSize;
         virt = heap_end h;
         (ok, s) = expand_pages virt (wrange 0 pages) s
     in if \<not> ok then (False, s, h)
        else (True, s, h\<lparr>blocks := blocks h @ [\<lparr>b_addr = virt, b_size = pages * kPageSize - sizeof_Block, b_free = True\<rparr>],
                         heap_end := heap_end h + pages * kPageSize\<rparr>))"

definition heap_initialize :: "machine \<times> heap \<Rightarrow> machine \<times> heap" where
  "heap_initialize sh = (if blocks (snd sh) = [] then snd (expand (kHeapInitialPages * kPageSize) sh) else sh)"

section \<open>Allocation\<close>

definition used_bytes_locked :: "heap \<Rightarrow> u64" where
  "used_bytes_locked h = fold (\<lambda>b used. if b_free b then used else used + b_size b) (blocks h) 0"

definition update_peak_used_locked :: "heap \<Rightarrow> heap" where
  "update_peak_used_locked h =
     (let used = used_bytes_locked h
      in if peak_used_bytes (heap_diag h) < used then upd_heap_diag (\<lambda>d. d\<lparr>peak_used_bytes := used\<rparr>) h else h)"

text \<open>What happens to the block that is taken: it is split when enough is left for another one.\<close>

definition take_block :: "u64 \<Rightarrow> u64 \<Rightarrow> Block \<Rightarrow> Block list" where
  "take_block aligned n b =
     (let payload = b_addr b + sizeof_Block;
          block_end = payload + b_size b;
          used_end = aligned + n
      in if used_end + sizeof_Block + kMinSplitPayload < block_end
         then [b\<lparr>b_size := used_end - payload, b_free := False\<rparr>,
               \<lparr>b_addr = used_end, b_size = block_end - used_end - sizeof_Block, b_free = True\<rparr>]
         else [b\<lparr>b_free := False\<rparr>])"

definition fits :: "u64 \<Rightarrow> u64 \<Rightarrow> Block \<Rightarrow> bool" where
  "fits n alignment b =
     (let payload = b_addr b + sizeof_Block;
          aligned = align_ptr payload alignment;
          padding = aligned - payload
      in b_free b \<and> n + padding \<le> b_size b)"

text \<open>The scan of the chain: the address returned and the chain afterwards.\<close>

fun alloc_scan :: "u64 \<Rightarrow> u64 \<Rightarrow> Block list \<Rightarrow> (u64 \<times> Block list) option" where
  "alloc_scan n alignment [] = None"
| "alloc_scan n alignment (b # bs) =
     (if fits n alignment b
      then let aligned = align_ptr (b_addr b + sizeof_Block) alignment
           in Some (aligned, take_block aligned n b @ bs)
      else map_option (\<lambda>(p, bs'). (p, b # bs')) (alloc_scan n alignment bs))"

text \<open>The endless loop of \<open>allocate\<close>: scan, and expand when nothing fits. \<open>None\<close> stands for not returning.\<close>

partial_function (option) alloc_loop :: "u64 \<Rightarrow> u64 \<Rightarrow> machine \<times> heap \<Rightarrow> (u64 \<times> machine \<times> heap) option" where
  "alloc_loop n alignment sh =
     (case alloc_scan n alignment (blocks (snd sh)) of
        Some (p, bs) \<Rightarrow>
          Some (p, fst sh, update_peak_used_locked (upd_heap_diag (\<lambda>d. d\<lparr>last_alloc_size := n\<rparr>) ((snd sh)\<lparr>blocks := bs\<rparr>)))
      | None \<Rightarrow>
          let (ok, sh) = expand (n + alignment + sizeof_Block) sh
          in if ok then alloc_loop n alignment sh
             else Some (0, fst sh, upd_heap_diag (\<lambda>d. d\<lparr>failed_allocations := failed_allocations d + 1\<rparr>) (snd sh)))"

definition allocate :: "u64 \<Rightarrow> u64 \<Rightarrow> machine \<times> heap \<Rightarrow> (u64 \<times> machine \<times> heap) option" where
  "allocate n alignment sh =
     (if n = 0 then Some (0, sh)
      else let alignment = (if alignment < 16 then 16 else alignment)
           in alloc_loop n alignment (fst sh, upd_heap_diag (\<lambda>d. d\<lparr>allocation_calls := allocation_calls d + 1\<rparr>) (snd sh)))"

text \<open>\<open>memset\<close> on a virtual address: each byte is written where the page tables map it.\<close>

definition clear_virtual :: "u64 \<Rightarrow> u64 \<Rightarrow> machine \<Rightarrow> machine" where
  "clear_virtual p n s = fold (\<lambda>i s. s\<lparr>m_mem := (m_mem s)(vmm_translate s (p + i) := 0)\<rparr>) (wrange 0 n) s"

definition calloc :: "u64 \<Rightarrow> u64 \<Rightarrow> machine \<times> heap \<Rightarrow> (u64 \<times> machine \<times> heap) option" where
  "calloc count n sh =
     (let total = count * n
      in map_option (\<lambda>(p, s, h). (p, if p \<noteq> 0 then clear_virtual p total s else s, h))
           (allocate total 16 (fst sh, upd_heap_diag (\<lambda>d. d\<lparr>calloc_calls := calloc_calls d + 1\<rparr>) (snd sh))))"

section \<open>Release\<close>

fun merge_next :: "Block \<Rightarrow> Block list \<Rightarrow> Block \<times> Block list" where
  "merge_next b [] = (b, [])"
| "merge_next b (nx # bs) =
     (if b_free nx \<and> b_addr b + sizeof_Block + b_size b = b_addr nx
      then merge_next (b\<lparr>b_size := b_size b + (sizeof_Block + b_size nx)\<rparr>) bs else (b, nx # bs))"

definition merge_prev :: "Block list \<Rightarrow> Block \<Rightarrow> Block list" where
  "merge_prev pre b =
     (if pre \<noteq> [] \<and> b_free (last pre) \<and> b_addr (last pre) + sizeof_Block + b_size (last pre) = b_addr b
      then butlast pre @ [(last pre)\<lparr>b_size := b_size (last pre) + (sizeof_Block + b_size b)\<rparr>]
      else pre @ [b])"

definition holds :: "u64 \<Rightarrow> Block \<Rightarrow> bool" where
  "holds raw b = (let begin = b_addr b + sizeof_Block; end = begin + b_size b in begin \<le> raw \<and> raw < end)"

definition heap_free :: "u64 \<Rightarrow> heap \<Rightarrow> heap" where
  "heap_free ptr h =
     (if ptr = 0 then h
      else case find_idx (holds ptr) (blocks h) of
        None \<Rightarrow> upd_heap_diag (\<lambda>d. d\<lparr>invalid_frees := invalid_frees d + 1\<rparr>) h
      | Some i \<Rightarrow>
          let (b, post) = merge_next ((blocks h ! i)\<lparr>b_free := True\<rparr>) (drop (Suc i) (blocks h))
          in upd_heap_diag (\<lambda>d. d\<lparr>free_calls := free_calls d + 1\<rparr>)
               (h\<lparr>blocks := merge_prev (take i (blocks h)) b @ post\<rparr>))"

section \<open>Statistics\<close>

record HeapStats =
  st_heap_start :: u64
  st_heap_end :: u64
  st_heap_bytes :: u64
  st_block_count :: u64
  st_used_blocks :: u64
  st_free_blocks :: u64
  st_used_bytes :: u64
  st_free_bytes :: u64
  st_largest_free_block :: u64

definition stats_block :: "Block \<Rightarrow> HeapStats \<Rightarrow> HeapStats" where
  "stats_block b st =
     (let st = st\<lparr>st_block_count := st_block_count st + 1\<rparr>
      in if b_free b
         then let st = st\<lparr>st_free_blocks := st_free_blocks st + 1, st_free_bytes := st_free_bytes st + b_size b\<rparr>
              in if st_largest_free_block st < b_size b then st\<lparr>st_largest_free_block := b_size b\<rparr> else st
         else st\<lparr>st_used_blocks := st_used_blocks st + 1, st_used_bytes := st_used_bytes st + b_size b\<rparr>)"

definition heap_stats :: "heap \<Rightarrow> HeapStats" where
  "heap_stats h =
     fold stats_block (blocks h)
       \<lparr>st_heap_start = heap_start h, st_heap_end = heap_end h,
        st_heap_bytes = (if heap_start h \<le> heap_end h then heap_end h - heap_start h else 0),
        st_block_count = 0, st_used_blocks = 0, st_free_blocks = 0, st_used_bytes = 0, st_free_bytes = 0,
        st_largest_free_block = 0\<rparr>"

section \<open>Alignment\<close>

lemma and_not_mask_eq: "x AND NOT (mask k) = x - take_bit k x" for x :: "'a::len word"
proof -
  have "x AND NOT (mask k) = push_bit k (drop_bit k x)"
    by (rule bit_word_eqI) (auto simp: bit_and_iff bit_not_iff bit_mask_iff bit_push_bit_iff bit_drop_bit_eq)
  then show ?thesis using bits_ident [of k x] by (metis add_diff_cancel_right')
qed

lemma unat_align_ptr:
  assumes "k < 64" "unat v + 2 ^ k \<le> 2 ^ 64"
  shows "unat v \<le> unat (align_ptr v (2 ^ k)) \<and> unat (align_ptr v (2 ^ k)) < unat v + 2 ^ k \<and>
    unat (align_ptr v (2 ^ k)) mod 2 ^ k = 0"
proof -
  let ?x = "v + 2 ^ k - 1" and ?X = "unat v + 2 ^ k - 1"
  have two: "unat (2 ^ k :: u64) = 2 ^ k"
    using unat_of_nat_small [where 'a = 64, of "2 ^ k"] power_strict_increasing [OF assms(1), of "2 :: nat"] by simp
  have pos: "(0 :: nat) < 2 ^ k" by simp
  have one: "(1 :: u64) \<le> 2 ^ k" using two pos by (simp add: word_le_nat_alt Suc_le_eq)
  have "unat (2 ^ k - 1 :: u64) = 2 ^ k - 1" using unat_sub_word [OF one] two by simp
  then have x: "unat ?x = ?X"
    using unat_add_word [of v "2 ^ k - 1"] assms(2) pos by (simp add: add_diff_eq [symmetric])
  have "align_ptr v (2 ^ k) = ?x - take_bit k ?x"
    by (simp add: align_ptr_def and_not_mask_eq [symmetric] mask_eq_exp_minus_1)
  moreover have "unat (take_bit k ?x) = ?X mod 2 ^ k"
    by (simp only: unsigned_take_bit_eq x) (simp only: take_bit_eq_mod)
  moreover have "take_bit k ?x \<le> ?x" using calculation(2) x by (simp add: word_le_nat_alt)
  ultimately have a: "unat (align_ptr v (2 ^ k)) = ?X - ?X mod 2 ^ k" using x by (simp add: unat_sub_word)
  have m: "?X mod 2 ^ k < 2 ^ k" "?X mod 2 ^ k \<le> ?X" by simp_all
  have "(?X - ?X mod 2 ^ k) mod 2 ^ k = 0" by (simp add: minus_mod_eq_mult_div)
  moreover have "unat v \<le> ?X - ?X mod 2 ^ k" "?X - ?X mod 2 ^ k < unat v + 2 ^ k" using m pos by linarith+
  ultimately show ?thesis unfolding a by simp
qed

section \<open>The blocks tile the heap\<close>

fun tiled :: "nat \<Rightarrow> Block list \<Rightarrow> nat \<Rightarrow> bool" where
  "tiled a [] e \<longleftrightarrow> a = e"
| "tiled a (b # bs) e \<longleftrightarrow> unat (b_addr b) = a \<and> tiled (a + 24 + unat (b_size b)) bs e"

definition heap_inv :: "heap \<Rightarrow> bool" where
  "heap_inv h \<longleftrightarrow> tiled (unat (heap_start h)) (blocks h) (unat (heap_end h))"

definition used :: "Block list \<Rightarrow> (u64 \<times> u64) set" where
  "used bs = {(b_addr b, b_size b) | b. b \<in> set bs \<and> \<not> b_free b}"

lemma used_simps [simp]:
  "used [] = {}" "used (b # bs) = (if b_free b then {} else {(b_addr b, b_size b)}) \<union> used bs"
  "used (xs @ ys) = used xs \<union> used ys"
  by (auto simp: used_def)

lemma tiled_append: "tiled a (xs @ ys) e \<longleftrightarrow> (\<exists>m. tiled a xs m \<and> tiled m ys e)"
  by (induction xs arbitrary: a) auto

lemma tiled_le: "tiled a bs e \<Longrightarrow> a \<le> e"
  by (induction bs arbitrary: a) fastforce+

lemma tiled_bounds:
  "tiled a bs e \<Longrightarrow> b \<in> set bs \<Longrightarrow> a \<le> unat (b_addr b) \<and> unat (b_addr b) + 24 + unat (b_size b) \<le> e"
  by (induction bs arbitrary: a) (fastforce dest: tiled_le)+

lemma tiled_used_disjoint:
  assumes "tiled a bs e" "(p, m) \<in> used bs" "(q, n) \<in> used bs"
  shows "(p, m) = (q, n) \<or> unat p + 24 + unat m \<le> unat q \<or> unat q + 24 + unat n \<le> unat p"
  using assms
proof (induction bs arbitrary: a)
  case (Cons b bs)
  from Cons.prems(1) have t: "unat (b_addr b) = a" "tiled (a + 24 + unat (b_size b)) bs e" by simp_all
  have later: "a + 24 + unat (b_size b) \<le> unat r" if "(r, l) \<in> used bs" for r l
    using tiled_bounds [OF t(2)] that by (auto simp: used_def)
  from Cons.prems(2,3) show ?case
    using Cons.IH [OF t(2)] t(1) later by (auto split: if_splits dest: later)
qed simp


text \<open>A block that fits, in natural numbers.\<close>

lemma fits_nat:
  assumes f: "fits n (2 ^ k) b" and k: "k < 64"
    and room: "unat (b_addr b) + 24 + unat (b_size b) + unat n + 2 ^ k < 2 ^ 64"
  defines "A \<equiv> align_ptr (b_addr b + sizeof_Block) (2 ^ k)"
  shows "b_free b" "unat (b_addr b) + 24 \<le> unat A" "unat A mod 2 ^ k = 0" "unat A < unat (b_addr b) + 24 + 2 ^ k"
    "unat A + unat n \<le> unat (b_addr b) + 24 + unat (b_size b)"
proof -
  have p: "unat (b_addr b + sizeof_Block) = unat (b_addr b) + 24"
    using room by (subst unat_add_word) (simp_all add: sizeof_Block_def)
  have a: "unat (b_addr b) + 24 \<le> unat A" "unat A < unat (b_addr b) + 24 + 2 ^ k" "unat A mod 2 ^ k = 0"
    using unat_align_ptr [OF k, of "b_addr b + sizeof_Block"] p room by (simp_all add: A_def)
  then show "unat (b_addr b) + 24 \<le> unat A" "unat A mod 2 ^ k = 0" "unat A < unat (b_addr b) + 24 + 2 ^ k" by simp_all
  have pad: "unat (A - (b_addr b + sizeof_Block)) = unat A - (unat (b_addr b) + 24)"
    using a p by (simp add: unat_sub_word word_le_nat_alt)
  have "unat (n + (A - (b_addr b + sizeof_Block))) = unat n + (unat A - (unat (b_addr b) + 24))"
    using a room pad by (subst unat_add_word) simp_all
  moreover have "b_free b \<and> unat (n + (A - (b_addr b + sizeof_Block))) \<le> unat (b_size b)"
    using f by (simp add: fits_def Let_def A_def word_le_nat_alt)
  ultimately show "b_free b" "unat A + unat n \<le> unat (b_addr b) + 24 + unat (b_size b)"
    using a(1) by (simp, linarith)
qed

lemma take_block_spec:
  assumes f: "fits n (2 ^ k) b" and k: "k < 64"
    and room: "unat (b_addr b) + 24 + unat (b_size b) + unat n + 2 ^ k + 56 < 2 ^ 64"
  defines "A \<equiv> align_ptr (b_addr b + sizeof_Block) (2 ^ k)"
  shows "\<exists>m. used (take_block A n b) = {(b_addr b, m)} \<and> unat A + unat n \<le> unat (b_addr b) + 24 + unat m \<and>
    tiled (unat (b_addr b)) (take_block A n b) (unat (b_addr b) + 24 + unat (b_size b))"
proof -
  note nat = fits_nat [OF f k, folded A_def]
  have n: "b_free b" "unat (b_addr b) + 24 \<le> unat A" "unat A + unat n \<le> unat (b_addr b) + 24 + unat (b_size b)"
    using nat room by simp_all
  have p: "unat (b_addr b + sizeof_Block) = unat (b_addr b) + 24"
    using room by (subst unat_add_word) (simp_all add: sizeof_Block_def)
  have e: "unat (b_addr b + sizeof_Block + b_size b) = unat (b_addr b) + 24 + unat (b_size b)"
    using room p by (subst unat_add_word) simp_all
  have u: "unat (A + n) = unat A + unat n" using room n by (subst unat_add_word) simp_all
  have lim: "unat (A + n + sizeof_Block + kMinSplitPayload) = unat A + unat n + 56"
  proof -
    have "unat (A + n + sizeof_Block) = unat A + unat n + 24"
      using room n u by (subst unat_add_word) (simp_all add: sizeof_Block_def)
    then show ?thesis
      using room n by (subst unat_add_word) (simp_all add: kMinSplitPayload_def)
  qed
  show ?thesis
  proof (cases "A + n + sizeof_Block + kMinSplitPayload < b_addr b + sizeof_Block + b_size b")
    case False
    then show ?thesis using n by (intro exI [of _ "b_size b"]) (simp add: take_block_def Let_def)
  next
    case True
    then have big: "unat A + unat n + 56 < unat (b_addr b) + 24 + unat (b_size b)"
      using lim e by (simp add: word_less_nat_alt)
    have s1: "unat (A + n - (b_addr b + sizeof_Block)) = unat A + unat n - (unat (b_addr b) + 24)"
      using n u p by (simp add: unat_sub_word word_le_nat_alt)
    have s2: "unat (b_addr b + sizeof_Block + b_size b - (A + n)) = unat (b_addr b) + 24 + unat (b_size b) - (unat A + unat n)"
      using big u e by (simp add: unat_sub_word word_le_nat_alt)
    have s3: "unat (b_addr b + sizeof_Block + b_size b - (A + n) - sizeof_Block)
        = unat (b_addr b) + 24 + unat (b_size b) - (unat A + unat n) - 24"
      using big s2 by (subst unat_sub_word) (simp_all add: word_le_nat_alt sizeof_Block_def)
    show ?thesis
      using True n big u s1 s3
      by (intro exI [of _ "A + n - (b_addr b + sizeof_Block)"]) (simp add: take_block_def Let_def)
  qed
qed


text \<open>What a successful allocation does to the set of blocks in use.\<close>

definition taken :: "u64 \<Rightarrow> nat \<Rightarrow> nat \<Rightarrow> (u64 \<times> u64) set \<Rightarrow> (u64 \<times> u64) set \<Rightarrow> bool" where
  "taken p n k U U' \<longleftrightarrow>
     (\<exists>a m. (\<forall>m'. (a, m') \<notin> U) \<and> U' = insert (a, m) U \<and> unat a + 24 \<le> unat p \<and> unat p + n \<le> unat a + 24 + unat m) \<and>
     unat p mod 2 ^ k = 0"

lemma alloc_scan_spec:
  assumes "tiled a bs e" "k < 64" "e + unat n + 2 ^ k + 56 < 2 ^ 64" "alloc_scan n (2 ^ k) bs = Some (p, bs')"
  shows "tiled a bs' e \<and> taken p (unat n) k (used bs) (used bs') \<and> a + 24 \<le> unat p"
  using assms
proof (induction bs arbitrary: a bs')
  case (Cons b bs)
  have t: "unat (b_addr b) = a" "tiled (a + 24 + unat (b_size b)) bs e" using Cons.prems(1) by simp_all
  have room: "unat (b_addr b) + 24 + unat (b_size b) + unat n + 2 ^ k + 56 < 2 ^ 64"
    using tiled_le [OF t(2)] t(1) Cons.prems(3) by simp
  have new: "(b_addr b, m) \<notin> used bs" for m
    using tiled_bounds [OF t(2)] t(1) by (fastforce simp: used_def)
  show ?case
  proof (cases "fits n (2 ^ k) b")
    case True
    let ?A = "align_ptr (b_addr b + sizeof_Block) (2 ^ k)"
    have p: "p = ?A" "bs' = take_block ?A n b @ bs" using Cons.prems(4) True by (auto simp: Let_def)
    obtain m where m: "used (take_block ?A n b) = {(b_addr b, m)}" "unat ?A + unat n \<le> unat (b_addr b) + 24 + unat m"
        "tiled a (take_block ?A n b) (a + 24 + unat (b_size b))"
      using take_block_spec [OF True Cons.prems(2) room] t(1) by auto
    have "b_free b" "unat (b_addr b) + 24 \<le> unat ?A" "unat ?A mod 2 ^ k = 0"
      using fits_nat [OF True Cons.prems(2)] room by simp_all
    then show ?thesis
      using p m t new by (auto simp: taken_def tiled_append)
  next
    case False
    then obtain bs'' where s: "alloc_scan n (2 ^ k) bs = Some (p, bs'')" "bs' = b # bs''"
      using Cons.prems(4) by (auto simp: Let_def)
    have IH: "tiled (a + 24 + unat (b_size b)) bs'' e" "taken p (unat n) k (used bs) (used bs'')" "a + 24 + unat (b_size b) + 24 \<le> unat p"
      using Cons.IH [OF t(2) Cons.prems(2,3) s(1)] by simp_all
    obtain c m where c: "\<forall>m'. (c, m') \<notin> used bs" "used bs'' = insert (c, m) (used bs)" "unat c + 24 \<le> unat p"
        "unat p + unat n \<le> unat c + 24 + unat m" "unat p mod 2 ^ k = 0"
      using IH(2) by (auto simp: taken_def)
    have "(c, m) \<in> used bs''" using c(2) by simp
    then obtain d where "d \<in> set bs''" "b_addr d = c" by (auto simp: used_def)
    then have "a + 24 \<le> unat c" using tiled_bounds [OF IH(1)] by fastforce
    then have "c \<noteq> b_addr b" using t(1) by auto
    then have "taken p (unat n) k (used (b # bs)) (used (b # bs''))"
      unfolding taken_def using c by (intro conjI exI [of _ c] exI [of _ m]) auto
    with IH s t show ?thesis by simp
  qed
qed simp


text \<open>Growing adds one free block at the end; enough for the request that caused it.\<close>

lemma unat_align_up_page:
  "unat v + 4096 \<le> 2 ^ 64 \<Longrightarrow> unat v \<le> unat (align_up v kPageSize) \<and> unat (align_up v kPageSize) < unat v + 4096 \<and>
    unat (align_up v kPageSize) mod 4096 = 0"
  using unat_align_ptr [of 12 v] by (simp add: align_ptr_def align_up_def kPageSize_def)

lemma expand_spec:
  assumes t: "tiled a (blocks h) (unat (heap_end h))" and e: "expand n (s, h) = (ok, s', h')"
    and n: "24 < unat n" "unat (heap_end h) + unat n + 4096 < 2 ^ 64"
  shows "(\<not> ok \<longrightarrow> h' = h) \<and> (ok \<longrightarrow> (\<exists>b. blocks h' = blocks h @ [b] \<and> b_free b \<and> unat n \<le> 24 + unat (b_size b) \<and>
    tiled a (blocks h') (unat (heap_end h')) \<and> unat (heap_end h') < unat (heap_end h) + unat n + 4096))
    \<and> heap_start h' = heap_start h \<and> heap_diag h' = heap_diag h"
proof -
  let ?P = "align_up n kPageSize"
  let ?pages = "?P div kPageSize"
  have P: "unat n \<le> unat ?P" "unat ?P < unat n + 4096" "unat ?P mod 4096 = 0"
    using unat_align_up_page [of n] n by simp_all
  have "?P mod kPageSize = 0" using P(3) by (simp add: word_unat_eq_iff unat_mod_distrib kPageSize_def)
  then have pg: "?pages * kPageSize = ?P" using div_mult_mod_eq [of ?P kPageSize] by simp
  have sz: "unat (?P - sizeof_Block) = unat ?P - 24"
    using P n by (subst unat_sub_word) (simp_all add: word_le_nat_alt sizeof_Block_def)
  have he: "unat (heap_end h + ?P) = unat (heap_end h) + unat ?P"
    using P n by (subst unat_add_word) simp_all
  show ?thesis
    using e P n t pg sz he
    by (auto simp: expand_def Let_def split_beta tiled_append split: if_splits)
qed

lemma scan_finds: "b \<in> set bs \<Longrightarrow> fits n al b \<Longrightarrow> alloc_scan n al bs \<noteq> None"
  by (induction bs) (auto simp: Let_def)

lemma fits_big:
  assumes "b_free b" "k < 64" "unat n + 2 ^ k \<le> unat (b_size b)"
    and room: "unat (b_addr b) + 24 + unat (b_size b) + 2 ^ k < 2 ^ 64"
  shows "fits n (2 ^ k) b"
proof -
  let ?p = "b_addr b + sizeof_Block"
  have p: "unat ?p = unat (b_addr b) + 24" using room by (subst unat_add_word) (simp_all add: sizeof_Block_def)
  have a: "unat ?p \<le> unat (align_ptr ?p (2 ^ k))" "unat (align_ptr ?p (2 ^ k)) < unat ?p + 2 ^ k"
    using unat_align_ptr [OF assms(2), of ?p] p room by simp_all
  then have pad: "unat (align_ptr ?p (2 ^ k) - ?p) = unat (align_ptr ?p (2 ^ k)) - unat ?p"
    by (simp add: unat_sub_word word_le_nat_alt)
  then have "unat (n + (align_ptr ?p (2 ^ k) - ?p)) = unat n + (unat (align_ptr ?p (2 ^ k)) - unat ?p)"
    using a assms(3) room by (subst unat_add_word) simp_all
  then show ?thesis using assms(1,3) a by (simp add: fits_def Let_def word_le_nat_alt)
qed

lemma peak_sel [simp]:
  "blocks (update_peak_used_locked h) = blocks h" "heap_start (update_peak_used_locked h) = heap_start h"
  "heap_end (update_peak_used_locked h) = heap_end h" "blocks (upd_heap_diag f h) = blocks h"
  "heap_start (upd_heap_diag f h) = heap_start h" "heap_end (upd_heap_diag f h) = heap_end h"
  by (simp_all add: update_peak_used_locked_def upd_heap_diag_def Let_def)

lemma alloc_loop_scan:
  assumes "alloc_scan n al (blocks h) = Some (p, bs)"
  shows "\<exists>h'. alloc_loop n al (s, h) = Some (p, s, h') \<and> blocks h' = bs \<and> heap_start h' = heap_start h \<and> heap_end h' = heap_end h"
  using assms by (simp add: alloc_loop.simps [of n al "(s, h)"])

lemma alloc_loop_spec:
  assumes inv: "heap_inv h" and k: "k < 64" and n: "0 < unat n"
    and room: "2 * (unat n + 2 ^ k) + unat (heap_end h) + 8192 < 2 ^ 64"
  shows "\<exists>p s' h'. alloc_loop n (2 ^ k) (s, h) = Some (p, s', h') \<and> heap_inv h' \<and>
    (p = 0 \<and> used (blocks h') = used (blocks h) \<or> p \<noteq> 0 \<and> taken p (unat n) k (used (blocks h)) (used (blocks h')))"
proof -
  let ?al = "2 ^ k :: u64"
  have tile: "tiled (unat (heap_start h)) (blocks h) (unat (heap_end h))" using inv by (simp add: heap_inv_def)
  show ?thesis
  proof (cases "alloc_scan n ?al (blocks h)")
    case (Some r)
    then obtain p bs where r: "alloc_scan n ?al (blocks h) = Some (p, bs)" by (cases r) auto
    have "tiled (unat (heap_start h)) bs (unat (heap_end h)) \<and> taken p (unat n) k (used (blocks h)) (used bs) \<and> unat (heap_start h) + 24 \<le> unat p"
      using alloc_scan_spec [OF tile k _ r] room by simp
    moreover then have "p \<noteq> 0" by auto
    ultimately show ?thesis using alloc_loop_scan [OF r, of s] by (auto simp: heap_inv_def)
  next
    case None
    obtain ok s1 h1 where e: "expand (n + ?al + sizeof_Block) (s, h) = (ok, s1, h1)" by (metis prod_cases3)
    have two: "unat ?al = 2 ^ k"
      using unat_of_nat_small [where 'a = 64, of "2 ^ k"] power_strict_increasing [OF k, of "2 :: nat"] by simp
    have "unat (n + ?al) = unat n + 2 ^ k" using room two by (subst unat_add_word) simp_all
    then have req: "unat (n + ?al + sizeof_Block) = unat n + 2 ^ k + 24"
      using room by (subst unat_add_word) (simp_all add: sizeof_Block_def)
    note ex = expand_spec [OF tile e, unfolded req]
    show ?thesis
    proof (cases ok)
      case False
      then have "h1 = h" using ex n room by simp
      then show ?thesis using False None e inv by (simp add: alloc_loop.simps [of n ?al "(s, h)"] heap_inv_def)
    next
      case True
      then obtain b where b: "blocks h1 = blocks h @ [b]" "b_free b" "unat n + 2 ^ k \<le> unat (b_size b)"
          "tiled (unat (heap_start h)) (blocks h1) (unat (heap_end h1))" "unat (heap_end h1) < unat (heap_end h) + (unat n + 2 ^ k + 24) + 4096"
        and st: "heap_start h1 = heap_start h"
        using ex n room by auto
      have "fits n ?al b"
        using fits_big [OF b(2) k b(3)] tiled_bounds [OF b(4), of b] b(1,5) room by simp
      then obtain p bs where r: "alloc_scan n ?al (blocks h1) = Some (p, bs)"
        using scan_finds [of b "blocks h1" n ?al] b(1) by auto
      have "tiled (unat (heap_start h)) bs (unat (heap_end h1)) \<and> taken p (unat n) k (used (blocks h1)) (used bs) \<and> unat (heap_start h) + 24 \<le> unat p"
        using alloc_scan_spec [OF b(4) k _ r] b(5) room by simp
      moreover have "used (blocks h1) = used (blocks h)" using b by simp
      moreover have "alloc_loop n ?al (s, h) = alloc_loop n ?al (s1, h1)"
        using None e True by (simp add: alloc_loop.simps [of n ?al "(s, h)"])
      ultimately show ?thesis
        using alloc_loop_scan [OF r, of s1] st by (auto simp: heap_inv_def)
    qed
  qed
qed

section \<open>Release\<close>

lemma absorb_next:
  assumes "tiled m (b # nx # bs) e" "e < 2 ^ 64"
  shows "tiled m (b\<lparr>b_size := b_size b + (sizeof_Block + b_size nx)\<rparr> # bs) e" "b_addr b + sizeof_Block + b_size b = b_addr nx"
proof -
  have t: "unat (b_addr b) = m" "unat (b_addr nx) = m + 24 + unat (b_size b)"
      "tiled (m + 24 + unat (b_size b) + 24 + unat (b_size nx)) bs e" using assms(1) by simp_all
  have le: "m + 24 + unat (b_size b) + 24 + unat (b_size nx) \<le> e" using tiled_le [OF t(3)] .
  have "unat (sizeof_Block + b_size nx) = 24 + unat (b_size nx)"
    using le assms(2) by (subst unat_add_word) (simp_all add: sizeof_Block_def)
  then have "unat (b_size b + (sizeof_Block + b_size nx)) = unat (b_size b) + 24 + unat (b_size nx)"
    using le assms(2) by (subst unat_add_word) simp_all
  then show "tiled m (b\<lparr>b_size := b_size b + (sizeof_Block + b_size nx)\<rparr> # bs) e" using t by (simp add: add.assoc)
  have "unat (b_addr b + sizeof_Block) = m + 24"
    using le assms(2) t(1) by (subst unat_add_word) (simp_all add: sizeof_Block_def)
  then have "unat (b_addr b + sizeof_Block + b_size b) = unat (b_addr nx)"
    using le assms(2) t by (subst unat_add_word) simp_all
  then show "b_addr b + sizeof_Block + b_size b = b_addr nx" by (simp add: word_unat_eq_iff)
qed

lemma merge_next_spec:
  "tiled m (b # post) e \<Longrightarrow> e < 2 ^ 64 \<Longrightarrow> merge_next b post = (b', post') \<Longrightarrow>
   tiled m (b' # post') e \<and> b_free b' = b_free b \<and> used post' = used post \<and> b_addr b' = b_addr b"
proof (induction b post rule: merge_next.induct)
  case (2 b nx bs)
  show ?case
  proof (cases "b_free nx \<and> b_addr b + sizeof_Block + b_size b = b_addr nx")
    case True
    then show ?thesis using 2 absorb_next [OF "2.prems"(1,2)] by simp
  next
    case False
    then show ?thesis using "2.prems" by auto
  qed
qed auto

lemma merge_prev_spec:
  assumes "tiled a pre m" "tiled m (b # post) e" "e < 2 ^ 64" "b_free b"
  shows "tiled a (merge_prev pre b @ post) e \<and> used (merge_prev pre b) = used pre"
proof (cases "pre \<noteq> [] \<and> b_free (last pre) \<and> b_addr (last pre) + sizeof_Block + b_size (last pre) = b_addr b")
  case True
  then have pre: "pre = butlast pre @ [last pre]" by simp
  obtain x where x: "tiled a (butlast pre) x" "tiled x [last pre] m"
    using assms(1) pre tiled_append [of a "butlast pre" "[last pre]" m] by auto
  then have "tiled x (last pre # b # post) e" using assms(2) by simp
  then have "tiled x ((last pre)\<lparr>b_size := b_size (last pre) + (sizeof_Block + b_size b)\<rparr> # post) e"
    using absorb_next(1) assms(3) by blast
  moreover have "used pre = used (butlast pre)"
    using True pre used_simps(3) [of "butlast pre" "[last pre]"] by simp
  ultimately show ?thesis
    using x(1) True by (auto simp: merge_prev_def tiled_append)
next
  case False
  then show ?thesis using assms by (auto simp: merge_prev_def tiled_append)
qed

lemma holds_nat:
  assumes "unat (b_addr b) + 24 + unat (b_size b) < 2 ^ 64"
  shows "holds p b \<longleftrightarrow> unat (b_addr b) + 24 \<le> unat p \<and> unat p < unat (b_addr b) + 24 + unat (b_size b)"
proof -
  have "unat (b_addr b + sizeof_Block) = unat (b_addr b) + 24"
    using assms by (subst unat_add_word) (simp_all add: sizeof_Block_def)
  moreover then have "unat (b_addr b + sizeof_Block + b_size b) = unat (b_addr b) + 24 + unat (b_size b)"
    using assms by (subst unat_add_word) simp_all
  ultimately show ?thesis by (simp add: holds_def Let_def word_le_nat_alt word_less_nat_alt)
qed

lemma tiled_holds_unique:
  assumes "tiled a bs e" "e < 2 ^ 64" "i < length bs" "j < length bs" "holds p (bs ! i)" "holds p (bs ! j)"
  shows "i = j"
  using assms
proof (induction bs arbitrary: a i j)
  case (Cons b bs)
  have t: "unat (b_addr b) = a" "tiled (a + 24 + unat (b_size b)) bs e" using Cons.prems(1) by simp_all
  have "a + 24 + unat (b_size b) < 2 ^ 64" using tiled_le [OF t(2)] Cons.prems(2) by simp
  then have here: "unat p < a + 24 + unat (b_size b)" if "holds p b" using holds_nat [of b p] that t(1) by simp
  have there: "a + 24 + unat (b_size b) \<le> unat p" if "l < length bs" "holds p (bs ! l)" for l
    using tiled_bounds [OF t(2) nth_mem [OF that(1)]] holds_nat [of "bs ! l" p] that Cons.prems(2) by simp
  show ?case
    using Cons.prems Cons.IH [OF t(2) Cons.prems(2)] here there
    by (cases i; cases j) (auto dest!: there)
qed simp

lemma heap_free_spec:
  assumes inv: "heap_inv h" and u: "(c, m) \<in> used (blocks h)" and p: "unat c + 24 \<le> unat p" "unat p < unat c + 24 + unat m"
  shows "heap_inv (heap_free p h) \<and> used (blocks (heap_free p h)) = used (blocks h) - {(c, m)}"
proof -
  let ?bs = "blocks h" and ?a = "unat (heap_start h)" and ?e = "unat (heap_end h)"
  have tile: "tiled ?a ?bs ?e" using inv by (simp add: heap_inv_def)
  have e: "?e < 2 ^ 64" by (rule order.strict_trans2 [OF unsigned_less]) simp
  obtain j where j: "j < length ?bs" "\<not> b_free (?bs ! j)" "b_addr (?bs ! j) = c" "b_size (?bs ! j) = m"
    using u by (auto simp: used_def in_set_conv_nth)
  have hj: "holds p (?bs ! j)"
    using holds_nat [of "?bs ! j" p] tiled_bounds [OF tile nth_mem [OF j(1)]] e p j by simp
  then obtain i where i: "find_idx (holds p) ?bs = Some i"
    using find_idx_None [of "holds p" ?bs] j(1) by (cases "find_idx (holds p) ?bs") (auto dest: nth_mem)
  then have "i < length ?bs" "holds p (?bs ! i)" by (auto simp: find_idx_Some)
  then have ij: "i = j" using tiled_holds_unique [OF tile e _ j(1) _ hj] by blast
  have split: "?bs = take j ?bs @ ?bs ! j # drop (Suc j) ?bs" using j(1) by (simp add: id_take_nth_drop)
  obtain x where x: "tiled ?a (take j ?bs) x" "tiled x (?bs ! j # drop (Suc j) ?bs) ?e"
    using tile tiled_append [of ?a "take j ?bs" "?bs ! j # drop (Suc j) ?bs" ?e] split by auto
  obtain b' post where mn: "merge_next ((?bs ! j)\<lparr>b_free := True\<rparr>) (drop (Suc j) ?bs) = (b', post)"
    by (cases "merge_next ((?bs ! j)\<lparr>b_free := True\<rparr>) (drop (Suc j) ?bs)")
  have b': "tiled x (b' # post) ?e" "b_free b'" "used post = used (drop (Suc j) ?bs)"
    using merge_next_spec [OF _ e mn, of x] x(2) by simp_all
  note mp = merge_prev_spec [OF x(1) b'(1) e b'(2)]
  have p0: "p \<noteq> 0" using p(1) by auto
  have bl: "blocks (heap_free p h) = merge_prev (take j ?bs) b' @ post" "heap_start (heap_free p h) = heap_start h"
      "heap_end (heap_free p h) = heap_end h"
    using i ij mn p0 by (simp_all add: heap_free_def)
  have "used ?bs = insert (c, m) (used (take j ?bs) \<union> used (drop (Suc j) ?bs))"
    using j arg_cong [OF split, of used] by simp
  moreover have "(c, m) \<notin> used (take j ?bs)"
    using tiled_bounds [OF x(1)] x(2) j by (fastforce simp: used_def)
  moreover have "(c, m) \<notin> used (drop (Suc j) ?bs)"
    using tiled_bounds [of "x + 24 + unat m" "drop (Suc j) ?bs" ?e] x(2) j by (fastforce simp: used_def)
  ultimately show ?thesis using mp bl b'(3) by (auto simp: heap_inv_def)
qed


section \<open>Allocation and release\<close>

definition heap_disjoint :: "(u64 \<times> u64) set \<Rightarrow> bool" where
  "heap_disjoint U \<longleftrightarrow> (\<forall>(p, m) \<in> U. \<forall>(q, n) \<in> U. (p, m) = (q, n) \<or> unat p + 24 + unat m \<le> unat q \<or> unat q + 24 + unat n \<le> unat p)"

lemma heap_inv_disjoint: "heap_inv h \<Longrightarrow> heap_disjoint (used (blocks h))"
  unfolding heap_inv_def heap_disjoint_def using tiled_used_disjoint by fast

lemma allocate_spec:
  assumes inv: "heap_inv h" and k: "k < 64" and n: "0 < unat n"
    and room: "2 * (unat n + 2 ^ max 4 k) + unat (heap_end h) + 8192 < 2 ^ 64"
  shows "\<exists>p s' h'. allocate n (2 ^ k) (s, h) = Some (p, s', h') \<and> heap_inv h' \<and>
    (p = 0 \<and> used (blocks h') = used (blocks h) \<or> p \<noteq> 0 \<and> taken p (unat n) (max 4 k) (used (blocks h)) (used (blocks h')))"
proof -
  define h0 where "h0 = upd_heap_diag (\<lambda>d. d\<lparr>allocation_calls := allocation_calls d + 1\<rparr>) h"
  have h0: "heap_inv h0" "blocks h0 = blocks h" "heap_end h0 = heap_end h" using inv by (simp_all add: h0_def heap_inv_def)
  have two: "unat (2 ^ k :: u64) = 2 ^ k"
    using unat_of_nat_small [where 'a = 64, of "2 ^ k"] power_strict_increasing [OF k, of "2 :: nat"] by simp
  have "(2 ^ k :: u64) < 16 \<longleftrightarrow> k < 4"
    using two power_strict_increasing_iff [of "2 :: nat" k 4] by (simp add: word_less_nat_alt)
  then have al: "(if (2 ^ k :: u64) < 16 then 16 else 2 ^ k) = (2 ^ max 4 k :: u64)" by (auto simp: max_def)
  have "n \<noteq> 0" using n by auto
  then have "allocate n (2 ^ k) (s, h) = alloc_loop n (2 ^ max 4 k) (s, h0)"
    by (simp add: allocate_def h0_def al [symmetric] del: al)
  then show ?thesis using alloc_loop_spec [OF h0(1) _ n, of "max 4 k" s] k room h0 by simp
qed


definition demo_heap :: heap where
  "demo_heap = initial_heap\<lparr>heap_end := 0xffff800000010000,
     blocks := [\<lparr>b_addr = 0xffff800000000000, b_size = 0xffe8, b_free = True\<rparr>]\<rparr>"

lemma demo_heap_inv: "heap_inv demo_heap"
  by (simp add: heap_inv_def demo_heap_def initial_heap_def)


text \<open>C14. Freeing any address inside what \<open>allocate\<close> returned takes that block, and no other, out of use
  again, keeps the heap well formed through the merging with free neighbours, and restores the set
  of blocks in use from before the allocation.\<close>

theorem heap_free_roundtrip:
  assumes "heap_inv h" "k < 64" "0 < unat n" "2 * (unat n + 2 ^ max 4 k) + unat (heap_end h) + 8192 < 2 ^ 64"
    and a: "allocate n (2 ^ k) (s, h) = Some (p, s', h')" "p \<noteq> 0" and q: "unat p \<le> unat q" "unat q < unat p + unat n"
  shows "heap_inv (heap_free q h') \<and> used (blocks (heap_free q h')) = used (blocks h)"
proof -
  have h': "heap_inv h'" "taken p (unat n) (max 4 k) (used (blocks h)) (used (blocks h'))"
    using allocate_spec [OF assms(1-4), of s] a by auto
  then obtain c m where c: "\<forall>m'. (c, m') \<notin> used (blocks h)" "used (blocks h') = insert (c, m) (used (blocks h))"
      "unat c + 24 \<le> unat p" "unat p + unat n \<le> unat c + 24 + unat m"
    by (auto simp: taken_def)
  have "heap_inv (heap_free q h') \<and> used (blocks (heap_free q h')) = used (blocks h') - {(c, m)}"
    using heap_free_spec [OF h'(1), of c m q] c q by simp
  then show ?thesis using c by auto
qed

theorem heap_free_roundtrip_witness:
  "\<exists>s' h'. allocate 100 (2 ^ 4) (demo_machine, demo_heap) = Some (0xffff800000000020, s', h') \<and>
    used (blocks (heap_free 0xffff800000000030 h')) = {}"
proof -
  have "\<exists>s' h'. allocate 100 (2 ^ 4) (demo_machine, demo_heap) = Some (0xffff800000000020, s', h')"
    by (simp add: allocate_def demo_heap_def alloc_loop.simps [of _ _ "(s, h)" for s h] fits_def align_ptr_def sizeof_Block_def Let_def)
  then obtain s' h' where a: "allocate 100 (2 ^ 4) (demo_machine, demo_heap) = Some (0xffff800000000020, s', h')" by blast
  have "used (blocks demo_heap) = {}" "unat (heap_end demo_heap) = 0xffff800000010000"
    by (simp_all add: demo_heap_def)
  then show ?thesis
    using heap_free_roundtrip [OF demo_heap_inv _ _ _ a, of "0xffff800000000030"] a by auto
qed

text \<open>The product in \<open>calloc\<close> and the sum with the padding in \<open>allocate\<close> wrap: a request for more than the
  address space is answered with a block of two bytes, or with one at the start of the heap.\<close>

lemma calloc_wraps:
  "calloc 0x8000000000000001 2 (s, h) = calloc 1 2 (s, h)"
proof -
  have "0x8000000000000001 * 2 = (1 * 2 :: u64)" by simp
  then show ?thesis unfolding calloc_def by (simp only:)
qed

lemma allocate_wraps: "fits (- 8) 16 \<lparr>b_addr = 0xffff800000000000, b_size = 0xffe8, b_free = True\<rparr>"
  by (simp add: fits_def align_ptr_def sizeof_Block_def Let_def)

end
