(* ===== verification/Sched.thy ===== *)
theory Sched
  imports Paging
begin

text \<open>
  The thread scheduler (\<open>kernel/src/sched/scheduler.cpp\<close>): thread creation on top of the memory
  managers, the round-robin choice of the next thread, and every operation that switches threads.
  Interrupts are disabled inside the operations, so each is one step.
\<close>

section \<open>State\<close>

datatype ThreadState = Ready | Running | Blocked | Sleeping | Dead

record Thread =
  th_id :: u64
  th_state :: ThreadState
  kernel_stack_base :: u64
  kernel_stack_top :: u64
  saved_rsp :: u64
  th_entry :: u64
  th_argument :: u64
  th_name :: cstr
  affinity_mask :: u64
  switches :: u64
  wake_tick :: u64

record ThreadSnapshot =
  sn_id :: u64
  sn_state :: ThreadState
  sn_name :: cstr
  sn_affinity_mask :: u64
  sn_switches :: u64
  sn_wake_tick :: u64

text \<open>The used prefix of the array \<open>threads_\<close>, whose length is \<open>count_\<close>; thread pointers are
  indices, and \<open>None\<close> is the null pointer.\<close>

record sched =
  threads :: "Thread list"
  next_id :: u64
  switch_count :: u64
  yield_count :: u64
  preempt_count :: u64
  current :: "nat option"
  idle :: "nat option"
  current_index :: nat

definition kKernelStackVirtBase :: u64 where "kKernelStackVirtBase = 0xffff800000400000"
definition kKernelStackPages :: u64 where "kKernelStackPages = 4"
definition kKernelStackStride :: u64 where "kKernelStackStride = kKernelStackPages * kPageSize"

definition upd_thread :: "nat \<Rightarrow> (Thread \<Rightarrow> Thread) \<Rightarrow> sched \<Rightarrow> sched" where
  "upd_thread i f s = s\<lparr>threads := (threads s)[i := f (threads s ! i)]\<rparr>"

definition set_state :: "nat \<Rightarrow> ThreadState \<Rightarrow> sched \<Rightarrow> sched" where
  "set_state i st = upd_thread i (\<lambda>t. t\<lparr>th_state := st\<rparr>)"

section \<open>Creating threads\<close>

text \<open>A store to a virtual address of the kernel.\<close>

definition vstore64 :: "u64 \<times> u64 \<Rightarrow> machine \<Rightarrow> machine" where
  "vstore64 av m = m\<lparr>m_mem := store64 (m_mem m) (vmm_translate m (fst av)) (snd av)\<rparr>"

text \<open>The register frame the first switch to the thread pops; \<open>tramp\<close> is the address of
  \<open>thread_trampoline\<close>.\<close>

definition initial_frame :: "u64 \<Rightarrow> u64 \<Rightarrow> u64 \<Rightarrow> u64 \<Rightarrow> (nat \<times> u64) list" where
  "initial_frame tramp entry argument stack_top =
     map (\<lambda>i. (i, 0)) [0..<22] @
     [(9, entry), (10, argument), (15, 0), (16, 0), (17, tramp), (18, 0x08), (19, 0x202), (20, stack_top), (21, 0x10)]"

definition create_kernel_thread ::
  "u64 \<Rightarrow> sched \<times> machine \<Rightarrow> cstr \<Rightarrow> u64 \<Rightarrow> u64 \<Rightarrow> u64 \<Rightarrow> nat option \<times> sched \<times> machine" where
  "create_kernel_thread tramp sm name entry argument affinity =
     (let (s, m) = sm
      in if 32 \<le> length (threads s) \<or> entry = 0 then (None, s, m) else
      let (stack_phys, p) = allocate_contiguous (m_pmm m) 4;
          m = m\<lparr>m_pmm := p\<rparr>
      in if stack_phys = 0 then (None, s, m) else
      let stack_virt = kKernelStackVirtBase + of_nat (length (threads s)) * kKernelStackStride;
          (mapped, m) = map_range m stack_virt stack_phys kKernelStackStride (PageWrite OR PageGlobal)
      in if \<not> mr_ok mapped then (None, s, m) else
      let stack_top = stack_virt + kKernelStackStride - 64;
          frame = stack_top - 22 * 8;
          m = fold vstore64 (map (\<lambda>(i, v). (frame + 8 * of_nat i, v)) (initial_frame tramp entry argument stack_top)) m;
          t = \<lparr>th_id = next_id s, th_state = Ready, kernel_stack_base = stack_virt, kernel_stack_top = stack_top,
               saved_rsp = frame, th_entry = entry, th_argument = argument, th_name = name,
               affinity_mask = affinity, switches = 0, wake_tick = 0\<rparr>
      in (Some (length (threads s)), s\<lparr>threads := threads s @ [t], next_id := next_id s + 1\<rparr>, m))"

definition bootstrap_thread :: "u64 \<Rightarrow> Thread" where
  "bootstrap_thread i = \<lparr>th_id = i, th_state = Running, kernel_stack_base = 0, kernel_stack_top = 0, saved_rsp = 0,
     th_entry = 0, th_argument = 0, th_name = Some ''bootstrap'', affinity_mask = 1, switches = 0, wake_tick = 0\<rparr>"

text \<open>\<open>idle_entry\<close> is the address of the idle loop.\<close>

definition sched_initialize :: "u64 \<Rightarrow> u64 \<Rightarrow> sched \<times> machine \<Rightarrow> sched \<times> machine" where
  "sched_initialize tramp idle_entry sm =
     (let (s, m) = sm;
          s = s\<lparr>threads := [bootstrap_thread 1], next_id := 2, switch_count := 0, yield_count := 0,
                preempt_count := 0, current := Some 0, current_index := 0\<rparr>;
          (i, s, m) = create_kernel_thread tramp (s, m) (Some ''idle'') idle_entry 0 1;
          s = s\<lparr>idle := i\<rparr>
      in (case i of None \<Rightarrow> s | Some i \<Rightarrow> set_state i Ready s, m))"

section \<open>Switching\<close>

definition runnable :: "sched \<Rightarrow> nat \<Rightarrow> bool" where
  "runnable s i \<longleftrightarrow> Some i \<noteq> idle s \<and> th_state (threads s ! i) = Ready"

definition pick_next :: "sched \<Rightarrow> nat option \<times> sched" where
  "pick_next s =
     (let n = length (threads s)
      in if n = 0 then (None, s)
         else case find (\<lambda>step. runnable s ((current_index s + step) mod n)) [1..<Suc n] of
                Some step \<Rightarrow> let index = (current_index s + step) mod n
                             in (Some index, s\<lparr>current_index := index\<rparr>)
              | None \<Rightarrow> (idle s, s))"

text \<open>\<open>rsp\<close> is the stack pointer of the caller, which \<open>context_switch\<close> saves; the result is the stack
  pointer execution goes on with.\<close>

definition switch_from_current :: "sched \<Rightarrow> u64 \<Rightarrow> ThreadState \<Rightarrow> u64 \<times> sched" where
  "switch_from_current s rsp previous_state =
     (case current s of
        None \<Rightarrow> (rsp, s)
      | Some previous \<Rightarrow>
          let s = set_state previous previous_state s;
              (next, s) = pick_next s
          in (case next of
                None \<Rightarrow> (rsp, set_state previous Running s)
              | Some n \<Rightarrow>
                  if n = previous then (rsp, set_state previous Running s)
                  else let s = set_state n Running (s\<lparr>current := Some n\<rparr>);
                           s = s\<lparr>switch_count := switch_count s + 1\<rparr>;
                           s = upd_thread n (\<lambda>t. t\<lparr>switches := switches t + 1\<rparr>) s;
                           s = upd_thread previous (\<lambda>t. t\<lparr>saved_rsp := rsp\<rparr>) s
                       in (saved_rsp (threads s ! n), s)))"

definition wake_thread :: "u64 \<Rightarrow> Thread \<Rightarrow> Thread" where
  "wake_thread now t =
     (if th_state t = Sleeping \<and> wake_tick t \<le> now then t\<lparr>th_state := Ready, wake_tick := 0\<rparr> else t)"

definition wake_sleepers :: "u64 \<Rightarrow> sched \<Rightarrow> sched" where
  "wake_sleepers now s = s\<lparr>threads := map (wake_thread now) (threads s)\<rparr>"

text \<open>\<open>ticks\<close> is the value of \<open>hk::timer::ticks()\<close> at the interrupt.\<close>

definition schedule_from_interrupt :: "u64 \<Rightarrow> sched \<Rightarrow> u64 \<Rightarrow> u64 \<times> sched" where
  "schedule_from_interrupt ticks s interrupted_rsp =
     (case current s of
        None \<Rightarrow> (interrupted_rsp, s)
      | Some c \<Rightarrow>
          let s = upd_thread c (\<lambda>t. t\<lparr>saved_rsp := interrupted_rsp\<rparr>) s;
              s = (if th_state (threads s ! c) = Running then set_state c Ready s else s);
              s = wake_sleepers ticks s;
              (next, s) = pick_next s
          in (case next of
                None \<Rightarrow> (interrupted_rsp, set_state c Running s)
              | Some n \<Rightarrow>
                  if n = c then (interrupted_rsp, set_state c Running s)
                  else let s = set_state n Running (s\<lparr>current := Some n\<rparr>);
                           s = s\<lparr>switch_count := switch_count s + 1, preempt_count := preempt_count s + 1\<rparr>;
                           s = upd_thread n (\<lambda>t. t\<lparr>switches := switches t + 1\<rparr>) s
                       in (saved_rsp (threads s ! n), s)))"

definition yield :: "u64 \<Rightarrow> sched \<Rightarrow> u64 \<times> sched" where
  "yield rsp s =
     (if current s = None then (rsp, s)
      else switch_from_current (s\<lparr>yield_count := yield_count s + 1\<rparr>) rsp Ready)"

text \<open>\<open>None\<close>: there is neither a runnable thread nor an idle thread, and the code dereferences the
  null pointer.\<close>

definition exit_current_thread :: "u64 \<Rightarrow> sched \<Rightarrow> (u64 \<times> sched) option" where
  "exit_current_thread rsp s =
     (let s = (case current s of None \<Rightarrow> s
                | Some c \<Rightarrow> if Some c \<noteq> idle s then set_state c Dead s else s);
          (next, s) = pick_next s;
          next = (if next = None then idle s else next);
          previous = current s
      in case next of
           None \<Rightarrow> None
         | Some n \<Rightarrow>
             (let s = set_state n Running (s\<lparr>current := Some n\<rparr>);
                  s = s\<lparr>switch_count := switch_count s + 1\<rparr>
              in case previous of
                   None \<Rightarrow> None
                 | Some p \<Rightarrow> let new_rsp = saved_rsp (threads s ! n)
                             in Some (new_rsp, upd_thread p (\<lambda>t. t\<lparr>saved_rsp := rsp\<rparr>) s)))"

definition block_current_thread :: "u64 \<Rightarrow> sched \<Rightarrow> u64 \<times> sched" where
  "block_current_thread rsp s = switch_from_current s rsp Blocked"

definition sleep_current_until :: "u64 \<Rightarrow> sched \<Rightarrow> u64 \<Rightarrow> u64 \<times> sched" where
  "sleep_current_until rsp s tick =
     (let s = (case current s of None \<Rightarrow> s
                | Some c \<Rightarrow> if Some c \<noteq> idle s then upd_thread c (\<lambda>t. t\<lparr>wake_tick := tick\<rparr>) s else s)
      in switch_from_current s rsp Sleeping)"

definition count_state :: "ThreadState \<Rightarrow> sched \<Rightarrow> u64" where
  "count_state st s = fold (\<lambda>t n. if th_state t = st then n + 1 else n) (threads s) 0"

definition ready_count :: "sched \<Rightarrow> u64" where "ready_count = count_state Ready"
definition sleeping_count :: "sched \<Rightarrow> u64" where "sleeping_count = count_state Sleeping"
definition dead_count :: "sched \<Rightarrow> u64" where "dead_count = count_state Dead"

definition snapshot_thread :: "sched \<Rightarrow> nat \<Rightarrow> ThreadSnapshot option" where
  "snapshot_thread s index =
     (if length (threads s) \<le> index then None
      else let t = threads s ! index
           in Some \<lparr>sn_id = th_id t, sn_state = th_state t, sn_name = th_name t, sn_affinity_mask = affinity_mask t,
                    sn_switches = switches t, sn_wake_tick = wake_tick t\<rparr>)"

section \<open>Field lemmas\<close>

lemma upd_thread_fields [sched_simps]:
  "threads (upd_thread i f s) = (threads s)[i := f (threads s ! i)]"
  "next_id (upd_thread i f s) = next_id s" "current (upd_thread i f s) = current s"
  "idle (upd_thread i f s) = idle s" "current_index (upd_thread i f s) = current_index s"
  "switch_count (upd_thread i f s) = switch_count s"
  by (simp_all add: upd_thread_def)

lemma set_state_fields [sched_simps]:
  "threads (set_state i st s) = (threads s)[i := (threads s ! i)\<lparr>th_state := st\<rparr>]"
  "next_id (set_state i st s) = next_id s" "current (set_state i st s) = current s"
  "idle (set_state i st s) = idle s" "current_index (set_state i st s) = current_index s"
  "switch_count (set_state i st s) = switch_count s"
  by (simp_all add: set_state_def sched_simps)

lemma wake_sleepers_fields [sched_simps]:
  "length (threads (wake_sleepers now s)) = length (threads s)"
  "i < length (threads s) \<Longrightarrow> threads (wake_sleepers now s) ! i = wake_thread now (threads s ! i)"
  "next_id (wake_sleepers now s) = next_id s" "current (wake_sleepers now s) = current s"
  "idle (wake_sleepers now s) = idle s" "current_index (wake_sleepers now s) = current_index s"
  by (simp_all add: wake_sleepers_def)

lemma wake_thread_fields [sched_simps]:
  "th_id (wake_thread now t) = th_id t"
  "th_state (wake_thread now t) = Running \<longleftrightarrow> th_state t = Running"
  "th_state t = Ready \<Longrightarrow> th_state (wake_thread now t) = Ready"
  "saved_rsp (wake_thread now t) = saved_rsp t"
  by (auto simp: wake_thread_def)

section \<open>The round-robin choice\<close>

text \<open>How far, cyclically, thread \<open>j\<close> is from the thread after \<open>ci\<close>.\<close>

definition cdist :: "nat \<Rightarrow> nat \<Rightarrow> nat \<Rightarrow> nat" where
  "cdist n ci j = (j + n - Suc ci) mod n"

lemma cdist_cases:
  assumes "ci < n" and "j < n"
  shows "cdist n ci j = (if ci < j then j - Suc ci else j + n - Suc ci)"
proof (cases "ci < j")
  case True
  then have "j + n - Suc ci = j - Suc ci + n" by simp
  then show ?thesis
    using True assms unfolding cdist_def by (metis mod_add_self2 mod_less less_imp_diff_less)
qed (use assms in \<open>simp add: cdist_def\<close>)

lemma cdist_less: "0 < n \<Longrightarrow> cdist n ci j < n"
  by (simp add: cdist_def)

lemma cdist_index:
  assumes "ci < n" and "step < n"
  shows "cdist n ci ((ci + Suc step) mod n) = step"
proof (cases "ci + Suc step < n")
  case True
  then show ?thesis using assms by (simp add: cdist_cases)
next
  case False
  then have "(ci + Suc step) mod n = ci + Suc step - n" using assms by (simp add: mod_if)
  then show ?thesis using assms False by (simp add: cdist_cases) linarith
qed

lemma index_cdist:
  assumes "ci < n" and "j < n"
  shows "(ci + Suc (cdist n ci j)) mod n = j"
  using assms by (auto simp: cdist_cases mod_if)

lemma cdist_closer:
  assumes "ci < n" and "i < n" and "k < n" and "cdist n ci i < cdist n ci k"
  shows "cdist n i k < cdist n ci k"
  using assms by (auto simp: cdist_cases split: if_splits)

lemma pick_next_cases:
  assumes "current_index s < length (threads s)"
  obtains (found) i where "fst (pick_next s) = Some i" and "i < length (threads s)" and "runnable s i"
      and "snd (pick_next s) = s\<lparr>current_index := i\<rparr>"
      and "\<And>k. k < length (threads s) \<Longrightarrow> runnable s k \<Longrightarrow>
        cdist (length (threads s)) (current_index s) i \<le> cdist (length (threads s)) (current_index s) k"
  | (none) "fst (pick_next s) = idle s" and "snd (pick_next s) = s" and "\<And>k. k < length (threads s) \<Longrightarrow> \<not> runnable s k"
proof -
  let ?n = "length (threads s)" and ?ci = "current_index s"
  let ?P = "\<lambda>step. runnable s ((?ci + step) mod ?n)"
  have n: "0 < ?n" using assms by linarith
  show ?thesis
  proof (cases "find ?P [1..<Suc ?n]")
    case None
    have "\<not> runnable s k" if "k < ?n" for k
    proof -
      have "Suc (cdist ?n ?ci k) \<in> set [1..<Suc ?n]"
        using cdist_less [OF n, of ?ci k] by (simp only: set_upt) simp
      then have "\<not> ?P (Suc (cdist ?n ?ci k))" using None unfolding find_None_iff by blast
      then show ?thesis unfolding index_cdist [OF assms that] .
    qed
    then show ?thesis using none None n by (simp add: pick_next_def Let_def del: upt_Suc)
  next
    case (Some step)
    then obtain j where j: "j < length [1..<Suc ?n]" "?P ([1..<Suc ?n] ! j)" "step = [1..<Suc ?n] ! j"
      and first: "\<forall>l < j. \<not> ?P ([1..<Suc ?n] ! l)"
      unfolding find_Some_iff by blast
    have step: "step = Suc j" "j < ?n" using j(1,3) by (simp_all del: upt_Suc)
    let ?i = "(?ci + step) mod ?n"
    have dist: "cdist ?n ?ci ?i = j" using cdist_index [OF assms step(2)] step(1) by simp
    have near: "cdist ?n ?ci ?i \<le> cdist ?n ?ci k" if k: "k < ?n" "runnable s k" for k
    proof (rule ccontr)
      assume "\<not> ?thesis"
      then have "cdist ?n ?ci k < j" using dist by simp
      then have "\<not> ?P ([1..<Suc ?n] ! cdist ?n ?ci k)" using first by blast
      moreover have "[1..<Suc ?n] ! cdist ?n ?ci k = Suc (cdist ?n ?ci k)"
        using cdist_less [OF n, of ?ci k] by (simp del: upt_Suc)
      ultimately show False using k(2) index_cdist [OF assms k(1)] by simp
    qed
    have "pick_next s = (Some ?i, s\<lparr>current_index := ?i\<rparr>)"
      using Some n by (simp add: pick_next_def Let_def del: upt_Suc)
    moreover have "runnable s ?i" using j(2,3) by simp
    ultimately show ?thesis using found [of ?i] near n by simp
  qed
qed

section \<open>The invariant\<close>

text \<open>Exactly the current thread is running; identifiers are the positions in the table; outside the
  idle thread \<open>current_index_\<close> is the position of the current thread.\<close>

definition sched_inv :: "sched \<Rightarrow> bool" where
  "sched_inv s \<longleftrightarrow> length (threads s) \<le> 32 \<and> current_index s < length (threads s)
     \<and> (\<exists>c < length (threads s). current s = Some c
          \<and> (\<forall>i < length (threads s). th_state (threads s ! i) = Running \<longleftrightarrow> i = c)
          \<and> (idle s \<noteq> Some c \<longrightarrow> current_index s = c))
     \<and> (\<forall>i. idle s = Some i \<longrightarrow> i < length (threads s))
     \<and> (\<forall>i < length (threads s). th_id (threads s ! i) = of_nat (Suc i))
     \<and> next_id s = of_nat (Suc (length (threads s)))"

lemma sched_invE:
  assumes "sched_inv s"
  obtains c where "current s = Some c" and "c < length (threads s)"
    and "\<forall>i < length (threads s). th_state (threads s ! i) = Running \<longleftrightarrow> i = c"
  using assms by (auto simp: sched_inv_def)

text \<open>What all switching operations do to the table: apart from the states of the threads, nothing the
  invariant mentions changes, and thread \<open>n\<close> ends up as the only running one.\<close>

lemma sched_inv_dispatch:
  assumes inv: "sched_inv s"
    and len: "length (threads s') = length (threads s)"
    and ids: "\<And>i. i < length (threads s) \<Longrightarrow> th_id (threads s' ! i) = th_id (threads s ! i)"
    and rest: "next_id s' = next_id s" "idle s' = idle s" "current_index s' < length (threads s)"
    and n: "current s' = Some n" "n < length (threads s)" "idle s \<noteq> Some n \<Longrightarrow> current_index s' = n"
    and run: "\<And>i. i < length (threads s) \<Longrightarrow> th_state (threads s' ! i) = Running \<longleftrightarrow> i = n"
  shows "sched_inv s'"
  using inv len ids rest n run unfolding sched_inv_def by auto

text \<open>The outcome of a switching operation from \<open>c\<close> that leaves the table as \<open>t\<close> before the choice.\<close>

definition switched :: "sched \<Rightarrow> sched \<Rightarrow> bool" where
  "switched t s' \<longleftrightarrow> length (threads s') = length (threads t)
     \<and> (\<forall>i < length (threads t). th_id (threads s' ! i) = th_id (threads t ! i))
     \<and> next_id s' = next_id t \<and> idle s' = idle t
     \<and> current_index s' = current_index (snd (pick_next t))
     \<and> (\<exists>n. (fst (pick_next t) = Some n \<or> fst (pick_next t) = None \<and> current t = Some n)
          \<and> current s' = Some n
          \<and> (\<forall>i < length (threads t). th_state (threads s' ! i) = (if i = n then Running else th_state (threads t ! i))))"

lemma switched_inv:
  assumes inv: "sched_inv s" and sw: "switched t s'"
    and len: "length (threads t) = length (threads s)"
    and ids: "\<And>i. i < length (threads s) \<Longrightarrow> th_id (threads t ! i) = th_id (threads s ! i)"
    and rest: "next_id t = next_id s" "idle t = idle s" "current_index t = current_index s" "current t = current s"
    and quiet: "\<And>i. i < length (threads s) \<Longrightarrow> th_state (threads t ! i) \<noteq> Running"
  shows "sched_inv s'"
proof -
  have ci: "current_index t < length (threads t)" using inv len rest by (simp add: sched_inv_def)
  obtain c where c: "current s = Some c" "c < length (threads s)" "idle s \<noteq> Some c \<longrightarrow> current_index s = c"
    using inv unfolding sched_inv_def by blast
  have idle: "i < length (threads s)" if "idle s = Some i" for i using inv that by (simp add: sched_inv_def)
  obtain n where n: "fst (pick_next t) = Some n \<or> fst (pick_next t) = None \<and> current t = Some n"
      "current s' = Some n"
      "\<And>i. i < length (threads t) \<Longrightarrow> th_state (threads s' ! i) = (if i = n then Running else th_state (threads t ! i))"
    using sw by (auto simp: switched_def)
  have "n < length (threads s)" "idle s \<noteq> Some n \<Longrightarrow> current_index s' = n" "current_index s' < length (threads s)"
    using ci
  proof (atomize(full), cases rule: pick_next_cases)
    case (found i)
    then show "n < length (threads s) \<and> (idle s \<noteq> Some n \<longrightarrow> current_index s' = n) \<and> current_index s' < length (threads s)"
      using n(1) sw len by (simp add: switched_def)
  next
    case none
    then show "n < length (threads s) \<and> (idle s \<noteq> Some n \<longrightarrow> current_index s' = n) \<and> current_index s' < length (threads s)"
      using n(1) sw len rest c idle inv by (auto simp: switched_def sched_inv_def)
  qed
  then show ?thesis
    using sw len ids rest quiet n(2,3) by (intro sched_inv_dispatch [OF inv, of s' n]) (auto simp: switched_def)
qed

lemma pick_next_fields [sched_simps]:
  "threads (snd (pick_next s)) = threads s" "next_id (snd (pick_next s)) = next_id s"
  "idle (snd (pick_next s)) = idle s" "current (snd (pick_next s)) = current s"
  by (simp_all add: pick_next_def Let_def split: option.splits)

lemma switch_switched:
  assumes "current s = Some c" and "c < length (threads s)"
  shows "switched (set_state c st s) (snd (switch_from_current s rsp st))"
proof -
  obtain x t where p: "pick_next (set_state c st s) = (x, t)" by (cases "pick_next (set_state c st s)")
  have t: "threads t = threads (set_state c st s)" "next_id t = next_id s" "idle t = idle s" "current t = current s"
    using pick_next_fields [of "set_state c st s"] p by (simp_all add: sched_simps)
  show ?thesis
  proof (cases "x = None \<or> x = Some c")
    case True
    then have e: "snd (switch_from_current s rsp st) = set_state c Running t"
      using assms p by (auto simp: switch_from_current_def)
    show ?thesis
      unfolding e switched_def p using True t assms
      by (auto simp: sched_simps nth_update_at intro!: exI [of _ c])
  next
    case False
    then obtain n where n: "x = Some n" "n \<noteq> c" by auto
    show ?thesis
      unfolding switched_def p using n t assms p
      by (auto simp: switch_from_current_def Let_def sched_simps nth_update_at intro!: exI [of _ n])
  qed
qed

lemma interrupt_switched:
  assumes "current s = Some c" and "c < length (threads s)" and "th_state (threads s ! c) = Running"
  shows "\<exists>t. switched t (snd (schedule_from_interrupt ticks s rsp)) \<and>
    t = wake_sleepers ticks (set_state c Ready (upd_thread c (\<lambda>t. t\<lparr>saved_rsp := rsp\<rparr>) s))"
proof -
  define u where "u = wake_sleepers ticks (set_state c Ready (upd_thread c (\<lambda>t. t\<lparr>saved_rsp := rsp\<rparr>) s))"
  obtain x t where p: "pick_next u = (x, t)" by (cases "pick_next u")
  have t: "threads t = threads u" "next_id t = next_id u" "idle t = idle u" "current t = current u"
    using pick_next_fields [of u] p by (simp_all add: sched_simps)
  have len: "length (threads u) = length (threads s)" "current u = Some c" by (simp_all add: u_def sched_simps assms)
  have "switched u (snd (schedule_from_interrupt ticks s rsp))"
  proof (cases "x = None \<or> x = Some c")
    case True
    then have e: "snd (schedule_from_interrupt ticks s rsp) = set_state c Running t"
      using assms p by (auto simp: schedule_from_interrupt_def u_def sched_simps)
    show ?thesis
      unfolding e switched_def p using True t assms len
      by (auto simp: sched_simps nth_update_at intro!: exI [of _ c])
  next
    case False
    then obtain n where n: "x = Some n" "n \<noteq> c" by auto
    then have e: "snd (schedule_from_interrupt ticks s rsp) =
        upd_thread n (\<lambda>t. t\<lparr>switches := switches t + 1\<rparr>)
          ((set_state n Running (t\<lparr>current := Some n\<rparr>))\<lparr>switch_count := switch_count t + 1, preempt_count := preempt_count (set_state n Running (t\<lparr>current := Some n\<rparr>)) + 1\<rparr>)"
      using assms p by (auto simp: schedule_from_interrupt_def u_def sched_simps Let_def)
    show ?thesis
      unfolding e switched_def p using n t assms len
      by (auto simp: sched_simps nth_update_at intro!: exI [of _ n])
  qed
  then show ?thesis by (simp add: u_def)
qed

section \<open>Preservation\<close>

lemma switch_inv:
  assumes inv: "sched_inv s" and st: "st \<noteq> Running"
  shows "sched_inv (snd (switch_from_current s rsp st))"
proof -
  obtain c where c: "current s = Some c" "c < length (threads s)"
      "\<forall>i < length (threads s). th_state (threads s ! i) = Running \<longleftrightarrow> i = c"
    using inv by (rule sched_invE)
  show ?thesis
    using c st by (intro switched_inv [OF inv switch_switched [OF c(1,2)]]) (auto simp: sched_simps nth_update_at)
qed

lemma interrupt_inv:
  assumes inv: "sched_inv s"
  shows "sched_inv (snd (schedule_from_interrupt ticks s rsp))"
proof -
  obtain c where c: "current s = Some c" "c < length (threads s)"
      "\<forall>i < length (threads s). th_state (threads s ! i) = Running \<longleftrightarrow> i = c"
    using inv by (rule sched_invE)
  have sw: "switched (wake_sleepers ticks (set_state c Ready (upd_thread c (\<lambda>t. t\<lparr>saved_rsp := rsp\<rparr>) s)))
      (snd (schedule_from_interrupt ticks s rsp))"
    using interrupt_switched [OF c(1,2)] c(2,3) by simp
  show ?thesis
    by (rule switched_inv [OF inv sw]) (use c in \<open>auto simp: sched_simps nth_update_at\<close>)
qed

lemma sched_inv_other [sched_simps]: "sched_inv (s\<lparr>yield_count := n\<rparr>) = sched_inv s"
  by (simp add: sched_inv_def)

lemma sched_inv_upd:
  assumes "sched_inv s" and "\<And>t. th_state (f t) = th_state t" and "\<And>t. th_id (f t) = th_id t"
  shows "sched_inv (upd_thread i f s)"
proof -
  have "th_state ((threads s)[i := f (threads s ! i)] ! j) = th_state (threads s ! j)"
    "th_id ((threads s)[i := f (threads s ! i)] ! j) = th_id (threads s ! j)" if "j < length (threads s)" for j
    using assms(2,3) that by (simp_all add: nth_update_at)
  then show ?thesis using assms(1) by (auto simp: sched_inv_def sched_simps)
qed

lemma yield_inv: "sched_inv s \<Longrightarrow> sched_inv (snd (yield rsp s))"
  by (simp add: yield_def switch_inv sched_simps)

lemma block_inv: "sched_inv s \<Longrightarrow> sched_inv (snd (block_current_thread rsp s))"
  by (simp add: block_current_thread_def switch_inv)

lemma sleep_inv: "sched_inv s \<Longrightarrow> sched_inv (snd (sleep_current_until rsp s tick))"
  by (simp add: sleep_current_until_def Let_def switch_inv sched_inv_upd split: option.splits)

lemma wake_inv: "sched_inv s \<Longrightarrow> sched_inv (wake_sleepers now s)"
  by (auto simp: sched_inv_def sched_simps)

lemma exit_inv:
  assumes inv: "sched_inv s" and ni: "current s \<noteq> idle s" and e: "exit_current_thread rsp s = Some (x, s')"
  shows "sched_inv s'"
proof -
  obtain c where c: "current s = Some c" "c < length (threads s)"
      "\<forall>i < length (threads s). th_state (threads s ! i) = Running \<longleftrightarrow> i = c"
    using inv by (rule sched_invE)
  define t where "t = set_state c Dead s"
  obtain y u where p: "pick_next t = (y, u)" by (cases "pick_next t")
  have u: "threads u = threads t" "next_id u = next_id t" "idle u = idle t" "current u = current t"
    using pick_next_fields [of t] p by simp_all
  have "threads t \<noteq> []" using c(2) by (auto simp: t_def sched_simps)
  then have y: "y = None \<Longrightarrow> idle t = None" using p by (auto simp: pick_next_def Let_def split: if_splits option.splits)
  have len: "length (threads t) = length (threads s)" and ct: "current t = Some c"
    by (simp_all add: t_def sched_simps c(1))
  obtain n where n: "y = Some n"
    and s': "s' = upd_thread c (\<lambda>t. t\<lparr>saved_rsp := rsp\<rparr>) ((set_state n Running (u\<lparr>current := Some n\<rparr>))\<lparr>switch_count := switch_count u + 1\<rparr>)"
    using e c(1) ni p y u ct by (cases y) (auto simp: exit_current_thread_def t_def [symmetric] Let_def sched_simps)
  have sw: "switched t s'"
    unfolding switched_def p s' using n u c(2) len
    by (auto simp: sched_simps nth_update_at intro!: exI [of _ n])
  show ?thesis
    by (rule switched_inv [OF inv sw]) (use c in \<open>auto simp: t_def sched_simps nth_update_at\<close>)
qed

lemma create_effect:
  assumes "create_kernel_thread tramp (s, m) name entry arg aff = (r, s', m')"
  shows "r = None \<and> s' = s \<or>
    r = Some (length (threads s)) \<and> length (threads s) < 32
      \<and> (\<exists>t. s' = s\<lparr>threads := threads s @ [t], next_id := next_id s + 1\<rparr> \<and> th_state t = Ready \<and> th_id t = next_id s)"
  using assms
  by (auto simp: create_kernel_thread_def Let_def split: if_splits prod.splits)

lemma create_inv:
  assumes inv: "sched_inv s" and e: "create_kernel_thread tramp (s, m) name entry arg aff = (r, s', m')"
  shows "sched_inv s'"
proof (cases "r = None")
  case False
  then obtain t where t: "length (threads s) < 32" "s' = s\<lparr>threads := threads s @ [t], next_id := next_id s + 1\<rparr>"
      "th_state t = Ready" "th_id t = next_id s"
    using create_effect [OF e] by auto
  then show ?thesis using inv by (auto simp: sched_inv_def nth_append less_Suc_eq)
qed (use create_effect [OF e] inv in auto)

lemma initialize_inv: "sched_inv (fst (sched_initialize tramp idle_entry sm))"
proof -
  obtain s m where sm: "sm = (s, m)" by (cases sm)
  let ?s = "s\<lparr>threads := [bootstrap_thread 1], next_id := 2, switch_count := 0, yield_count := 0,
                preempt_count := 0, current := Some 0, current_index := 0\<rparr>"
  obtain r s' m' where e: "create_kernel_thread tramp (?s, m) (Some ''idle'') idle_entry 0 1 = (r, s', m')"
    by (cases "create_kernel_thread tramp (?s, m) (Some ''idle'') idle_entry 0 1") auto
  have "r = None \<and> s' = ?s \<or> r = Some 1
      \<and> (\<exists>t. s' = ?s\<lparr>threads := [bootstrap_thread 1, t], next_id := 3\<rparr> \<and> th_state t = Ready \<and> th_id t = 2)"
    using create_effect [OF e] by auto
  then show ?thesis
    using e sm by (auto simp: sched_initialize_def sched_inv_def bootstrap_thread_def sched_simps less_Suc_eq nth_Cons')
qed

inductive sched_reachable :: "sched \<Rightarrow> machine \<Rightarrow> bool" where
  start: "sched_initialize tramp idle_entry sm = (s, m) \<Longrightarrow> sched_reachable s m"
| other: "sched_reachable s m \<Longrightarrow> sched_reachable s m'"
| create: "sched_reachable s m \<Longrightarrow> create_kernel_thread tramp (s, m) name entry arg aff = (r, s', m') \<Longrightarrow>
    sched_reachable s' m'"
| yield: "sched_reachable s m \<Longrightarrow> sched_reachable (snd (yield rsp s)) m"
| preempt: "sched_reachable s m \<Longrightarrow> sched_reachable (snd (schedule_from_interrupt ticks s rsp)) m"
| block: "sched_reachable s m \<Longrightarrow> sched_reachable (snd (block_current_thread rsp s)) m"
| sleep: "sched_reachable s m \<Longrightarrow> sched_reachable (snd (sleep_current_until rsp s tick)) m"
| wake: "sched_reachable s m \<Longrightarrow> sched_reachable (wake_sleepers now s) m"
| exit: "sched_reachable s m \<Longrightarrow> current s \<noteq> idle s \<Longrightarrow> exit_current_thread rsp s = Some (x, s') \<Longrightarrow>
    sched_reachable s' m"

lemma reachable_sched_inv: "sched_reachable s m \<Longrightarrow> sched_inv s"
proof (induction rule: sched_reachable.induct)
  case (start tramp idle_entry sm s m)
  then show ?case using initialize_inv [of tramp idle_entry sm] by simp
qed (blast intro: create_inv yield_inv interrupt_inv block_inv sleep_inv wake_inv exit_inv)+

section \<open>Progress\<close>

text \<open>The operations that give up the processor.\<close>

datatype sched_op = OpYield u64 | OpPreempt u64 u64 | OpBlock u64 | OpSleep u64 u64

fun do_op :: "sched_op \<Rightarrow> sched \<Rightarrow> sched" where
  "do_op (OpYield rsp) s = snd (yield rsp s)"
| "do_op (OpPreempt ticks rsp) s = snd (schedule_from_interrupt ticks s rsp)"
| "do_op (OpBlock rsp) s = snd (block_current_thread rsp s)"
| "do_op (OpSleep rsp tick) s = snd (sleep_current_until rsp s tick)"

lemma do_op_inv: "sched_inv s \<Longrightarrow> sched_inv (do_op p s)"
  by (cases p) (simp_all add: yield_inv interrupt_inv block_inv sleep_inv)

text \<open>Every such operation chooses from a table in which every thread that was ready still is.\<close>

lemma do_op_switched:
  assumes inv: "sched_inv s"
  obtains t where "switched t (do_op p s)" and "length (threads t) = length (threads s)" and "idle t = idle s"
    and "current_index t = current_index s"
    and "\<forall>i < length (threads s). th_state (threads s ! i) = Ready \<longrightarrow> th_state (threads t ! i) = Ready"
proof -
  obtain c where c: "current s = Some c" "c < length (threads s)"
      "\<forall>i < length (threads s). th_state (threads s ! i) = Running \<longleftrightarrow> i = c"
    using inv by (rule sched_invE)
  have nr: "th_state (threads s ! c) \<noteq> Ready" using c(2,3) by auto
  have sw: "\<exists>t. switched t (snd (switch_from_current u rsp st)) \<and> length (threads t) = length (threads s)
      \<and> idle t = idle s \<and> current_index t = current_index s
      \<and> (\<forall>i < length (threads s). th_state (threads s ! i) = Ready \<longrightarrow> th_state (threads t ! i) = Ready)"
    if u: "current u = Some c" "length (threads u) = length (threads s)" "idle u = idle s" "current_index u = current_index s"
      "\<And>i. i < length (threads s) \<Longrightarrow> th_state (threads u ! i) = th_state (threads s ! i)" for u rsp st
  proof (intro exI conjI)
    show "switched (set_state c st u) (snd (switch_from_current u rsp st))"
      using switch_switched [of u c st rsp] u c(2) by simp
  qed (use u c(2) nr in \<open>auto simp: sched_simps nth_update_at\<close>)
  have "\<exists>t. switched t (do_op p s) \<and> length (threads t) = length (threads s) \<and> idle t = idle s
      \<and> current_index t = current_index s
      \<and> (\<forall>i < length (threads s). th_state (threads s ! i) = Ready \<longrightarrow> th_state (threads t ! i) = Ready)"
  proof (cases p)
    case (OpYield rsp)
    then show ?thesis using sw [of "s\<lparr>yield_count := yield_count s + 1\<rparr>" rsp Ready] c(1) by (simp add: yield_def)
  next
    case (OpPreempt ticks rsp)
    then show ?thesis
      using interrupt_switched [OF c(1,2), of ticks rsp] c(2,3) nr
      by (auto simp: sched_simps nth_update_at)
  next
    case (OpBlock rsp)
    then show ?thesis using sw [of s rsp Blocked] c(1) by (simp add: block_current_thread_def)
  next
    case (OpSleep rsp tick)
    then show ?thesis
      using sw [of s rsp Sleeping] sw [of "upd_thread c (\<lambda>t. t\<lparr>wake_tick := tick\<rparr>) s" rsp Sleeping] c(1,2)
      by (auto simp: sleep_current_until_def Let_def sched_simps nth_update_at)
  qed
  then show ?thesis using that by blast
qed

lemma do_op_progress:
  assumes inv: "sched_inv s" and k: "k < length (threads s)" "idle s \<noteq> Some k" "th_state (threads s ! k) = Ready"
  shows "length (threads (do_op p s)) = length (threads s)" and "idle (do_op p s) = idle s"
    and "current (do_op p s) = Some k \<or> th_state (threads (do_op p s) ! k) = Ready
      \<and> cdist (length (threads s)) (current_index (do_op p s)) k < cdist (length (threads s)) (current_index s) k"
proof -
  obtain t where sw: "switched t (do_op p s)" and t: "length (threads t) = length (threads s)" "idle t = idle s"
      "current_index t = current_index s"
      "\<forall>i < length (threads s). th_state (threads s ! i) = Ready \<longrightarrow> th_state (threads t ! i) = Ready"
    using inv by (rule do_op_switched)
  show "length (threads (do_op p s)) = length (threads s)" "idle (do_op p s) = idle s"
    using sw t by (simp_all add: switched_def)
  have ci: "current_index s < length (threads s)" using inv by (simp add: sched_inv_def)
  have run: "runnable t k" using t k by (auto simp: runnable_def)
  from ci t have "current_index t < length (threads t)" by simp
  then show "current (do_op p s) = Some k \<or> th_state (threads (do_op p s) ! k) = Ready
      \<and> cdist (length (threads s)) (current_index (do_op p s)) k < cdist (length (threads s)) (current_index s) k"
  proof (cases rule: pick_next_cases)
    case (found i)
    then have cur: "current (do_op p s) = Some i" "current_index (do_op p s) = i"
        "i \<noteq> k \<Longrightarrow> th_state (threads (do_op p s) ! k) = Ready"
      using sw t k by (auto simp: switched_def)
    show ?thesis
    proof (cases "i = k")
      case False
      have "cdist (length (threads s)) (current_index s) i \<noteq> cdist (length (threads s)) (current_index s) k"
        using index_cdist [OF ci, of i] index_cdist [OF ci k(1)] False found(2) t(1) by auto
      then have "cdist (length (threads s)) (current_index s) i < cdist (length (threads s)) (current_index s) k"
        using found(5) [of k] k(1) run t by simp
      then show ?thesis using cur False cdist_closer [OF ci _ k(1)] found(2) t(1) by simp
    qed (use cur in simp)
  next
    case none
    then show ?thesis using run k(1) t(1) by auto
  qed
qed

lemma runs_within:
  assumes "sched_inv s" and "k < length (threads s)" and "idle s \<noteq> Some k" and "th_state (threads s ! k) = Ready"
    and "cdist (length (threads s)) (current_index s) k < length ops"
  shows "\<exists>j \<le> Suc (cdist (length (threads s)) (current_index s) k). current (fold do_op (take j ops) s) = Some k"
  using assms
proof (induction ops arbitrary: s)
  case (Cons p ops)
  note pr = do_op_progress [OF Cons.prems(1-4), of p]
  let ?d = "cdist (length (threads s)) (current_index s) k"
  show ?case
  proof (cases "current (do_op p s) = Some k")
    case True
    then show ?thesis by (intro exI [of _ 1]) simp
  next
    case False
    let ?d' = "cdist (length (threads s)) (current_index (do_op p s)) k"
    have d: "?d' < ?d" and r: "th_state (threads (do_op p s) ! k) = Ready" using pr(3) False by auto
    then have "\<exists>j \<le> Suc ?d'. current (fold do_op (take j ops) (do_op p s)) = Some k"
      using Cons.IH [OF do_op_inv [OF Cons.prems(1)], of p] Cons.prems pr(1,2) by simp
    then obtain j where "j \<le> Suc ?d'" "current (fold do_op (take j ops) (do_op p s)) = Some k" by blast
    then show ?thesis using d by (intro exI [of _ "Suc j"]) simp
  qed
qed simp

section \<open>Properties\<close>

text \<open>C23. In every reachable state exactly one thread is running, the current one, thread identifiers
  are distinct, and the table holds at most 32 threads. A thread that returns from its entry
  function exits; the idle loop never does.\<close>

theorem exactly_one_running:
  assumes "sched_reachable s m"
  shows "\<exists>c. c < length (threads s) \<and> current s = Some c
      \<and> {i. i < length (threads s) \<and> th_state (threads s ! i) = Running} = {c}
    \<and> distinct (map th_id (threads s)) \<and> length (threads s) \<le> 32"
proof -
  have inv: "sched_inv s" by (rule reachable_sched_inv [OF assms])
  obtain c where c: "current s = Some c" "c < length (threads s)"
      "\<forall>i < length (threads s). th_state (threads s ! i) = Running \<longleftrightarrow> i = c"
    using inv by (rule sched_invE)
  have len: "length (threads s) \<le> 32" and ids: "\<forall>i < length (threads s). th_id (threads s ! i) = of_nat (Suc i)"
    using inv by (simp_all add: sched_inv_def)
  have "th_id (threads s ! i) \<noteq> th_id (threads s ! j)" if "i < length (threads s)" "j < length (threads s)" "i \<noteq> j" for i j
  proof -
    have "unat (of_nat (Suc i) :: u64) = Suc i" "unat (of_nat (Suc j) :: u64) = Suc j"
      using that len by (intro of_nat_inverse; simp)+
    then show ?thesis using ids that by (metis nat.inject)
  qed
  then have "distinct (map th_id (threads s))" by (simp add: distinct_conv_nth)
  then show ?thesis using c len by auto
qed

definition empty_sched :: sched where
  "empty_sched = \<lparr>threads = [], next_id = 1, switch_count = 0, yield_count = 0, preempt_count = 0,
     current = None, idle = None, current_index = 0\<rparr>"

theorem exactly_one_running_witness:
  "\<exists>s. s = snd (yield 0x5000 (fst (sched_initialize 0x1000 0x2000 (empty_sched, demo_machine))))
     \<and> (\<exists>c. c < length (threads s) \<and> current s = Some c
        \<and> {i. i < length (threads s) \<and> th_state (threads s ! i) = Running} = {c}
        \<and> distinct (map th_id (threads s)) \<and> length (threads s) \<le> 32)"
proof -
  obtain s m where "sched_initialize 0x1000 0x2000 (empty_sched, demo_machine) = (s, m)"
    by (cases "sched_initialize 0x1000 0x2000 (empty_sched, demo_machine)")
  then show ?thesis
    using exactly_one_running [OF sched_reachable.yield [OF sched_reachable.start], of "0x1000" "0x2000" _ s m "0x5000"] by auto
qed

text \<open>Three threads, of which the first runs and the others are ready.\<close>

definition demo_sched :: sched where
  "demo_sched = \<lparr>threads = [bootstrap_thread 1, (bootstrap_thread 2)\<lparr>th_state := Ready\<rparr>, (bootstrap_thread 3)\<lparr>th_state := Ready\<rparr>],
     next_id = 4, switch_count = 0, yield_count = 0, preempt_count = 0, current = Some 0, idle = None, current_index = 0\<rparr>"

text \<open>C24. A ready thread other than the idle thread runs after at most as many operations that give
  up the processor as there are threads, whatever these operations are.\<close>

theorem ready_thread_runs:
  assumes "sched_inv s" and "k < length (threads s)" and "idle s \<noteq> Some k"
    and "th_state (threads s ! k) = Ready" and "length (threads s) \<le> length ops"
  shows "\<exists>j \<le> length (threads s). current (fold do_op (take j ops) s) = Some k"
proof -
  let ?d = "cdist (length (threads s)) (current_index s) k"
  have "?d < length (threads s)" using assms(2) by (intro cdist_less) auto
  then show ?thesis
    using runs_within [OF assms(1-4), of ops] assms(5) by (meson Suc_leI le_trans less_le_trans)
qed

theorem ready_thread_runs_witness:
  "sched_inv demo_sched \<and> (\<exists>j \<le> 3. current (fold do_op (take j [OpYield 0, OpBlock 0, OpPreempt 9 0]) demo_sched) = Some 2)"
proof -
  have inv: "sched_inv demo_sched"
    by (auto simp: sched_inv_def demo_sched_def bootstrap_thread_def less_Suc_eq numeral_3_eq_3)
  show ?thesis
    using ready_thread_runs [OF inv, of 2 "[OpYield 0, OpBlock 0, OpPreempt 9 0]"] inv
    by (simp add: demo_sched_def numeral_3_eq_3)
qed

text \<open>C25. The choice of the next thread is round robin: the thread after the current position that is
  cyclically nearest among the ready threads other than the idle thread; the idle thread is
  chosen exactly when there is none.\<close>

theorem pick_next_round_robin:
  assumes "sched_inv s"
  shows "(\<exists>i. fst (pick_next s) = Some i \<and> i < length (threads s) \<and> runnable s i
      \<and> current_index (snd (pick_next s)) = i
      \<and> (\<forall>k < length (threads s). runnable s k \<longrightarrow>
           cdist (length (threads s)) (current_index s) i \<le> cdist (length (threads s)) (current_index s) k))
    \<or> (\<forall>k < length (threads s). \<not> runnable s k) \<and> pick_next s = (idle s, s)"
proof -
  have "current_index s < length (threads s)" using assms by (simp add: sched_inv_def)
  then show ?thesis by (cases rule: pick_next_cases) (auto simp: prod_eq_iff)
qed

theorem pick_next_round_robin_witness:
  "sched_inv demo_sched \<and> fst (pick_next demo_sched) = Some 1 \<and> runnable demo_sched 1
     \<and> current_index (snd (pick_next demo_sched)) = 1"
proof -
  have inv: "sched_inv demo_sched"
    by (auto simp: sched_inv_def demo_sched_def bootstrap_thread_def less_Suc_eq numeral_3_eq_3)
  have one: "fst (pick_next demo_sched) = Some 1" "idle demo_sched = None" by code_simp+
  show ?thesis using pick_next_round_robin [OF inv] inv one by auto
qed

end
