(* ===== verification/Block.thy ===== *)
theory Block
  imports Pmm
begin

text \<open>
  The block layer (\<open>kernel/src/block/block_device.cpp\<close>) over the sector read of the AHCI driver
  (\<open>kernel/src/drivers/ahci.cpp\<close>). The disk is a parameter: \<open>disk lba\<close> is the sector the controller
  transfers for \<open>lba\<close>, \<open>None\<close> when the command fails. The cache is shown to be invisible: every read
  returns what the disk without a cache would.
\<close>

section \<open>State\<close>

definition kCacheEntries :: u32 where "kCacheEntries = 16"

record BlockStats =
  bs_initialized :: bool
  bs_sector_count :: u64
  sector_reads :: u64
  multi_sector_reads :: u64
  cache_hits :: u64
  cache_misses :: u64
  cache_evictions :: u64
  invalid_reads :: u64
  null_buffer_rejects :: u64
  zero_count_rejects :: u64
  oversized_request_rejects :: u64
  backend_read_failures :: u64
  cache_fills :: u64
  cached_entries :: u64
  largest_request_sectors :: u64
  last_lba :: u64

record CacheEntry =
  ce_valid :: bool
  ce_lba :: u64
  ce_data :: "u8 list"

text \<open>What the driver knows of the controller, and the memory manager it takes its buffers from.\<close>

record ahci =
  identify_success :: bool
  read_lba0_success :: bool
  first_active_port :: u32
  identify_sector_count :: u64
  ahci_pmm :: pmm

record BlockDevice =
  cache :: "CacheEntry list"
  next_victim :: u32
  bstats :: BlockStats
  driver :: ahci

definition zero_bstats :: BlockStats where
  "zero_bstats = \<lparr>bs_initialized = False, bs_sector_count = 0, sector_reads = 0, multi_sector_reads = 0, cache_hits = 0,
     cache_misses = 0, cache_evictions = 0, invalid_reads = 0, null_buffer_rejects = 0, zero_count_rejects = 0,
     oversized_request_rejects = 0, backend_read_failures = 0, cache_fills = 0, cached_entries = 0,
     largest_request_sectors = 0, last_lba = 0\<rparr>"

definition empty_entry :: CacheEntry where
  "empty_entry = \<lparr>ce_valid = False, ce_lba = 0, ce_data = replicate 512 0\<rparr>"

definition upd_bstats :: "(BlockStats \<Rightarrow> BlockStats) \<Rightarrow> BlockDevice \<Rightarrow> BlockDevice" where
  "upd_bstats f d = d\<lparr>bstats := f (bstats d)\<rparr>"

section \<open>Operations\<close>

text \<open>The sector the command has transferred to the page taken for it is copied out; the page is not
  given back.\<close>

definition ahci_read_sector :: "(u64 \<Rightarrow> u8 list option) \<Rightarrow> u64 \<Rightarrow> ahci \<Rightarrow> u8 list option \<times> ahci" where
  "ahci_read_sector disk lba a =
     (if \<not> identify_success a \<or> 32 \<le> first_active_port a then (None, a)
      else let (sector, p) = allocate_page (ahci_pmm a); a = a\<lparr>ahci_pmm := p\<rparr>
           in (disk lba, a))"

definition initialize_ahci :: "BlockDevice \<Rightarrow> bool \<times> BlockDevice" where
  "initialize_ahci d =
     (let d = d\<lparr>bstats := zero_bstats, next_victim := 0, cache := map (\<lambda>_. empty_entry) (cache d)\<rparr>;
          ok = identify_success (driver d) \<and> read_lba0_success (driver d);
          d = upd_bstats (\<lambda>s. s\<lparr>bs_initialized := ok, bs_sector_count := identify_sector_count (driver d)\<rparr>) d
      in (bs_initialized (bstats d), d))"

definition refresh_cached_entry_count :: "BlockDevice \<Rightarrow> BlockDevice" where
  "refresh_cached_entry_count d =
     upd_bstats (\<lambda>s. s\<lparr>cached_entries := fold (\<lambda>e n. if ce_valid e then n + 1 else n) (cache d) 0\<rparr>) d"

definition reject :: "(BlockStats \<Rightarrow> BlockStats) \<Rightarrow> BlockDevice \<Rightarrow> BlockDevice" where
  "reject f d = upd_bstats (\<lambda>s. f (s\<lparr>invalid_reads := invalid_reads s + 1\<rparr>)) d"

text \<open>The miss: the next victim in turn is filled from the driver.\<close>

definition fill_cache :: "(u64 \<Rightarrow> u8 list option) \<Rightarrow> u64 \<Rightarrow> BlockDevice \<Rightarrow> u8 list option \<times> BlockDevice" where
  "fill_cache disk lba d =
     (let v = unat (next_victim d mod kCacheEntries);
          d = d\<lparr>next_victim := next_victim d + 1\<rparr>;
          d = (if ce_valid (cache d ! v) then upd_bstats (\<lambda>s. s\<lparr>cache_evictions := cache_evictions s + 1\<rparr>) d else d);
          (r, a) = ahci_read_sector disk lba (driver d);
          d = d\<lparr>driver := a\<rparr>
      in case r of
           None \<Rightarrow> (None, upd_bstats (\<lambda>s. s\<lparr>backend_read_failures := backend_read_failures s + 1\<rparr>) d)
         | Some bytes \<Rightarrow>
             let d = d\<lparr>cache := (cache d)[v := \<lparr>ce_valid = True, ce_lba = lba, ce_data = bytes\<rparr>]\<rparr>;
                 d = upd_bstats (\<lambda>s. s\<lparr>cache_fills := cache_fills s + 1, cache_misses := cache_misses s + 1\<rparr>) d
             in (Some bytes, refresh_cached_entry_count d))"

text \<open>\<open>ok\<close>: the buffer pointer is not null. The result is what the buffer holds when the code returns true.\<close>

definition read_sector :: "(u64 \<Rightarrow> u8 list option) \<Rightarrow> u64 \<Rightarrow> bool \<Rightarrow> BlockDevice \<Rightarrow> u8 list option \<times> BlockDevice" where
  "read_sector disk lba ok d =
     (if \<not> bs_initialized (bstats d) then (None, reject id d)
      else if bs_sector_count (bstats d) \<noteq> 0 \<and> bs_sector_count (bstats d) \<le> lba then (None, reject id d)
      else if \<not> ok then (None, reject (\<lambda>s. s\<lparr>null_buffer_rejects := null_buffer_rejects s + 1\<rparr>) d)
      else
        let d = upd_bstats (\<lambda>s. s\<lparr>sector_reads := sector_reads s + 1, last_lba := lba\<rparr>) d
        in case find_idx (\<lambda>e. ce_valid e \<and> ce_lba e = lba) (cache d) of
             Some i \<Rightarrow> (Some (ce_data (cache d ! i)), upd_bstats (\<lambda>s. s\<lparr>cache_hits := cache_hits s + 1\<rparr>) d)
           | None \<Rightarrow> fill_cache disk lba d)"

text \<open>The loop of \<open>read_sectors\<close>; the bytes stored so far, and whether every sector was read.\<close>

fun read_each :: "(u64 \<Rightarrow> u8 list option) \<Rightarrow> u64 list \<Rightarrow> BlockDevice \<Rightarrow> (bool \<times> u8 list) \<times> BlockDevice" where
  "read_each disk [] d = ((True, []), d)"
| "read_each disk (lba # lbas) d =
     (case read_sector disk lba True d of
        (None, d) \<Rightarrow> ((False, []), d)
      | (Some bytes, d) \<Rightarrow> let ((ok, rest), d) = read_each disk lbas d in ((ok, bytes @ rest), d))"

definition read_sectors ::
  "(u64 \<Rightarrow> u8 list option) \<Rightarrow> u64 \<Rightarrow> u32 \<Rightarrow> bool \<Rightarrow> BlockDevice \<Rightarrow> (bool \<times> u8 list) \<times> BlockDevice" where
  "read_sectors disk start_lba n ok d =
     (if \<not> bs_initialized (bstats d) then ((False, []), reject id d)
      else if \<not> ok then ((False, []), reject (\<lambda>s. s\<lparr>null_buffer_rejects := null_buffer_rejects s + 1\<rparr>) d)
      else if n = 0 then ((False, []), reject (\<lambda>s. s\<lparr>zero_count_rejects := zero_count_rejects s + 1\<rparr>) d)
      else if 64 < n then ((False, []), reject (\<lambda>s. s\<lparr>oversized_request_rejects := oversized_request_rejects s + 1\<rparr>) d)
      else if bs_sector_count (bstats d) \<noteq> 0 \<and>
          (bs_sector_count (bstats d) \<le> start_lba \<or> bs_sector_count (bstats d) - start_lba < ucast n)
      then ((False, []), reject id d)
      else
        let d = upd_bstats (\<lambda>s. s\<lparr>multi_sector_reads := multi_sector_reads s + 1,
                  largest_request_sectors := (if largest_request_sectors s < ucast n then ucast n else largest_request_sectors s)\<rparr>) d
        in read_each disk (map (\<lambda>i. start_lba + ucast i) (wrange 0 n)) d)"

section \<open>The cache is invisible\<close>

text \<open>Every valid entry holds what the disk holds.\<close>

definition cache_inv :: "(u64 \<Rightarrow> u8 list option) \<Rightarrow> BlockDevice \<Rightarrow> bool" where
  "cache_inv disk d \<longleftrightarrow> length (cache d) = 16 \<and> (\<forall>e \<in> set (cache d). ce_valid e \<longrightarrow> disk (ce_lba e) = Some (ce_data e)) \<and>
     (bs_initialized (bstats d) \<longrightarrow> identify_success (driver d) \<and> first_active_port (driver d) < 32)"

text \<open>What does not change while reading.\<close>

definition same_disk :: "BlockDevice \<Rightarrow> BlockDevice \<Rightarrow> bool" where
  "same_disk d d' \<longleftrightarrow> bs_initialized (bstats d') = bs_initialized (bstats d) \<and> bs_sector_count (bstats d') = bs_sector_count (bstats d)"

text \<open>A disk without a cache.\<close>

definition in_range :: "BlockDevice \<Rightarrow> u64 \<Rightarrow> bool" where
  "in_range d lba \<longleftrightarrow> bs_sector_count (bstats d) = 0 \<or> lba < bs_sector_count (bstats d)"

definition raw_read :: "(u64 \<Rightarrow> u8 list option) \<Rightarrow> BlockDevice \<Rightarrow> u64 \<Rightarrow> bool \<Rightarrow> u8 list option" where
  "raw_read disk d lba ok = (if bs_initialized (bstats d) \<and> in_range d lba \<and> ok then disk lba else None)"

fun raw_each :: "(u64 \<Rightarrow> u8 list option) \<Rightarrow> u64 list \<Rightarrow> bool \<times> u8 list" where
  "raw_each disk [] = (True, [])"
| "raw_each disk (lba # lbas) =
     (case disk lba of None \<Rightarrow> (False, []) | Some bytes \<Rightarrow> let (ok, rest) = raw_each disk lbas in (ok, bytes @ rest))"

lemma ahci_read_ok:
  "identify_success a \<Longrightarrow> first_active_port a < 32 \<Longrightarrow>
   \<exists>a'. ahci_read_sector disk lba a = (disk lba, a') \<and> identify_success a' \<and> first_active_port a' < 32"
  by (auto simp: ahci_read_sector_def split_beta Let_def)

lemma upd_bstats_sel [simp]:
  "cache (upd_bstats f d) = cache d" "driver (upd_bstats f d) = driver d" "bstats (upd_bstats f d) = f (bstats d)"
  "next_victim (upd_bstats f d) = next_victim d"
  by (simp_all add: upd_bstats_def)

lemma victim_less: "unat ((v :: u32) mod kCacheEntries) < 16"
  by (simp add: kCacheEntries_def unat_mod_distrib)

lemma fill_cache_spec:
  assumes i: "cache_inv disk d" "bs_initialized (bstats d)"
  shows "fst (fill_cache disk lba d) = disk lba \<and> cache_inv disk (snd (fill_cache disk lba d)) \<and>
    same_disk d (snd (fill_cache disk lba d))"
proof -
  obtain a' where a: "ahci_read_sector disk lba (driver d) = (disk lba, a')" "identify_success a'" "first_active_port a' < 32"
    using ahci_read_ok [of "driver d" disk lba] i by (auto simp: cache_inv_def)
  show ?thesis
  proof (cases "disk lba")
    case None
    then show ?thesis using i a by (simp add: fill_cache_def Let_def cache_inv_def same_disk_def)
  next
    case (Some bytes)
    then show ?thesis
      using i a by (auto simp: fill_cache_def Let_def cache_inv_def same_disk_def refresh_cached_entry_count_def
          dest!: set_update_subset_insert [THEN subsetD])
  qed
qed

lemma read_sector_spec:
  assumes i: "cache_inv disk d"
  shows "fst (read_sector disk lba ok d) = raw_read disk d lba ok \<and> cache_inv disk (snd (read_sector disk lba ok d)) \<and>
    same_disk d (snd (read_sector disk lba ok d))"
proof (cases "bs_initialized (bstats d) \<and> in_range d lba \<and> ok")
  case False
  then show ?thesis
    using i by (auto simp: read_sector_def raw_read_def in_range_def reject_def cache_inv_def same_disk_def)
next
  case True
  let ?d = "upd_bstats (\<lambda>s. s\<lparr>sector_reads := sector_reads s + 1, last_lba := lba\<rparr>) d"
  have d: "cache_inv disk ?d" "bs_initialized (bstats ?d)" "same_disk d ?d" using i True by (simp_all add: cache_inv_def same_disk_def)
  have r: "read_sector disk lba ok d = (case find_idx (\<lambda>e. ce_valid e \<and> ce_lba e = lba) (cache d) of
      Some j \<Rightarrow> (Some (ce_data (cache d ! j)), upd_bstats (\<lambda>s. s\<lparr>cache_hits := cache_hits s + 1\<rparr>) ?d)
    | None \<Rightarrow> fill_cache disk lba ?d)"
    using True by (auto simp: read_sector_def in_range_def Let_def split: option.split)
  show ?thesis
  proof (cases "find_idx (\<lambda>e. ce_valid e \<and> ce_lba e = lba) (cache d)")
    case None
    then show ?thesis
      unfolding r using fill_cache_spec [OF d(1,2), of lba] True d(3) by (auto simp: raw_read_def same_disk_def)
  next
    case (Some j)
    then have "j < length (cache d)" "ce_valid (cache d ! j)" "ce_lba (cache d ! j) = lba" by (auto simp: find_idx_Some)
    then have "disk lba = Some (ce_data (cache d ! j))" using i by (auto simp: cache_inv_def)
    with Some True d show ?thesis unfolding r by (simp add: raw_read_def cache_inv_def same_disk_def)
  qed
qed

lemma read_each_spec:
  assumes "cache_inv disk d" "bs_initialized (bstats d)" "\<forall>lba \<in> set lbas. in_range d lba"
  shows "fst (read_each disk lbas d) = raw_each disk lbas \<and> cache_inv disk (snd (read_each disk lbas d)) \<and>
    same_disk d (snd (read_each disk lbas d))"
  using assms
proof (induction lbas arbitrary: d)
  case (Cons lba lbas)
  obtain r d' where r: "read_sector disk lba True d = (r, d')" by fastforce
  have d': "r = disk lba" "cache_inv disk d'" "same_disk d d'"
    using read_sector_spec [OF Cons.prems(1), of lba True] r Cons.prems by (simp_all add: raw_read_def)
  have "fst (read_each disk lbas d') = raw_each disk lbas \<and> cache_inv disk (snd (read_each disk lbas d')) \<and>
      same_disk d' (snd (read_each disk lbas d'))"
    using Cons.IH [OF d'(2)] Cons.prems d'(3) by (auto simp: same_disk_def in_range_def)
  then show ?case using r d' by (auto simp: same_disk_def split_beta split: option.splits)
qed (simp add: same_disk_def)

text \<open>The requests of a client and their results, with the cache and without it.\<close>

datatype request = ReadSector u64 bool | ReadSectors u64 u32 bool

fun serve :: "(u64 \<Rightarrow> u8 list option) \<Rightarrow> request \<Rightarrow> BlockDevice \<Rightarrow> (bool \<times> u8 list) \<times> BlockDevice" where
  "serve disk (ReadSector lba ok) d =
     (let (r, d) = read_sector disk lba ok d in (case r of None \<Rightarrow> (False, []) | Some bytes \<Rightarrow> (True, bytes), d))"
| "serve disk (ReadSectors lba n ok) d = read_sectors disk lba n ok d"

fun serve_raw :: "(u64 \<Rightarrow> u8 list option) \<Rightarrow> BlockDevice \<Rightarrow> request \<Rightarrow> bool \<times> u8 list" where
  "serve_raw disk d (ReadSector lba ok) = (case raw_read disk d lba ok of None \<Rightarrow> (False, []) | Some bytes \<Rightarrow> (True, bytes))"
| "serve_raw disk d (ReadSectors lba n ok) =
     (if bs_initialized (bstats d) \<and> ok \<and> 0 < n \<and> n \<le> 64 \<and>
         (bs_sector_count (bstats d) = 0 \<or> unat lba + unat n \<le> unat (bs_sector_count (bstats d)))
      then raw_each disk (map (\<lambda>i. lba + ucast i) (wrange 0 n)) else (False, []))"

fun serve_all :: "(u64 \<Rightarrow> u8 list option) \<Rightarrow> request list \<Rightarrow> BlockDevice \<Rightarrow> (bool \<times> u8 list) list \<times> BlockDevice" where
  "serve_all disk [] d = ([], d)"
| "serve_all disk (q # qs) d = (let (r, d) = serve disk q d; (rs, d) = serve_all disk qs d in (r # rs, d))"

lemma range_bound:
  fixes lba c :: u64 and n :: u32
  shows "(c \<le> lba \<or> c - lba < ucast n) \<longleftrightarrow> 0 < n \<and> \<not> unat lba + unat n \<le> unat c \<or> c \<le> lba"
proof (cases "c \<le> lba")
  case False
  have u: "unat (ucast n :: u64) = unat n" by (simp add: unat_ucast_up)
  have "unat (c - lba) = unat c - unat lba" using False by (simp add: unat_sub_word)
  with False u show ?thesis by (auto simp: word_less_nat_alt word_le_nat_alt)
qed simp

lemma in_range_all:
  assumes "unat lba + unat n \<le> unat (bs_sector_count (bstats d))" "i < n"
  shows "in_range d (lba + ucast (i :: u32))"
proof -
  have "unat (ucast i :: u64) = unat i" by (simp add: unat_ucast_up)
  moreover have "unat i < unat n" using assms(2) by (simp add: word_less_nat_alt)
  moreover have "unat (bs_sector_count (bstats d)) < 2 ^ 64" by (rule order.strict_trans2 [OF unsigned_less]) simp
  ultimately have "unat (lba + ucast i) = unat lba + unat i" using assms(1) by (subst unat_add_word) simp_all
  then show ?thesis using assms \<open>unat i < unat n\<close> by (simp add: in_range_def word_less_nat_alt)
qed

lemma serve_spec:
  assumes i: "cache_inv disk d"
  shows "fst (serve disk q d) = serve_raw disk d q \<and> cache_inv disk (snd (serve disk q d)) \<and> same_disk d (snd (serve disk q d))"
proof (cases q)
  case (ReadSector lba ok)
  then show ?thesis using read_sector_spec [OF i, of lba ok] by (simp add: split_beta)
next
  case (ReadSectors lba n ok)
  let ?c = "bs_sector_count (bstats d)"
  let ?good = "bs_initialized (bstats d) \<and> ok \<and> 0 < n \<and> n \<le> 64 \<and> (?c = 0 \<or> unat lba + unat n \<le> unat ?c)"
  have c: "?c \<le> lba \<or> ?c - lba < ucast n \<longleftrightarrow> \<not> unat lba + unat n \<le> unat ?c" if "0 < n"
    using range_bound [of ?c lba n] that by (auto simp: word_le_nat_alt word_less_nat_alt)
  show ?thesis
  proof (cases ?good)
    case False
    then show ?thesis
      using i c ReadSectors
      by (cases "n = 0") (auto simp: read_sectors_def reject_def cache_inv_def same_disk_def word_neq_0_conv not_le not_less)
  next
    case True
    let ?d = "upd_bstats (\<lambda>s. s\<lparr>multi_sector_reads := multi_sector_reads s + 1,
      largest_request_sectors := (if largest_request_sectors s < ucast n then ucast n else largest_request_sectors s)\<rparr>) d"
    let ?lbas = "map (\<lambda>i. lba + ucast i) (wrange 0 n)"
    have "read_sectors disk lba n ok d = read_each disk ?lbas ?d"
      using True c by (auto simp: read_sectors_def Let_def)
    moreover have "cache_inv disk ?d" "bs_initialized (bstats ?d)" "same_disk d ?d"
      using i True by (simp_all add: cache_inv_def same_disk_def)
    moreover have "\<forall>l \<in> set ?lbas. in_range ?d l"
    proof (cases "?c = 0")
      case nz: False
      then show ?thesis using in_range_all [of lba n d] True by (auto simp: in_range_def)
    qed (simp add: in_range_def)
    ultimately show ?thesis
      using read_each_spec [of disk ?d ?lbas] True ReadSectors by (auto simp: same_disk_def)
  qed
qed

lemma serve_raw_same: "same_disk d d' \<Longrightarrow> serve_raw disk d' q = serve_raw disk d q"
  by (cases q) (simp_all add: same_disk_def raw_read_def in_range_def)


text \<open>The state after \<open>initialize_ahci\<close> satisfies the hypothesis.\<close>

lemma initialize_cache_inv:
  "length (cache d) = 16 \<Longrightarrow> first_active_port (driver d) < 32 \<Longrightarrow> cache_inv disk (snd (initialize_ahci d))"
  by (auto simp: initialize_ahci_def cache_inv_def empty_entry_def Let_def)

definition demo_disk :: "u64 \<Rightarrow> u8 list option" where
  "demo_disk lba = (if lba = 5 then None else Some (replicate 512 (ucast lba)))"

definition demo_device :: BlockDevice where
  "demo_device = snd (initialize_ahci \<lparr>cache = replicate 16 empty_entry, next_victim = 0, bstats = zero_bstats,
     driver = \<lparr>identify_success = True, read_lba0_success = True, first_active_port = 0, identify_sector_count = 100, ahci_pmm = demo_pmm\<rparr>\<rparr>)"


text \<open>Every sector read from the controller costs a page frame for good.\<close>

lemma ahci_read_leaks:
  "identify_success a \<Longrightarrow> first_active_port a < 32 \<Longrightarrow>
   ahci_pmm (snd (ahci_read_sector disk lba a)) = snd (allocate_page (ahci_pmm a))"
  by (auto simp: ahci_read_sector_def split_beta Let_def)

end
