(* ===== verification/Terminal.thy ===== *)
theory Terminal
  imports Prelude
begin

text \<open>
  The terminal (\<open>kernel/src/terminal.cpp\<close>) and the PS/2 keyboard decoder
  (\<open>kernel/src/drivers/ps2_keyboard.cpp\<close>) that feeds it: two ring buffers of input bytes, the line
  editor of the canonical mode and the output path. Characters are bytes; what is sent to the
  serial port and to the console is a trace. The locale \<open>drop_fifo\<close> states what a bounded queue
  that drops its oldest byte promises; the refinement shows the ring buffers and the line buffer
  to implement lists.
\<close>

section \<open>State\<close>

definition kInputBufferSize :: u32 where "kInputBufferSize = 256"
definition kLineBufferSize :: u32 where "kLineBufferSize = 128"

datatype TerminalInputMode = Raw | Canonical

record ring =
  q_buffer :: "u8 list"
  q_head :: u32
  q_tail :: u32
  q_count :: u32

record term_stats =
  write_calls :: u64
  bytes_written :: u64
  raw_input_bytes :: u64
  canonical_input_bytes :: u64
  canonical_line_commits :: u64
  dropped_input_bytes :: u64
  input_high_watermark :: u64
  scroll_relative_ops :: u64
  scroll_to_bottom_ops :: u64
  input_line_resets :: u64

text \<open>The calls the terminal makes to its output devices.\<close>

datatype out_event =
  SerialWrite "u8 list" | ConsoleWrite "u8 list" | ConsoleScroll "64 word" | ConsoleBottom | ConsoleResetLine

record terminal =
  raw_q :: ring
  cooked_q :: ring
  line_buffer :: "u8 list"
  line_length :: u32
  term_mode :: TerminalInputMode
  terminal_stats :: term_stats
  out_trace :: "out_event list"

definition upd_stats :: "(term_stats \<Rightarrow> term_stats) \<Rightarrow> terminal \<Rightarrow> terminal" where
  "upd_stats f s = s\<lparr>terminal_stats := f (terminal_stats s)\<rparr>"

section \<open>Queues\<close>

definition clear_queue :: "ring \<Rightarrow> ring" where
  "clear_queue q = \<lparr>q_buffer = map (\<lambda>_. 0) (q_buffer q), q_head = 0, q_tail = 0, q_count = 0\<rparr>"

definition clear_input_locked :: "terminal \<Rightarrow> terminal" where
  "clear_input_locked s = s\<lparr>raw_q := clear_queue (raw_q s), cooked_q := clear_queue (cooked_q s),
     line_buffer := map (\<lambda>_. 0) (line_buffer s), line_length := 0\<rparr>"

definition update_high_watermark :: "terminal \<Rightarrow> terminal" where
  "update_high_watermark s =
     (let active = (if q_count (cooked_q s) < q_count (raw_q s) then q_count (raw_q s) else q_count (cooked_q s))
      in if input_high_watermark (terminal_stats s) < ucast active
         then upd_stats (\<lambda>t. t\<lparr>input_high_watermark := ucast active\<rparr>) s else s)"

text \<open>The queue part of \<open>push_queue\<close>: what happens to the buffer and the three indices.\<close>

definition ring_push :: "ring \<Rightarrow> u8 \<Rightarrow> ring" where
  "ring_push q c =
     (let q = (if q_count q = kInputBufferSize
               then q\<lparr>q_tail := (q_tail q + 1) mod kInputBufferSize, q_count := q_count q - 1\<rparr> else q);
          q = q\<lparr>q_buffer := (q_buffer q)[unat (q_head q) := c]\<rparr>;
          q = q\<lparr>q_head := (q_head q + 1) mod kInputBufferSize\<rparr>
      in q\<lparr>q_count := q_count q + 1\<rparr>)"

text \<open>\<open>get\<close> and \<open>put\<close> select the queue that the caller passes by reference.\<close>

definition push_queue :: "(terminal \<Rightarrow> ring) \<Rightarrow> (ring \<Rightarrow> terminal \<Rightarrow> terminal) \<Rightarrow> u8 \<Rightarrow> terminal \<Rightarrow> terminal" where
  "push_queue get put c s =
     (let s = (if q_count (get s) = kInputBufferSize
               then upd_stats (\<lambda>t. t\<lparr>dropped_input_bytes := dropped_input_bytes t + 1\<rparr>) s else s)
      in update_high_watermark (put (ring_push (get s) c) s))"

definition pop_queue :: "ring \<Rightarrow> (u8 \<times> ring) option" where
  "pop_queue q =
     (if q_count q = 0 then None
      else Some (q_buffer q ! unat (q_tail q),
                 q\<lparr>q_tail := (q_tail q + 1) mod kInputBufferSize, q_count := q_count q - 1\<rparr>))"

definition set_raw :: "ring \<Rightarrow> terminal \<Rightarrow> terminal" where "set_raw q s = s\<lparr>raw_q := q\<rparr>"
definition set_cooked :: "ring \<Rightarrow> terminal \<Rightarrow> terminal" where "set_cooked q s = s\<lparr>cooked_q := q\<rparr>"

definition push_cooked :: "u8 \<Rightarrow> terminal \<Rightarrow> terminal" where
  "push_cooked c s =
     upd_stats (\<lambda>t. t\<lparr>canonical_input_bytes := canonical_input_bytes t + 1\<rparr>)
       (push_queue cooked_q set_cooked c s)"

section \<open>The canonical mode\<close>

definition canonical_input :: "u8 \<Rightarrow> terminal \<Rightarrow> terminal" where
  "canonical_input c s =
     (if c = 0 then s else
      let c = (if c = 13 then 10 else c)
      in if c = 8 \<or> c = 0x7f then
           (if line_length s \<noteq> 0
            then let s = s\<lparr>line_length := line_length s - 1\<rparr>
                 in s\<lparr>line_buffer := (line_buffer s)[unat (line_length s) := 0]\<rparr>
            else s)
         else if c = 10 then
           let s = fold (\<lambda>i s. push_cooked (line_buffer s ! unat i) s) (wrange 0 (line_length s)) s;
               s = push_cooked 10 s;
               s = upd_stats (\<lambda>t. t\<lparr>canonical_line_commits := canonical_line_commits t + 1\<rparr>) s
           in s\<lparr>line_buffer := map (\<lambda>_. 0) (line_buffer s), line_length := 0\<rparr>
         else if 1 \<le> c \<and> c < 32 then push_cooked c s
         else if line_length s + 1 < kLineBufferSize then
           let s = s\<lparr>line_buffer := (line_buffer s)[unat (line_length s) := c], line_length := line_length s + 1\<rparr>
           in s\<lparr>line_buffer := (line_buffer s)[unat (line_length s) := 0]\<rparr>
         else s)"

section \<open>The interface\<close>

definition emit :: "out_event \<Rightarrow> terminal \<Rightarrow> terminal" where
  "emit e s = s\<lparr>out_trace := out_trace s @ [e]\<rparr>"

text \<open>The string literal \<open>{b, 0}\<close> as C reads it.\<close>

definition one_char :: "u8 \<Rightarrow> u8 list" where "one_char b = (if b = 0 then [] else [b])"

text \<open>A buffer argument is a function of the index, \<open>None\<close> for the null pointer.\<close>

definition term_write :: "(u64 \<Rightarrow> u8) option \<Rightarrow> u64 \<Rightarrow> terminal \<Rightarrow> u64 \<times> terminal" where
  "term_write data len s =
     (case data of
        None \<Rightarrow> (0, s)
      | Some d \<Rightarrow>
          if len = 0 \<or> 4096 < len then (0, s)
          else let s = upd_stats (\<lambda>t. t\<lparr>write_calls := write_calls t + 1, bytes_written := bytes_written t + len\<rparr>) s
               in (len, fold (\<lambda>i s. emit (ConsoleWrite (one_char (d i))) (emit (SerialWrite (one_char (d i))) s))
                          (wrange 0 len) s))"

text \<open>The branch on the mode that \<open>push_input\<close> and \<open>inject_input\<close> share.\<close>

definition accept_input :: "u8 \<Rightarrow> terminal \<Rightarrow> terminal" where
  "accept_input c s =
     (if term_mode s = Raw
      then upd_stats (\<lambda>t. t\<lparr>raw_input_bytes := raw_input_bytes t + 1\<rparr>) (push_queue raw_q set_raw c s)
      else canonical_input c s)"

definition push_input :: "u8 \<Rightarrow> terminal \<Rightarrow> terminal" where
  "push_input c s = (if c = 0 then s else accept_input c s)"

fun inject_loop :: "(u64 \<Rightarrow> u8) \<Rightarrow> u64 list \<Rightarrow> u64 \<Rightarrow> terminal \<Rightarrow> u64 \<times> terminal" where
  "inject_loop d [] injected s = (injected, s)"
| "inject_loop d (i # is) injected s =
     (if d i = 0 then (injected, s) else inject_loop d is (injected + 1) (accept_input (d i) s))"

definition inject_input :: "(u64 \<Rightarrow> u8) option \<Rightarrow> u64 \<Rightarrow> terminal \<Rightarrow> u64 \<times> terminal" where
  "inject_input data len s =
     (case data of
        None \<Rightarrow> (0, s)
      | Some d \<Rightarrow> if len = 0 \<or> 4096 < len then (0, s) else inject_loop d (wrange 0 len) 0 s)"

text \<open>The reading loop: the bytes stored to the caller's buffer, in order.\<close>

fun pop_loop :: "nat \<Rightarrow> ring \<Rightarrow> u8 list \<times> ring" where
  "pop_loop 0 q = ([], q)"
| "pop_loop (Suc n) q =
     (case pop_queue q of
        None \<Rightarrow> ([], q)
      | Some (c, q) \<Rightarrow> let (cs, q) = pop_loop n q in (c # cs, q))"

text \<open>\<open>ok\<close>: the buffer pointer is not null. The result is what the buffer holds afterwards; its
  length is the returned count.\<close>

definition read_input :: "bool \<Rightarrow> u64 \<Rightarrow> terminal \<Rightarrow> u8 list \<times> terminal" where
  "read_input ok len s =
     (if \<not> ok \<or> len = 0 \<or> 4096 < len then ([], s)
      else if term_mode s = Raw
      then let (cs, q) = pop_loop (unat len) (raw_q s) in (cs, set_raw q s)
      else let (cs, q) = pop_loop (unat len) (cooked_q s) in (cs, set_cooked q s))"

definition read_key :: "bool \<Rightarrow> u64 \<Rightarrow> terminal \<Rightarrow> u8 list \<times> terminal" where
  "read_key ok len s =
     (if \<not> ok \<or> len = 0 then ([], s)
      else let (cs, q) = pop_loop (unat len) (raw_q s) in (cs, set_raw q s))"

definition buffered_input_count :: "terminal \<Rightarrow> u64" where
  "buffered_input_count s = ucast (if term_mode s = Raw then q_count (raw_q s) else q_count (cooked_q s))"

text \<open>The argument comes from a system call and may be outside the enumeration: \<open>None\<close>.\<close>

definition set_input_mode :: "TerminalInputMode option \<Rightarrow> terminal \<Rightarrow> terminal" where
  "set_input_mode next s =
     clear_input_locked (s\<lparr>term_mode := (if next = Some Canonical then Canonical else Raw)\<rparr>)"

definition input_mode :: "terminal \<Rightarrow> TerminalInputMode" where "input_mode s = term_mode s"

definition scroll_relative :: "64 word \<Rightarrow> terminal \<Rightarrow> terminal" where
  "scroll_relative rows s =
     emit (ConsoleScroll rows) (upd_stats (\<lambda>t. t\<lparr>scroll_relative_ops := scroll_relative_ops t + 1\<rparr>) s)"

definition scroll_to_bottom :: "terminal \<Rightarrow> terminal" where
  "scroll_to_bottom s =
     emit ConsoleBottom (upd_stats (\<lambda>t. t\<lparr>scroll_to_bottom_ops := scroll_to_bottom_ops t + 1\<rparr>) s)"

definition reset_input_line :: "terminal \<Rightarrow> terminal" where
  "reset_input_line s =
     emit ConsoleResetLine (emit (SerialWrite [13, 0x1b, 0x5b, 0x32, 0x4b])
       (upd_stats (\<lambda>t. t\<lparr>input_line_resets := input_line_resets t + 1\<rparr>) s))"

definition initial_terminal :: terminal where
  "initial_terminal =
     (let q = \<lparr>q_buffer = replicate 256 0, q_head = 0, q_tail = 0, q_count = 0\<rparr>
      in \<lparr>raw_q = q, cooked_q = q, line_buffer = replicate 128 0, line_length = 0, term_mode = Raw,
          terminal_stats = \<lparr>write_calls = 0, bytes_written = 0, raw_input_bytes = 0, canonical_input_bytes = 0,
            canonical_line_commits = 0, dropped_input_bytes = 0, input_high_watermark = 0, scroll_relative_ops = 0,
            scroll_to_bottom_ops = 0, input_line_resets = 0\<rparr>, out_trace = []\<rparr>)"

section \<open>The keyboard\<close>

record keyboard =
  shift_down :: bool
  ctrl_down :: bool
  extended_prefix :: bool

definition normal_table :: "u8 list" where
  "normal_table =
     [0, 27, 0x31, 0x32, 0x33, 0x34, 0x35, 0x36, 0x37, 0x38, 0x39, 0x30, 0x2d, 0x3d, 8,
      9, 0x71, 0x77, 0x65, 0x72, 0x74, 0x79, 0x75, 0x69, 0x6f, 0x70, 0x5b, 0x5d, 10,
      0, 0x61, 0x73, 0x64, 0x66, 0x67, 0x68, 0x6a, 0x6b, 0x6c, 0x3b, 0x27, 0x60,
      0, 0x5c, 0x7a, 0x78, 0x63, 0x76, 0x62, 0x6e, 0x6d, 0x2c, 0x2e, 0x2f,
      0, 0x2a, 0, 0x20]"

definition shifted_table :: "u8 list" where
  "shifted_table =
     [0, 27, 0x21, 0x40, 0x23, 0x24, 0x25, 0x5e, 0x26, 0x2a, 0x28, 0x29, 0x5f, 0x2b, 8,
      9, 0x51, 0x57, 0x45, 0x52, 0x54, 0x59, 0x55, 0x49, 0x4f, 0x50, 0x7b, 0x7d, 10,
      0, 0x41, 0x53, 0x44, 0x46, 0x47, 0x48, 0x4a, 0x4b, 0x4c, 0x3a, 0x22, 0x7e,
      0, 0x7c, 0x5a, 0x58, 0x43, 0x56, 0x42, 0x4e, 0x4d, 0x3c, 0x3e, 0x3f,
      0, 0x2a, 0, 0x20]"

text \<open>The initializer leaves the rest of the 128 entries zero.\<close>

definition key_of :: "u8 list \<Rightarrow> u8 \<Rightarrow> u8" where
  "key_of table scancode =
     (if scancode < 128 then (if unat scancode < length table then table ! unat scancode else 0) else 0)"

definition normal_key :: "u8 \<Rightarrow> u8" where "normal_key = key_of normal_table"
definition shifted_key :: "u8 \<Rightarrow> u8" where "shifted_key = key_of shifted_table"

definition translate :: "u8 \<Rightarrow> keyboard \<Rightarrow> u8 \<times> keyboard" where
  "translate scancode k =
     (if scancode = 0xe0 then (0, k\<lparr>extended_prefix := True\<rparr>)
      else if extended_prefix k then
        let k = k\<lparr>extended_prefix := False\<rparr>
        in (if scancode AND 0x80 \<noteq> 0 then 0
            else if scancode = 0x48 then 0x10 else if scancode = 0x50 then 0x0e
            else if scancode = 0x47 then 0x01 else if scancode = 0x4b then 0x02
            else if scancode = 0x4d then 0x06 else if scancode = 0x4f then 0x05
            else if scancode = 0x49 then 0x11 else if scancode = 0x51 then 0x12
            else if scancode = 0x53 then 0x7f else 0, k)
      else if scancode = 0x2a \<or> scancode = 0x36 then (0, k\<lparr>shift_down := True\<rparr>)
      else if scancode = 0xaa \<or> scancode = 0xb6 then (0, k\<lparr>shift_down := False\<rparr>)
      else if scancode = 0x1d then (0, k\<lparr>ctrl_down := True\<rparr>)
      else if scancode = 0x9d then (0, k\<lparr>ctrl_down := False\<rparr>)
      else if scancode AND 0x80 \<noteq> 0 then (0, k)
      else let c = (if shift_down k then shifted_key scancode else normal_key scancode)
           in (if ctrl_down k \<and> 0x61 \<le> c \<and> c \<le> 0x7a then c - 0x61 + 1
               else if ctrl_down k \<and> 0x41 \<le> c \<and> c \<le> 0x5a then c - 0x41 + 1 else c, k))"

text \<open>\<open>status\<close> and \<open>data\<close> are the bytes the two ports deliver.\<close>

definition handle_irq :: "u8 \<Rightarrow> u8 \<Rightarrow> keyboard \<times> terminal \<Rightarrow> keyboard \<times> terminal" where
  "handle_irq status data kt =
     (if status AND 1 = 0 then kt
      else let (c, k) = translate data (fst kt) in (k, push_input c (snd kt)))"

definition pop_char :: "terminal \<Rightarrow> u8 option \<times> terminal" where
  "pop_char s = (let (cs, s) = read_key True 1 s in (if length cs = 1 then Some (hd cs) else None, s))"

definition buffered_count :: "terminal \<Rightarrow> u64" where "buffered_count s = buffered_input_count s"

section \<open>Bounded queues\<close>

text \<open>A queue of capacity \<open>cap\<close> that drops its oldest element to make room: what the terminal
  relies on, and what follows for any sequence of insertions and removals.\<close>

locale drop_fifo =
  fixes push :: "'q \<Rightarrow> 'a \<Rightarrow> 'q"
    and pop :: "'q \<Rightarrow> ('a \<times> 'q) option"
    and elems :: "'q \<Rightarrow> 'a list"
    and ok :: "'q \<Rightarrow> bool"
    and cap :: nat
  assumes cap_pos: "0 < cap"
    and elems_le: "ok q \<Longrightarrow> length (elems q) \<le> cap"
    and push_ok: "ok q \<Longrightarrow> ok (push q c)"
    and push_elems: "ok q \<Longrightarrow> elems (push q c) = fifo_push cap (elems q) c"
    and pop_none: "ok q \<Longrightarrow> pop q = None \<longleftrightarrow> elems q = []"
    and pop_some: "ok q \<Longrightarrow> pop q = Some (c, r) \<Longrightarrow> ok r \<and> elems q = c # elems r"
begin

lemma pushes: "ok q \<Longrightarrow> ok (fold (\<lambda>c q. push q c) cs q) \<and>
    elems (fold (\<lambda>c q. push q c) cs q) = lastn cap (elems q @ cs)"
proof (induction cs rule: rev_induct)
  case Nil
  then show ?case by (simp add: elems_le)
next
  case (snoc c cs)
  then show ?case
    using lastn_snoc [OF cap_pos, of "elems q @ cs" c] by (simp add: push_ok push_elems)
qed

end

definition ring_inv :: "ring \<Rightarrow> bool" where
  "ring_inv q \<longleftrightarrow> length (q_buffer q) = 256 \<and> q_head q < 256 \<and> q_tail q < 256 \<and> q_count q \<le> 256
     \<and> unat (q_head q) = (unat (q_tail q) + unat (q_count q)) mod 256"

definition contents :: "ring \<Rightarrow> u8 list" where
  "contents q = map (\<lambda>i. q_buffer q ! ((unat (q_tail q) + i) mod 256)) [0..<unat (q_count q)]"

lemma length_contents [simp]: "length (contents q) = unat (q_count q)"
  by (simp add: contents_def)

lemma unat_next: "t < 256 \<Longrightarrow> unat ((t + 1) mod 256 :: u32) = (unat t + 1) mod 256"
proof -
  assume "t < 256"
  then have "unat (t + 1) = unat t + 1" using unat_Suc_word [of t 256] by simp
  then show ?thesis by (simp add: unat_mod_distrib)
qed

lemma ring_inv_nat:
  "ring_inv q \<Longrightarrow> unat (q_head q) < 256 \<and> unat (q_tail q) < 256 \<and> unat (q_count q) \<le> 256"
  by (simp add: ring_inv_def word_less_nat_alt word_le_nat_alt)

lemma ring_index_ne: "i < c \<Longrightarrow> c < 256 \<Longrightarrow> (t + i) mod 256 \<noteq> (t + c) mod (256 :: nat)"
proof
  assume a: "i < c" "c < 256" and "(t + i) mod 256 = (t + c) mod 256"
  then have "256 dvd c - i" using mod_eq_dvd_iff_nat [of "t + i" "t + c" 256] by simp
  with a show False using nat_dvd_not_less [of "c - i" 256] by simp
qed

text \<open>Insertion when there is room, and dropping the oldest byte.\<close>

lemma ring_push_room:
  assumes q: "ring_inv q" and room: "q_count q \<noteq> 256"
  shows "ring_inv (ring_push q c)" "contents (ring_push q c) = contents q @ [c]"
proof -
  note b = ring_inv_nat [OF q]
  have lt: "q_count q < 256" using q room by (simp add: ring_inv_def order.strict_iff_order)
  then have cnt: "unat (q_count q + 1) = unat (q_count q) + 1" using unat_Suc_word [OF lt] by simp
  have hd: "unat (q_head q) = (unat (q_tail q) + unat (q_count q)) mod 256" using q by (simp add: ring_inv_def)
  have clt: "unat (q_count q) < 256" using lt by (simp add: word_less_nat_alt)
  show "ring_inv (ring_push q c)"
    using q room b cnt hd unat_next [of "q_head q"] clt
    by (simp add: ring_push_def ring_inv_def kInputBufferSize_def Let_def word_less_nat_alt
        word_le_nat_alt mod_Suc_eq)
  have old: "(q_buffer q)[unat (q_head q) := c] ! ((unat (q_tail q) + i) mod 256)
      = q_buffer q ! ((unat (q_tail q) + i) mod 256)" if "i < unat (q_count q)" for i
    using ring_index_ne [OF that clt, of "unat (q_tail q)"] hd by (metis nth_list_update_neq)
  have new: "(q_buffer q)[unat (q_head q) := c] ! ((unat (q_tail q) + unat (q_count q)) mod 256) = c"
    using q b by (simp add: hd [symmetric] ring_inv_def)
  show "contents (ring_push q c) = contents q @ [c]"
    using room old new by (simp add: ring_push_def contents_def kInputBufferSize_def Let_def cnt)
qed

definition ring_drop :: "ring \<Rightarrow> ring" where
  "ring_drop q = q\<lparr>q_tail := (q_tail q + 1) mod 256, q_count := q_count q - 1\<rparr>"

lemma ring_drop:
  assumes q: "ring_inv q" and ne: "q_count q \<noteq> 0"
  shows "ring_inv (ring_drop q)" "contents (ring_drop q) = tl (contents q)"
    "contents q = q_buffer q ! unat (q_tail q) # contents (ring_drop q)"
proof -
  note b = ring_inv_nat [OF q]
  have cnt: "unat (q_count q) = Suc (unat (q_count q - 1))"
    using ne unat_pred_word [of "q_count q"] by (simp add: word_neq_0_conv unat_gt_0)
  have t: "unat ((q_tail q + 1) mod 256) = (unat (q_tail q) + 1) mod 256"
    using q by (simp add: ring_inv_def unat_next)
  show "ring_inv (ring_drop q)"
    using q b t cnt by (simp add: ring_drop_def ring_inv_def word_less_nat_alt word_le_nat_alt mod_simps)
  show c: "contents q = q_buffer q ! unat (q_tail q) # contents (ring_drop q)"
    unfolding contents_def cnt upt_conv_Cons [OF zero_less_Suc]
    using b by (simp add: ring_drop_def t mod_simps map_Suc_upt [symmetric] o_def del: upt_Suc)
  show "contents (ring_drop q) = tl (contents q)" by (simp add: c)
qed


lemma ring_push_full: "q_count q = 256 \<Longrightarrow> ring_push q c = ring_push (ring_drop q) c"
  by (simp add: ring_push_def ring_drop_def kInputBufferSize_def Let_def)

lemma ring_push_spec:
  assumes "ring_inv q"
  shows "ring_inv (ring_push q c) \<and> contents (ring_push q c) = fifo_push 256 (contents q) c"
proof (cases "q_count q = 256")
  case True
  then have d: "ring_inv (ring_drop q)" "contents (ring_drop q) = tl (contents q)" "q_count (ring_drop q) \<noteq> 256"
    using assms ring_drop [of q] by (simp_all add: ring_drop_def)
  with True show ?thesis
    using ring_push_room [OF d(1) d(3)] by (simp add: ring_push_full fifo_push_def)
next
  case False
  then have "unat (q_count q) \<noteq> 256" by (simp add: word_unat_eq_iff)
  with False assms show ?thesis
    using ring_push_room [of q c] by (simp add: fifo_push_def)
qed

lemma pop_queue_drop:
  "pop_queue q = (if q_count q = 0 then None else Some (q_buffer q ! unat (q_tail q), ring_drop q))"
  by (simp add: pop_queue_def ring_drop_def kInputBufferSize_def)

interpretation rq: drop_fifo ring_push pop_queue contents ring_inv 256
proof
  show "length (contents q) \<le> 256" if "ring_inv q" for q
    using ring_inv_nat [OF that] by simp
  show "pop_queue q = None \<longleftrightarrow> contents q = []" for q
    by (simp add: pop_queue_drop contents_def unat_eq_0)
  show "ring_inv r \<and> contents q = c # contents r" if "ring_inv q" "pop_queue q = Some (c, r)" for q c r
    using that ring_drop [of q] by (auto simp: pop_queue_drop split: if_splits)
qed (simp_all add: ring_push_spec)


lemma pop_loop_spec:
  "ring_inv q \<Longrightarrow> fst (pop_loop n q) = take n (contents q) \<and> ring_inv (snd (pop_loop n q))
     \<and> contents (snd (pop_loop n q)) = drop n (contents q)"
proof (induction n arbitrary: q)
  case (Suc n)
  show ?case
  proof (cases "pop_queue q")
    case None
    with Suc.prems show ?thesis using rq.pop_none [of q] by simp
  next
    case (Some p)
    then obtain c r where p: "pop_queue q = Some (c, r)" by (cases p) auto
    with Suc show ?thesis using rq.pop_some [of q c r] by (simp add: split_beta)
  qed
qed simp

section \<open>What the terminal promises\<close>

text \<open>The terminal as a reader sees it: lists of pending bytes and the line being edited.\<close>

record line_discipline =
  a_raw :: "u8 list"
  a_cooked :: "u8 list"
  a_line :: "u8 list"
  a_mode :: TerminalInputMode

definition a_canonical :: "u8 \<Rightarrow> line_discipline \<Rightarrow> line_discipline" where
  "a_canonical c a =
     (if c = 0 then a
      else if c = 8 \<or> c = 0x7f then a\<lparr>a_line := butlast (a_line a)\<rparr>
      else if c = 10 \<or> c = 13 then a\<lparr>a_cooked := lastn 256 (a_cooked a @ a_line a @ [10]), a_line := []\<rparr>
      else if c < 32 then a\<lparr>a_cooked := lastn 256 (a_cooked a @ [c])\<rparr>
      else if length (a_line a) < 127 then a\<lparr>a_line := a_line a @ [c]\<rparr> else a)"

definition a_accept :: "u8 \<Rightarrow> line_discipline \<Rightarrow> line_discipline" where
  "a_accept c a = (if a_mode a = Raw then a\<lparr>a_raw := lastn 256 (a_raw a @ [c])\<rparr> else a_canonical c a)"

definition a_read :: "nat \<Rightarrow> line_discipline \<Rightarrow> u8 list \<times> line_discipline" where
  "a_read n a = (if a_mode a = Raw then (take n (a_raw a), a\<lparr>a_raw := drop n (a_raw a)\<rparr>)
                 else (take n (a_cooked a), a\<lparr>a_cooked := drop n (a_cooked a)\<rparr>))"

definition term_inv :: "terminal \<Rightarrow> bool" where
  "term_inv s \<longleftrightarrow> ring_inv (raw_q s) \<and> ring_inv (cooked_q s) \<and> length (line_buffer s) = 128 \<and> line_length s < 128"

definition term_abs :: "terminal \<Rightarrow> line_discipline" where
  "term_abs s = \<lparr>a_raw = contents (raw_q s), a_cooked = contents (cooked_q s),
     a_line = take (unat (line_length s)) (line_buffer s), a_mode = term_mode s\<rparr>"

lemma upd_stats_sel [simp, term_simps]:
  "raw_q (upd_stats f s) = raw_q s" "cooked_q (upd_stats f s) = cooked_q s"
  "line_buffer (upd_stats f s) = line_buffer s" "line_length (upd_stats f s) = line_length s"
  "term_mode (upd_stats f s) = term_mode s" "term_inv (upd_stats f s) = term_inv s"
  "term_abs (upd_stats f s) = term_abs s" "terminal_stats (upd_stats f s) = f (terminal_stats s)"
  "out_trace (upd_stats f s) = out_trace s"
  by (simp_all add: upd_stats_def term_inv_def term_abs_def)

lemma update_high_watermark_sel [simp]:
  "raw_q (update_high_watermark s) = raw_q s" "cooked_q (update_high_watermark s) = cooked_q s"
  "line_buffer (update_high_watermark s) = line_buffer s" "line_length (update_high_watermark s) = line_length s"
  "term_mode (update_high_watermark s) = term_mode s" "term_inv (update_high_watermark s) = term_inv s"
  "term_abs (update_high_watermark s) = term_abs s" "out_trace (update_high_watermark s) = out_trace s"
  by (simp_all add: update_high_watermark_def Let_def)

lemma lastn_contents: "ring_inv q \<Longrightarrow> contents (ring_push q c) = lastn 256 (contents q @ [c])"
  using rq.pushes [of q "[c]"] by simp

lemma push_raw_refines:
  assumes "term_inv s"
  shows "term_inv (push_queue raw_q set_raw c s)"
    "term_abs (push_queue raw_q set_raw c s) = (term_abs s)\<lparr>a_raw := lastn 256 (a_raw (term_abs s) @ [c])\<rparr>"
  using assms ring_push_spec [of "raw_q s" c]
  by (auto simp: push_queue_def Let_def set_raw_def term_inv_def term_abs_def lastn_contents)

lemma push_cooked_refines:
  assumes "term_inv s"
  shows "term_inv (push_cooked c s)"
    "term_abs (push_cooked c s) = (term_abs s)\<lparr>a_cooked := lastn 256 (a_cooked (term_abs s) @ [c])\<rparr>"
    "line_buffer (push_cooked c s) = line_buffer s" "line_length (push_cooked c s) = line_length s"
  using assms ring_push_spec [of "cooked_q s" c]
  by (auto simp: push_cooked_def push_queue_def Let_def set_cooked_def term_inv_def term_abs_def lastn_contents)

lemma push_line_refines:
  "term_inv s \<Longrightarrow> line_buffer s = buf \<Longrightarrow>
   term_inv (fold (\<lambda>i s. push_cooked (line_buffer s ! unat i) s) is s) \<and>
   term_abs (fold (\<lambda>i s. push_cooked (line_buffer s ! unat i) s) is s) =
     (term_abs s)\<lparr>a_cooked := lastn 256 (a_cooked (term_abs s) @ map (\<lambda>i. buf ! unat i) is)\<rparr>"
  for "is" :: "u32 list"
proof (induction "is" arbitrary: s)
  case Nil
  then show ?case using rq.elems_le [of "cooked_q s"] by (simp add: term_abs_def term_inv_def)
next
  case (Cons i "is")
  then show ?case
    using Cons.IH [of "push_cooked (buf ! unat i) s"] by (simp add: push_cooked_refines)
qed

lemma line_chars: "term_inv s \<Longrightarrow>
    map (\<lambda>i. line_buffer s ! unat i) (wrange 0 (line_length s)) = take (unat (line_length s)) (line_buffer s)"
  by (simp add: map_unat_wrange [where f = "(!) (line_buffer s)"] list_eq_iff_nth_eq term_inv_def word_less_nat_alt)

lemma canonical_erase:
  assumes s: "term_inv s" and c: "c = 8 \<or> c = 0x7f"
  shows "term_inv (canonical_input c s) \<and> term_abs (canonical_input c s) = a_canonical c (term_abs s)"
proof (cases "line_length s = 0")
  case True
  then show ?thesis using c s by (auto simp: canonical_input_def a_canonical_def term_abs_def Let_def)
next
  case False
  then have pos: "0 < unat (line_length s)" by (simp add: unat_gt_0)
  then have u: "unat (line_length s - 1) = unat (line_length s) - 1" by (simp add: unat_minus_one False)
  have len: "unat (line_length s) < 128" "length (line_buffer s) = 128"
    using s by (simp_all add: term_inv_def word_less_nat_alt)
  have "canonical_input c s = s\<lparr>line_length := line_length s - 1,
      line_buffer := (line_buffer s)[unat (line_length s) - 1 := 0]\<rparr>"
    using False c u by (auto simp: canonical_input_def Let_def)
  moreover have "line_length s - 1 < 128" using u len by (simp add: word_less_nat_alt)
  moreover have "a_canonical c (term_abs s) = (term_abs s)\<lparr>a_line := butlast (a_line (term_abs s))\<rparr>"
    using c by (auto simp: a_canonical_def)
  ultimately show ?thesis
    using s len u by (simp add: term_abs_def term_inv_def butlast_take)
qed

lemma canonical_commit:
  assumes s: "term_inv s" and c: "c = 10 \<or> c = 13"
  shows "term_inv (canonical_input c s) \<and> term_abs (canonical_input c s) = a_canonical c (term_abs s)"
proof -
  define t where "t = push_cooked 10 (fold (\<lambda>i s. push_cooked (line_buffer s ! unat i) s) (wrange 0 (line_length s)) s)"
  have t: "term_inv t" "term_abs t = (term_abs s)\<lparr>a_cooked :=
      lastn 256 (a_cooked (term_abs s) @ take (unat (line_length s)) (line_buffer s) @ [10])\<rparr>"
    using push_line_refines [OF s refl, of "wrange 0 (line_length s)"] line_chars [OF s]
    by (simp_all add: t_def push_cooked_refines)
  have "canonical_input c s = (upd_stats (\<lambda>t. t\<lparr>canonical_line_commits := canonical_line_commits t + 1\<rparr>) t)
      \<lparr>line_buffer := map (\<lambda>_. 0) (line_buffer t), line_length := 0\<rparr>"
    using c by (auto simp: canonical_input_def t_def Let_def)
  with t c show ?thesis by (auto simp: term_inv_def term_abs_def a_canonical_def)
qed

lemma canonical_char:
  assumes s: "term_inv s" and c: "c \<noteq> 0" "c \<noteq> 8" "c \<noteq> 0x7f" "c \<noteq> 10" "c \<noteq> 13"
  shows "term_inv (canonical_input c s) \<and> term_abs (canonical_input c s) = a_canonical c (term_abs s)"
proof (cases "c < 32")
  case True
  moreover have "1 \<le> c" using c(1) by (simp add: word_le_nat_alt unat_gt_0 Suc_le_eq)
  ultimately show ?thesis using c s
    by (simp add: canonical_input_def a_canonical_def push_cooked_refines)
next
  case False
  have len: "unat (line_length s) < 128" and buf: "length (line_buffer s) = 128"
    using s by (simp_all add: term_inv_def word_less_nat_alt)
  then have u: "unat (line_length s + 1) = Suc (unat (line_length s))"
    using unat_Suc_word [of "line_length s" 128] s by (simp add: term_inv_def)
  show ?thesis
  proof (cases "line_length s + 1 < 128")
    case True
    moreover have "Suc (unat (line_length s)) < 128" using True u by (simp add: word_less_nat_alt)
    ultimately show ?thesis using False c s u len buf
      by (auto simp: canonical_input_def a_canonical_def term_abs_def term_inv_def Let_def kLineBufferSize_def
          take_Suc_conv_app_nth)
  next
    case full: False
    then have "\<not> unat (line_length s) < 127" using u by (simp add: word_less_nat_alt)
    with full False c s len buf show ?thesis
      by (simp add: canonical_input_def a_canonical_def term_abs_def Let_def kLineBufferSize_def)
  qed
qed

lemma canonical_refines:
  "term_inv s \<Longrightarrow> term_inv (canonical_input c s) \<and> term_abs (canonical_input c s) = a_canonical c (term_abs s)"
  using canonical_erase canonical_commit canonical_char
  by (cases "c = 0") (simp add: canonical_input_def a_canonical_def, blast)

lemma accept_refines:
  "term_inv s \<Longrightarrow> term_inv (accept_input c s) \<and> term_abs (accept_input c s) = a_accept c (term_abs s)"
  using push_raw_refines [of s c] canonical_refines [of s c]
  by (simp add: accept_input_def a_accept_def) (simp add: term_abs_def)

lemma inject_loop_spec:
  "term_inv s \<Longrightarrow>
   term_inv (snd (inject_loop d is n s)) \<and>
   fst (inject_loop d is n s) = n + of_nat (length (takeWhile (\<lambda>c. c \<noteq> 0) (map d is))) \<and>
   term_abs (snd (inject_loop d is n s)) = fold a_accept (takeWhile (\<lambda>c. c \<noteq> 0) (map d is)) (term_abs s)"
  by (induction "is" arbitrary: n s) (auto simp: accept_refines)

text \<open>The calls a terminal receives and what each returns: a count and the bytes read.\<close>

datatype term_op =
  OpWrite "(u64 \<Rightarrow> u8) option" u64 | OpPush u8 | OpInject "(u64 \<Rightarrow> u8) option" u64 | OpRead bool u64
  | OpReadKey bool u64 | OpCount | OpSetMode "TerminalInputMode option" | OpScroll "64 word" | OpBottom | OpReset

type_synonym term_result = "u64 \<times> u8 list"

fun term_step :: "term_op \<Rightarrow> terminal \<Rightarrow> term_result \<times> terminal" where
  "term_step (OpWrite d n) s = (let (r, s) = term_write d n s in ((r, []), s))"
| "term_step (OpPush c) s = ((0, []), push_input c s)"
| "term_step (OpInject d n) s = (let (r, s) = inject_input d n s in ((r, []), s))"
| "term_step (OpRead ok n) s = (let (cs, s) = read_input ok n s in ((of_nat (length cs), cs), s))"
| "term_step (OpReadKey ok n) s = (let (cs, s) = read_key ok n s in ((of_nat (length cs), cs), s))"
| "term_step OpCount s = ((buffered_input_count s, []), s)"
| "term_step (OpSetMode m) s = ((0, []), set_input_mode m s)"
| "term_step (OpScroll n) s = ((0, []), scroll_relative n s)"
| "term_step OpBottom s = ((0, []), scroll_to_bottom s)"
| "term_step OpReset s = ((0, []), reset_input_line s)"

definition a_inject :: "(u64 \<Rightarrow> u8) \<Rightarrow> u64 \<Rightarrow> u8 list" where
  "a_inject d n = takeWhile (\<lambda>c. c \<noteq> 0) (map d (wrange 0 n))"

fun a_step :: "term_op \<Rightarrow> line_discipline \<Rightarrow> term_result \<times> line_discipline" where
  "a_step (OpWrite d n) a = ((if d = None \<or> 4096 < n then 0 else n, []), a)"
| "a_step (OpPush c) a = ((0, []), if c = 0 then a else a_accept c a)"
| "a_step (OpInject d n) a =
     (case d of Some d \<Rightarrow> if n \<le> 4096 then ((of_nat (length (a_inject d n)), []), fold a_accept (a_inject d n) a)
                        else ((0, []), a)
      | None \<Rightarrow> ((0, []), a))"
| "a_step (OpRead ok n) a =
     (if ok \<and> n \<le> 4096 then let (cs, a) = a_read (unat n) a in ((of_nat (length cs), cs), a) else ((0, []), a))"
| "a_step (OpReadKey ok n) a =
     (if ok then ((of_nat (length (take (unat n) (a_raw a))), take (unat n) (a_raw a)), a\<lparr>a_raw := drop (unat n) (a_raw a)\<rparr>)
      else ((0, []), a))"
| "a_step OpCount a = ((of_nat (length (if a_mode a = Raw then a_raw a else a_cooked a)), []), a)"
| "a_step (OpSetMode m) a =
     ((0, []), \<lparr>a_raw = [], a_cooked = [], a_line = [], a_mode = (if m = Some Canonical then Canonical else Raw)\<rparr>)"
| "a_step (OpScroll n) a = ((0, []), a)"
| "a_step OpBottom a = ((0, []), a)"
| "a_step OpReset a = ((0, []), a)"

lemma emit_sel [simp]: "term_inv (emit e s) = term_inv s" "term_abs (emit e s) = term_abs s"
  by (simp_all add: emit_def term_inv_def term_abs_def)

lemma write_loop [simp]:
  "term_inv (fold (\<lambda>i s. emit (f i) (emit (g i) s)) is s) = term_inv s"
  "term_abs (fold (\<lambda>i s. emit (f i) (emit (g i) s)) is s) = term_abs s"
  by (induction "is" arbitrary: s) simp_all

lemma read_queue_refines:
  assumes s: "term_inv s"
  shows "term_inv (set_raw (snd (pop_loop n (raw_q s))) s)"
    "term_abs (set_raw (snd (pop_loop n (raw_q s))) s) = (term_abs s)\<lparr>a_raw := drop n (contents (raw_q s))\<rparr>"
    "term_inv (set_cooked (snd (pop_loop n (cooked_q s))) s)"
    "term_abs (set_cooked (snd (pop_loop n (cooked_q s))) s) = (term_abs s)\<lparr>a_cooked := drop n (contents (cooked_q s))\<rparr>"
    "fst (pop_loop n (raw_q s)) = take n (contents (raw_q s))"
    "fst (pop_loop n (cooked_q s)) = take n (contents (cooked_q s))"
  using s pop_loop_spec [of "raw_q s" n] pop_loop_spec [of "cooked_q s" n]
  by (simp_all add: term_inv_def term_abs_def set_raw_def set_cooked_def)

lemma term_abs_sel [simp]:
  "a_raw (term_abs s) = contents (raw_q s)" "a_cooked (term_abs s) = contents (cooked_q s)"
  "a_mode (term_abs s) = term_mode s"
  by (simp_all add: term_abs_def)

lemma same_raw: "(term_abs s)\<lparr>a_raw := contents (raw_q s)\<rparr> = term_abs s"
  "(term_abs s)\<lparr>a_cooked := contents (cooked_q s)\<rparr> = term_abs s"
  by (simp_all add: term_abs_def)

lemma clear_queue_spec: "ring_inv q \<Longrightarrow> ring_inv (clear_queue q) \<and> contents (clear_queue q) = []"
  by (simp add: ring_inv_def clear_queue_def contents_def)

lemma term_step_refines:
  assumes s: "term_inv s"
  shows "term_inv (snd (term_step op s)) \<and> fst (term_step op s) = fst (a_step op (term_abs s)) \<and>
    term_abs (snd (term_step op s)) = snd (a_step op (term_abs s))"
proof (cases op)
  case (OpWrite d n)
  then show ?thesis using s by (cases d) (auto simp: term_write_def Let_def)
next
  case (OpInject d n)
  then show ?thesis
    using s inject_loop_spec [OF s] by (cases d) (auto simp: inject_input_def split_beta a_inject_def Let_def)
next
  case (OpRead ok n)
  then show ?thesis using s read_queue_refines [OF s, of "unat n"]
    by (auto simp: read_input_def a_read_def split_beta Let_def same_raw)
next
  case (OpReadKey ok n)
  then show ?thesis using s read_queue_refines [OF s, of "unat n"]
    by (auto simp: read_key_def split_beta Let_def same_raw)
next
  case (OpSetMode m)
  then show ?thesis using s clear_queue_spec
    by (simp add: set_input_mode_def clear_input_locked_def term_inv_def term_abs_def)
qed (use s in \<open>simp_all add: push_input_def accept_refines buffered_input_count_def scroll_relative_def
      scroll_to_bottom_def reset_input_line_def\<close>)

fun run_ops :: "('op \<Rightarrow> 's \<Rightarrow> 'r \<times> 's) \<Rightarrow> 'op list \<Rightarrow> 's \<Rightarrow> 'r list \<times> 's" where
  "run_ops step [] s = ([], s)"
| "run_ops step (op # ops) s =
     (let (r, s) = step op s; (rs, s) = run_ops step ops s in (r # rs, s))"

lemma run_ops_refines:
  "term_inv s \<Longrightarrow> term_inv (snd (run_ops term_step ops s)) \<and>
   fst (run_ops term_step ops s) = fst (run_ops a_step ops (term_abs s)) \<and>
   term_abs (snd (run_ops term_step ops s)) = snd (run_ops a_step ops (term_abs s))"
proof (induction ops arbitrary: s)
  case (Cons op ops)
  then show ?case using term_step_refines [OF Cons.prems, of op] by (simp add: split_beta)
qed simp

lemma initial_terminal_abs:
  "term_inv initial_terminal \<and> term_abs initial_terminal = \<lparr>a_raw = [], a_cooked = [], a_line = [], a_mode = Raw\<rparr>"
  by (simp add: initial_terminal_def term_inv_def ring_inv_def term_abs_def contents_def Let_def)

text \<open>C26. Whatever sequence of calls the terminal receives from its initial state (writes, key
  presses, injected input, reads, mode changes), every call returns what a terminal made of plain
  lists returns: the raw and the cooked queue hold the last 256 bytes that were put in and not
  read, the line being edited holds at most 127 bytes, a backspace removes the last of them and a
  line end commits the line with one newline.\<close>

theorem terminal_refines_line_discipline:
  "fst (run_ops term_step ops initial_terminal)
     = fst (run_ops a_step ops \<lparr>a_raw = [], a_cooked = [], a_line = [], a_mode = Raw\<rparr>)"
  using run_ops_refines [of initial_terminal ops] initial_terminal_abs by simp

section \<open>Typed lines\<close>

definition printable :: "u8 \<Rightarrow> bool" where "printable c \<longleftrightarrow> 32 \<le> c \<and> c \<noteq> 0x7f"

lemma a_accept_printable:
  assumes "printable c" "a_mode a = Canonical" "length (a_line a) < 127"
  shows "a_accept c a = a\<lparr>a_line := a_line a @ [c]\<rparr>"
proof -
  have "c \<noteq> 0" "c \<noteq> 8" "c \<noteq> 10" "c \<noteq> 13" "\<not> c < 32" "c \<noteq> 0x7f"
    using assms(1) by (auto simp: printable_def)
  then show ?thesis using assms(2,3) by (simp add: a_accept_def a_canonical_def)
qed

lemma a_accept_line:
  "\<forall>c \<in> set cs. printable c \<Longrightarrow> a_mode a = Canonical \<Longrightarrow> length (a_line a) + length cs \<le> 127 \<Longrightarrow>
   fold a_accept cs a = a\<lparr>a_line := a_line a @ cs\<rparr>"
  by (induction cs arbitrary: a) (auto simp: a_accept_printable)

lemma a_accept_enter: "a_mode a = Canonical \<Longrightarrow>
    a_accept 10 a = a\<lparr>a_cooked := lastn 256 (a_cooked a @ a_line a @ [10]), a_line := []\<rparr>"
  by (simp add: a_accept_def a_canonical_def)

lemma push_input_refines:
  "c \<noteq> 0 \<Longrightarrow> term_inv s \<Longrightarrow> term_inv (push_input c s) \<and> term_abs (push_input c s) = a_accept c (term_abs s)"
  using accept_refines by (simp add: push_input_def)

lemma push_inputs_refine:
  "\<forall>c \<in> set cs. c \<noteq> 0 \<Longrightarrow> term_inv s \<Longrightarrow>
   term_inv (fold push_input cs s) \<and> term_abs (fold push_input cs s) = fold a_accept cs (term_abs s)"
proof (induction cs arbitrary: s)
  case (Cons c cs)
  then show ?case using push_input_refines [of c s] by simp
qed simp

lemma typed_line_read:
  assumes s: "term_inv s" and m: "term_mode s = Canonical" and e: "a_line (term_abs s) = []" "contents (cooked_q s) = []"
    and cs: "\<forall>c \<in> set cs. printable c" "length cs \<le> 127" and n: "of_nat (length cs) < n" "n \<le> 4096"
  shows "fst (read_input True n (fold push_input (cs @ [10]) s)) = cs @ [10]"
proof -
  let ?t = "fold push_input (cs @ [10]) s"
  have "\<forall>c \<in> set (cs @ [10]). c \<noteq> 0" using cs(1) by (auto simp: printable_def)
  from push_inputs_refine [OF this s] have t: "term_inv ?t" and
    a: "term_abs ?t = fold a_accept (cs @ [10]) (term_abs s)" by simp_all
  have a: "term_abs ?t = (term_abs s)\<lparr>a_cooked := cs @ [10], a_line := []\<rparr>"
    using a a_accept_line [OF cs(1), of "term_abs s"] m e cs(2) by (simp add: a_accept_enter)
  then have c: "contents (cooked_q ?t) = cs @ [10]" "term_mode ?t = Canonical"
    using m by (simp_all add: term_abs_def)
  have "unat (of_nat (length cs) :: u64) = length cs"
    using cs(2) by (intro of_nat_inverse [OF refl]) simp
  then have "length cs < unat n" using n(1) by (simp add: word_less_nat_alt)
  then have "take (unat n) (cs @ [10]) = cs @ [10]" by simp
  moreover have "n \<noteq> 0" using n(1) by auto
  ultimately show ?thesis
    using c n(2) read_queue_refines(6) [OF t, of "unat n"] by (simp add: read_input_def split_beta Let_def)
qed

text \<open>The break code of a key is its make code with the top bit set.\<close>

lemma make_code_bits:
  fixes sc :: u8
  assumes "sc < 0x80"
  shows "sc AND 0x80 = 0" "(sc OR 0x80) AND 0x80 \<noteq> 0" "(sc OR 0x80) AND 0x7f = sc"
proof -
  have "unat sc < 128" using assms by (simp add: word_less_nat_alt)
  then have "\<not> bit (unat sc) 7" by (simp add: bit_iff_odd)
  then have nb: "\<not> bit sc 7" by (simp add: bit_unsigned_iff)
  have top: "(0x80 :: u8) = 2 ^ 7" and low: "(0x7f :: u8) = mask 7" by (simp_all add: mask_eq_exp_minus_1)
  have b80: "bit (0x80 :: u8) n \<longleftrightarrow> n = 7" for n
    unfolding top by (simp only: bit_exp_iff possible_bit_word) auto
  show "sc AND 0x80 = 0" unfolding top using nb by (simp only: and_exp_eq_0_iff_not_bit) simp
  show "(sc OR 0x80) AND 0x80 \<noteq> 0"
    unfolding top and_exp_eq_0_iff_not_bit by (simp add: bit_or_iff bit_exp_iff)
  show "(sc OR 0x80) AND 0x7f = sc"
  proof (rule bit_word_eqI)
    fix n assume "n < LENGTH(8)"
    then have "n < 7 \<or> n = 7" by auto
    then show "bit ((sc OR 0x80) AND 0x7f) n = bit sc n"
      using nb b80 [of n] unfolding low by (auto simp: bit_and_iff bit_or_iff bit_mask_iff)
  qed
qed

lemma pressed_key:
  assumes "sc < 0x3a" "sc \<noteq> 0x2a" "sc \<noteq> 0x36" "sc \<noteq> 0x1d"
    and k: "\<not> extended_prefix k" "\<not> ctrl_down k"
  shows "translate sc k = (if shift_down k then shifted_key sc else normal_key sc, k)"
    "translate (sc OR 0x80) k = (0, k)"
proof -
  have lt: "sc < 0x80" using assms(1) by (rule order.strict_trans) simp
  note bits = make_code_bits [OF lt]
  have "sc \<noteq> 0xe0" "sc \<noteq> 0xaa" "sc \<noteq> 0xb6" "sc \<noteq> 0x9d" using assms(1) by auto
  then show "translate sc k = (if shift_down k then shifted_key sc else normal_key sc, k)"
    using assms bits(1) by (simp add: translate_def Let_def)
  have ne: "sc OR 0x80 \<noteq> x" if "sc \<noteq> x AND 0x7f" for x using bits(3) that by metis
  have m: "sc \<noteq> 0xe0 AND 0x7f" "sc \<noteq> 0x2a AND 0x7f" "sc \<noteq> 0x36 AND 0x7f" "sc \<noteq> 0xaa AND 0x7f" "sc \<noteq> 0xb6 AND 0x7f"
    "sc \<noteq> 0x1d AND 0x7f" "sc \<noteq> 0x9d AND 0x7f" using assms(1-4) by auto
  show "translate (sc OR 0x80) k = (0, k)"
    using k bits(2) m [THEN ne] by (simp add: translate_def)
qed

text \<open>The scan codes of pressing and releasing each key of a list.\<close>

definition keystrokes :: "u8 list \<Rightarrow> u8 list" where
  "keystrokes scs = concat (map (\<lambda>sc. [sc, sc OR 0x80]) scs)"

definition plain_key :: "u8 \<Rightarrow> bool" where
  "plain_key sc \<longleftrightarrow> sc < 0x3a \<and> sc \<noteq> 0x2a \<and> sc \<noteq> 0x36 \<and> sc \<noteq> 0x1d"

lemma handle_irq_key:
  assumes "plain_key sc" "\<not> extended_prefix k" "\<not> ctrl_down k"
  shows "handle_irq 1 (sc OR 0x80) (handle_irq 1 sc (k, s)) =
    (k, push_input (if shift_down k then shifted_key sc else normal_key sc) s)"
  using assms pressed_key [of sc k] by (simp add: plain_key_def handle_irq_def push_input_def)

lemma handle_irq_keys:
  assumes k: "\<not> extended_prefix k" "\<not> ctrl_down k"
  shows "\<forall>sc \<in> set scs. plain_key sc \<Longrightarrow> fold (handle_irq 1) (keystrokes scs) (k, s) =
    (k, fold push_input (map (\<lambda>sc. if shift_down k then shifted_key sc else normal_key sc) scs) s)"
  using handle_irq_key [OF _ k] by (induction scs arbitrary: s) (simp_all add: keystrokes_def)

text \<open>C27. A line typed on the keyboard reaches the reader: when keys with printable characters are
  pressed and released, without control and with shift held or not, and then Enter, a read of a
  terminal in canonical mode with nothing pending returns the characters of the keys followed by a
  newline, for every line of at most 127 characters that fits the caller's buffer.\<close>

theorem typed_line_roundtrip:
  assumes s: "term_inv s" "term_mode s = Canonical" "line_length s = 0" "q_count (cooked_q s) = 0"
    and k: "\<not> extended_prefix k" "\<not> ctrl_down k"
    and scs: "\<forall>sc \<in> set scs. plain_key sc \<and> printable (if shift_down k then shifted_key sc else normal_key sc)"
    and n: "length scs \<le> 127" "of_nat (length scs) < n" "n \<le> 4096"
  shows "fst (read_input True n (snd (fold (handle_irq 1) (keystrokes (scs @ [0x1c])) (k, s))))
    = map (\<lambda>sc. if shift_down k then shifted_key sc else normal_key sc) scs @ [10]"
proof -
  let ?key = "\<lambda>sc. if shift_down k then shifted_key sc else normal_key sc"
  have enter: "plain_key 0x1c" "?key 0x1c = 10"
    by (simp_all add: plain_key_def shifted_key_def normal_key_def key_of_def shifted_table_def normal_table_def)
  have "\<forall>sc \<in> set (scs @ [0x1c]). plain_key sc" using scs enter by simp
  from handle_irq_keys [OF k this]
  have "snd (fold (handle_irq 1) (keystrokes (scs @ [0x1c])) (k, s)) = fold push_input (map ?key scs @ [10]) s"
    using enter(2) by simp
  moreover have "contents (cooked_q s) = []" "a_line (term_abs s) = []"
    using s by (simp_all add: contents_def term_abs_def)
  moreover have "\<forall>c \<in> set (map ?key scs). printable c" using scs by auto
  ultimately show ?thesis
    using typed_line_read [OF s(1,2), of "map ?key scs" n] n by (simp only: length_map)
qed

theorem typed_line_roundtrip_witness:
  "fst (read_input True 16 (snd (fold (handle_irq 1) (keystrokes ([0x26, 0x1f] @ [0x1c]))
      (\<lparr>shift_down = False, ctrl_down = False, extended_prefix = False\<rparr>, set_input_mode (Some Canonical) initial_terminal))))
    = [0x6c, 0x73, 10]"
proof -
  have i: "term_inv (set_input_mode (Some Canonical) initial_terminal)"
    using term_step_refines [of initial_terminal "OpSetMode (Some Canonical)"] initial_terminal_abs by simp
  have "normal_key 0x26 = 0x6c" "normal_key 0x1f = 0x73"
    by (simp_all add: normal_key_def key_of_def normal_table_def)
  then show ?thesis
    using typed_line_roundtrip [OF i, of "\<lparr>shift_down = False, ctrl_down = False, extended_prefix = False\<rparr>" "[0x26, 0x1f]" 16]
    by (simp add: set_input_mode_def clear_input_locked_def clear_queue_def plain_key_def printable_def)
qed

end
