(* ===== verification/Klog.thy ===== *)
theory Klog
  imports Prelude
begin

text \<open>
  The kernel log (\<open>kernel/src/log.cpp\<close>): messages go to the serial port, to a ring of 8192 bytes that
  programs read back, and to the console when that is enabled. What the port and the console get is
  a trace; waiting for the transmitter is not part of it.
\<close>

section \<open>State\<close>

definition kKernelLogCapacity :: u64 where "kKernelLogCapacity = 8192"

datatype LogLevel = Debug | Info | Warn | Error | UnknownLevel

datatype console_op = ConsoleText "u8 list" | ConsoleHex u64

record klog =
  kernel_log :: "u8 list"
  kernel_log_head :: u64
  kernel_log_size_bytes :: u64
  kernel_log_total_bytes :: u64
  console_log_output_enabled :: bool
  serial_out :: "u8 list"
  console_out :: "console_op list"

definition initial_klog :: klog where
  "initial_klog = \<lparr>kernel_log = replicate 8192 0, kernel_log_head = 0, kernel_log_size_bytes = 0, kernel_log_total_bytes = 0,
     console_log_output_enabled = True, serial_out = [], console_out = []\<rparr>"

section \<open>Operations\<close>

definition ascii :: "string \<Rightarrow> u8 list" where "ascii s = map of_char s"

fun prefix :: "LogLevel \<Rightarrow> u8 list" where
  "prefix Debug = ascii ''[DEBUG] ''"
| "prefix Info = ascii ''[INFO ] ''"
| "prefix Warn = ascii ''[WARN ] ''"
| "prefix Error = ascii ''[ERROR] ''"
| "prefix UnknownLevel = ascii ''[???? ] ''"

definition log_hex_digit :: "u64 \<Rightarrow> u8" where
  "log_hex_digit value = (let v = value AND 0xf in if v < 10 then 0x30 + ucast v else 0x61 + (ucast v - 10))"

definition append_kernel_log_char :: "u8 \<Rightarrow> klog \<Rightarrow> klog" where
  "append_kernel_log_char c k =
     (let k = k\<lparr>kernel_log := (kernel_log k)[unat (kernel_log_head k) := c]\<rparr>;
          k = k\<lparr>kernel_log_head := (kernel_log_head k + 1) mod kKernelLogCapacity\<rparr>;
          k = (if kernel_log_size_bytes k < kKernelLogCapacity then k\<lparr>kernel_log_size_bytes := kernel_log_size_bytes k + 1\<rparr> else k)
      in k\<lparr>kernel_log_total_bytes := kernel_log_total_bytes k + 1\<rparr>)"

definition append_kernel_log_text :: "u8 list \<Rightarrow> klog \<Rightarrow> klog" where
  "append_kernel_log_text text k = fold append_kernel_log_char text k"

definition hex_shifts :: "nat list" where "hex_shifts = map (\<lambda>i. 60 - 4 * i) [0..<16]"

definition append_kernel_log_hex :: "u64 \<Rightarrow> klog \<Rightarrow> klog" where
  "append_kernel_log_hex value k =
     fold (\<lambda>i. append_kernel_log_char (log_hex_digit (drop_bit i value))) hex_shifts (append_kernel_log_text (ascii ''0x'') k)"

text \<open>The bytes that leave the port for a text: a line feed is preceded by a carriage return.\<close>

definition serial_write :: "u8 list \<Rightarrow> klog \<Rightarrow> klog" where
  "serial_write text k = k\<lparr>serial_out := serial_out k @ concat (map (\<lambda>c. if c = 10 then [13, c] else [c]) text)\<rparr>"

definition write_hex_digits :: "u64 \<Rightarrow> klog \<Rightarrow> klog" where
  "write_hex_digits value k =
     fold (\<lambda>i. serial_write [log_hex_digit (drop_bit i value)]) hex_shifts (serial_write (ascii ''0x'') k)"

definition console_do :: "console_op list \<Rightarrow> klog \<Rightarrow> klog" where
  "console_do ops k = k\<lparr>console_out := console_out k @ ops\<rparr>"

definition set_console_log_enabled :: "bool \<Rightarrow> klog \<Rightarrow> klog" where
  "set_console_log_enabled enabled k = k\<lparr>console_log_output_enabled := enabled\<rparr>"

definition console_log_enabled :: "klog \<Rightarrow> bool" where "console_log_enabled k = console_log_output_enabled k"

definition log_line :: "LogLevel \<Rightarrow> u8 list \<Rightarrow> klog \<Rightarrow> klog" where
  "log_line level text k =
     (let k = serial_write [10] (serial_write text (serial_write (prefix level) k));
          k = append_kernel_log_char 10 (append_kernel_log_text text (append_kernel_log_text (prefix level) k))
      in if console_log_output_enabled k
         then console_do [ConsoleText (prefix level), ConsoleText text, ConsoleText [10]] k else k)"

definition log_hex :: "LogLevel \<Rightarrow> u8 list \<Rightarrow> u64 \<Rightarrow> klog \<Rightarrow> klog" where
  "log_hex level label value k =
     (let k = serial_write [10] (write_hex_digits value (serial_write [0x3d] (serial_write label (serial_write (prefix level) k))));
          k = append_kernel_log_char 10 (append_kernel_log_hex value (append_kernel_log_char 0x3d
                (append_kernel_log_text label (append_kernel_log_text (prefix level) k))))
      in if console_log_output_enabled k
         then console_do [ConsoleText (prefix level), ConsoleText label, ConsoleText [0x3d], ConsoleHex value, ConsoleText [10]] k
         else k)"

definition kernel_log_size :: "klog \<Rightarrow> u64" where "kernel_log_size k = kernel_log_size_bytes k"

text \<open>\<open>ok\<close>: the buffer pointer is not null. The bytes stored; the count returned is their number.\<close>

definition copy_kernel_log :: "bool \<Rightarrow> u64 \<Rightarrow> u64 \<Rightarrow> klog \<Rightarrow> u8 list" where
  "copy_kernel_log ok capacity offset k =
     (if \<not> ok \<or> capacity = 0 \<or> kKernelLogCapacity < capacity then []
      else if offset < kernel_log_size_bytes k then
        let available = kernel_log_size_bytes k - offset;
            to_copy = (if available < capacity then available else capacity);
            start = (kernel_log_head k + kKernelLogCapacity - kernel_log_size_bytes k + offset) mod kKernelLogCapacity
        in map (\<lambda>i. kernel_log k ! unat ((start + i) mod kKernelLogCapacity)) (wrange 0 to_copy)
      else [])"

text \<open>What \<open>panic\<close> writes before it halts the processor.\<close>

definition panic :: "u8 list \<Rightarrow> u8 list \<Rightarrow> u64 \<Rightarrow> klog \<Rightarrow> klog" where
  "panic reason file line k =
     (let k = serial_write (ascii ''[PANIC] '') k;
          k = serial_write (ascii '':'') (serial_write file (serial_write (ascii '' at '') (serial_write reason k)));
          k = serial_write [10] (write_hex_digits line k)
      in console_do [ConsoleText (ascii ''[PANIC] ''), ConsoleText reason, ConsoleText [10], ConsoleText file,
                     ConsoleText (ascii '':''), ConsoleHex line, ConsoleText [10]] k)"

section \<open>The log is the end of what was logged\<close>

text \<open>The ring after the bytes \<open>hist\<close> have gone in.\<close>

definition klog_holds :: "u8 list \<Rightarrow> klog \<Rightarrow> bool" where
  "klog_holds hist k \<longleftrightarrow> length (kernel_log k) = 8192 \<and> unat (kernel_log_head k) = length hist mod 8192 \<and>
     unat (kernel_log_size_bytes k) = min 8192 (length hist) \<and>
     (\<forall>j < length hist. length hist \<le> j + 8192 \<longrightarrow> kernel_log k ! (j mod 8192) = hist ! j)"

lemma klog_append_char:
  assumes h: "klog_holds hist k"
  shows "klog_holds (hist @ [c]) (append_kernel_log_char c k)"
proof -
  let ?k = "append_kernel_log_char c k" and ?n = "length hist"
  have len: "length (kernel_log k) = 8192" and hd: "unat (kernel_log_head k) = ?n mod 8192"
    and sz: "unat (kernel_log_size_bytes k) = min 8192 ?n"
    using h by (simp_all add: klog_holds_def)
  have lt: "kernel_log_head k < 8192" using hd by (simp add: word_less_nat_alt)
  have "unat (kernel_log_head k + 1) = Suc (?n mod 8192)" using unat_Suc_word [OF lt] hd by simp
  then have hd': "unat (kernel_log_head ?k) = Suc ?n mod 8192"
    by (simp add: append_kernel_log_char_def Let_def kKernelLogCapacity_def unat_mod_distrib mod_Suc_eq)
  have sz': "unat (kernel_log_size_bytes ?k) = min 8192 (Suc ?n)"
  proof (cases "kernel_log_size_bytes k < 8192")
    case True
    then have "unat (kernel_log_size_bytes k + 1) = Suc (unat (kernel_log_size_bytes k))" using unat_Suc_word by blast
    with True sz show ?thesis
      by (simp add: append_kernel_log_char_def Let_def kKernelLogCapacity_def word_less_nat_alt)
  next
    case False
    then have "8192 \<le> ?n" using sz by (simp add: word_less_nat_alt)
    with False sz show ?thesis by (simp add: append_kernel_log_char_def Let_def kKernelLogCapacity_def)
  qed
  have buf: "kernel_log ?k = (kernel_log k)[?n mod 8192 := c]"
    by (simp add: append_kernel_log_char_def Let_def hd)
  have "kernel_log ?k ! (j mod 8192) = (hist @ [c]) ! j" if j: "j < Suc ?n" "Suc ?n \<le> j + 8192" for j
  proof (cases "j = ?n")
    case True
    then show ?thesis using len by (simp add: buf)
  next
    case False
    then have "j mod 8192 \<noteq> ?n mod 8192"
      using j nat_dvd_not_less [of "?n - j" 8192] mod_eq_dvd_iff_nat [of j ?n 8192] by auto
    with False j h show ?thesis by (simp add: buf nth_append klog_holds_def)
  qed
  then show ?thesis using len hd' sz' by (simp add: klog_holds_def buf)
qed

lemma klog_append_text: "klog_holds hist k \<Longrightarrow> klog_holds (hist @ text) (append_kernel_log_text text k)"
  unfolding append_kernel_log_text_def
proof (induction "text" arbitrary: hist k)
  case (Cons c cs)
  then show ?case using Cons.IH [OF klog_append_char [OF Cons.prems, of c]] by simp
qed simp

lemma serial_keeps [simp]: "klog_holds hist (serial_write t k) = klog_holds hist k"
  "klog_holds hist (console_do ops k) = klog_holds hist k"
  by (simp_all add: klog_holds_def serial_write_def console_do_def)

lemma write_hex_keeps [simp]: "klog_holds hist (write_hex_digits v k) = klog_holds hist k"
proof -
  have "klog_holds hist (fold (\<lambda>i. serial_write (f i)) js k) = klog_holds hist k" for f js k
    by (induction js arbitrary: k) simp_all
  from this [of "\<lambda>i. [log_hex_digit (drop_bit i v)]" hex_shifts "serial_write (ascii ''0x'') k"]
  show ?thesis by (simp add: write_hex_digits_def)
qed

text \<open>The requests to log and the bytes each adds.\<close>

datatype log_request = Log LogLevel "u8 list" | LogHex LogLevel "u8 list" u64 | SetConsole bool

fun do_log :: "log_request \<Rightarrow> klog \<Rightarrow> klog" where
  "do_log (Log level text) k = log_line level text k"
| "do_log (LogHex level label v) k = log_hex level label v k"
| "do_log (SetConsole b) k = set_console_log_enabled b k"

definition hex_text :: "u64 \<Rightarrow> u8 list" where
  "hex_text v = ascii ''0x'' @ map (\<lambda>i. log_hex_digit (drop_bit i v)) hex_shifts"

fun log_bytes :: "log_request \<Rightarrow> u8 list" where
  "log_bytes (Log level text) = prefix level @ text @ [10]"
| "log_bytes (LogHex level label v) = prefix level @ label @ [0x3d] @ hex_text v @ [10]"
| "log_bytes (SetConsole b) = []"

lemma append_kernel_log_hex_text: "append_kernel_log_hex v k = append_kernel_log_text (hex_text v) k"
  by (simp add: append_kernel_log_hex_def append_kernel_log_text_def hex_text_def fold_map o_def)

lemma do_log_holds: "klog_holds hist k \<Longrightarrow> klog_holds (hist @ log_bytes r) (do_log r k)"
proof (cases r)
  case (Log level "text")
  assume "klog_holds hist k"
  then have "klog_holds (((hist @ prefix level) @ text) @ [10]) (append_kernel_log_char 10 (append_kernel_log_text text
      (append_kernel_log_text (prefix level) (serial_write [10] (serial_write text (serial_write (prefix level) k))))))"
    by (intro klog_append_char klog_append_text) simp
  with Log show ?thesis by (simp add: log_line_def Let_def)
next
  case (LogHex level label v)
  assume "klog_holds hist k"
  then have "klog_holds (((((hist @ prefix level) @ label) @ [0x3d]) @ hex_text v) @ [10])
      (append_kernel_log_char 10 (append_kernel_log_hex v (append_kernel_log_char 0x3d (append_kernel_log_text label
      (append_kernel_log_text (prefix level) (serial_write [10] (write_hex_digits v (serial_write [0x3d]
        (serial_write label (serial_write (prefix level) k))))))))))"
    unfolding append_kernel_log_hex_text by (intro klog_append_char klog_append_text) simp
  with LogHex show ?thesis by (simp add: log_hex_def Let_def)
qed (simp add: set_console_log_enabled_def klog_holds_def)

lemma do_logs_hold: "klog_holds hist k \<Longrightarrow> klog_holds (hist @ concat (map log_bytes rs)) (fold do_log rs k)"
proof (induction rs arbitrary: hist k)
  case (Cons r rs)
  then show ?case using Cons.IH [OF do_log_holds [OF Cons.prems, of r]] by simp
qed simp

text \<open>Where the copy finds its bytes: position \<open>i\<close> after the offset of the last \<open>s\<close> bytes.\<close>

lemma ring_position:
  fixes n s :: nat
  assumes "s = min 8192 n"
  shows "((n mod 8192 + 8192 - s + off) mod 8192 + i) mod 8192 = (n - s + off + i) mod 8192"
proof (cases "n < 8192")
  case True
  then show ?thesis using assms by (simp add: mod_add_left_eq add.assoc)
next
  case False
  then have "(n - 8192 + off + i) mod 8192 = (n + off + i) mod 8192"
    using mod_add_self2 [of "n - 8192 + off + i" 8192] by simp
  then show ?thesis using False assms by (simp add: min_def mod_simps)
qed

lemma copy_position:
  fixes head off sz i :: u64
  assumes "unat head = n mod 8192" "unat sz = min 8192 n" "unat off < 8192" "unat i < 8192"
  shows "unat (((head + 8192 - sz + off) mod 8192 + i) mod 8192) = (n - unat sz + unat off + unat i) mod 8192"
proof -
  have lt: "n mod 8192 < 8192" "unat sz \<le> 8192" using assms by simp_all
  have a: "unat (head + 8192) = n mod 8192 + 8192"
    using lt assms by (subst unat_add_word) simp_all
  have b: "unat (head + 8192 - sz) = n mod 8192 + 8192 - unat sz"
    using lt a by (subst unat_sub_word) (simp_all add: word_le_nat_alt)
  have c: "unat (head + 8192 - sz + off) = n mod 8192 + 8192 - unat sz + unat off"
    using lt b assms by (subst unat_add_word) simp_all
  have "unat ((head + 8192 - sz + off) mod 8192 + i) = (n mod 8192 + 8192 - unat sz + unat off) mod 8192 + unat i"
    using assms(4) mod_less_divisor [of 8192 "n mod 8192 + 8192 - unat sz + unat off"]
    by (subst unat_add_word) (simp_all add: unat_mod_distrib c del: mod_less_divisor)
  then show ?thesis by (simp add: unat_mod_distrib ring_position [OF assms(2)])
qed

lemma copy_holds:
  assumes h: "klog_holds hist k" and c: "0 < unat cap" "unat cap \<le> 8192"
  shows "copy_kernel_log True cap off k = take (unat cap) (drop (unat off) (lastn 8192 hist))"
proof (cases "off < kernel_log_size_bytes k")
  case False
  then show ?thesis
    using h c by (auto simp: copy_kernel_log_def kKernelLogCapacity_def klog_holds_def word_less_nat_alt)
next
  case True
  let ?n = "length hist" and ?sz = "kernel_log_size_bytes k"
  have sz: "unat ?sz = min 8192 ?n" and hd: "unat (kernel_log_head k) = ?n mod 8192"
    using h by (simp_all add: klog_holds_def)
  have off: "unat off < unat ?sz" using True by (simp add: word_less_nat_alt)
  define t where "t = (if ?sz - off < cap then ?sz - off else cap)"
  have t: "unat t = min (unat ?sz - unat off) (unat cap)"
    using off unat_sub_word [of off ?sz] by (auto simp: t_def word_less_nat_alt word_le_nat_alt)
  have "map (\<lambda>i. kernel_log k ! unat (((kernel_log_head k + 8192 - ?sz + off) mod 8192 + i) mod 8192)) (wrange 0 t)
      = map (\<lambda>i. hist ! (?n - unat ?sz + unat off + unat i)) (wrange 0 t)"
  proof (rule map_cong [OF refl])
    fix i assume "i \<in> set (wrange 0 t)"
    then have i: "unat i < unat t" by (simp add: word_less_nat_alt)
    then have "?n - unat ?sz + unat off + unat i < ?n" "?n \<le> ?n - unat ?sz + unat off + unat i + 8192"
      using off t sz by linarith+
    then have "kernel_log k ! ((?n - unat ?sz + unat off + unat i) mod 8192) = hist ! (?n - unat ?sz + unat off + unat i)"
      using h unfolding klog_holds_def by blast
    moreover have "unat off < 8192" "unat i < 8192" using i off t sz by linarith+
    ultimately show "kernel_log k ! unat (((kernel_log_head k + 8192 - ?sz + off) mod 8192 + i) mod 8192)
        = hist ! (?n - unat ?sz + unat off + unat i)"
      by (simp add: copy_position [OF hd sz])
  qed
  also have "\<dots> = map (\<lambda>i. hist ! (?n - unat ?sz + unat off + i)) [0..<unat t]" by (rule map_unat_wrange)
  also have "\<dots> = take (unat cap) (drop (unat off) (lastn 8192 hist))"
    using off by (intro nth_equalityI) (auto simp: t sz lastn_def intro!: arg_cong [of _ _ "(!) hist"])
  finally show ?thesis
    using True c by (auto simp: copy_kernel_log_def kKernelLogCapacity_def t_def Let_def word_less_nat_alt)
qed

text \<open>C34. Reading the kernel log gives the end of what was logged: after any sequence of messages, from the
  start of the kernel, \<open>copy_kernel_log\<close> returns the bytes from \<open>offset\<close> on, at most \<open>capacity\<close> of them,
  of the last 8192 bytes of all lines logged.\<close>

theorem kernel_log_keeps_last:
  assumes "0 < unat cap" "unat cap \<le> 8192"
  shows "copy_kernel_log True cap off (fold do_log rs initial_klog)
    = take (unat cap) (drop (unat off) (lastn 8192 (concat (map log_bytes rs))))"
proof -
  have "klog_holds [] initial_klog" by (simp add: klog_holds_def initial_klog_def)
  from do_logs_hold [OF this, of rs] show ?thesis by (simp add: copy_holds [OF _ assms])
qed

theorem kernel_log_keeps_last_witness:
  "copy_kernel_log True 16 8 (fold do_log [Log Info (ascii ''up'')] initial_klog) = ascii ''up'' @ [10]"
  using kernel_log_keeps_last [of 16 8 "[Log Info (ascii ''up'')]"] by (simp add: ascii_def lastn_def)

end
