(* ===== verification/Path.thy ===== *)
theory Path
  imports Prelude
begin

text \<open>
  Path names: the normalisation, the comparisons and the bounded copies of \<open>kernel/src/fs/vfs.cpp\<close> and
  \<open>kernel/src/userspace/userspace.cpp\<close>, and what they mean for paths read as lists of names. A
  character array of the code is the text in front of its terminating zero.
\<close>

section \<open>The routines\<close>

abbreviation slash :: char where "slash \<equiv> CHR ''/''"

definition path_equal :: "string \<Rightarrow> string \<Rightarrow> bool" where "path_equal a b \<longleftrightarrow> a = b"

text \<open>\<open>out\<close> without its last name: the two inner loops for a \<open>..\<close> component.\<close>

function drop_name :: "string \<Rightarrow> string" where
  "drop_name out = (if 1 < length out \<and> last out \<noteq> slash then drop_name (butlast out) else out)"
  by pat_completeness auto
termination by (relation "measure length") auto

declare drop_name.simps [simp del]

definition back_up :: "string \<Rightarrow> string" where
  "back_up out = (if 1 < length out then
       let out = drop_name out in if 1 < length out \<and> last out = slash then butlast out else out
     else out)"

lemma rest_shorter:
  assumes "dropWhile (\<lambda>c. c = slash) rest \<noteq> []"
  shows "length (dropWhile (\<lambda>c. c \<noteq> slash) (dropWhile (\<lambda>c. c = slash) rest)) < length rest"
proof (cases "dropWhile (\<lambda>c. c = slash) rest")
  case (Cons c r)
  then have "c \<noteq> slash" using hd_dropWhile [OF assms] by simp
  moreover have "length (c # r) \<le> length rest" using length_dropWhile_le [of "\<lambda>c. c = slash" rest] Cons by simp
  ultimately show ?thesis using Cons length_dropWhile_le [of "\<lambda>c. c \<noteq> slash" r] by simp
qed (use assms in simp)

text \<open>The loop over the components of the rest of the path; \<open>out\<close> is the text before \<open>out_len\<close>.\<close>

function norm_loop :: "nat \<Rightarrow> string \<Rightarrow> string \<Rightarrow> string option" where
  "norm_loop N out rest =
     (let r = dropWhile (\<lambda>c. c = slash) rest in
      if r = [] then Some out
      else let name = takeWhile (\<lambda>c. c \<noteq> slash) r; rest = dropWhile (\<lambda>c. c \<noteq> slash) r in
        if name = ''.'' then norm_loop N out rest
        else if name = ''..'' then norm_loop N (back_up out) rest
        else if length out \<noteq> 1 \<and> N \<le> length out + 1 then None
        else let out = (if length out \<noteq> 1 then out @ [slash] else out) in
          if N \<le> length out + length name then None else norm_loop N (out @ name) rest)"
  by pat_completeness auto
termination by (relation "measure (\<lambda>(N, out, rest). length rest)") (simp_all add: rest_shorter)

declare norm_loop.simps [simp del]

definition normalize_path :: "cstr \<Rightarrow> string option" where
  "normalize_path path = (case path of None \<Rightarrow> None
     | Some p \<Rightarrow> if p = [] \<or> hd p \<noteq> slash then None else norm_loop 64 [slash] (tl p))"

text \<open>The copy of the routine in the process manager, for a buffer of \<open>N\<close> characters.\<close>

definition normalize_absolute_path :: "nat \<Rightarrow> cstr \<Rightarrow> string option" where
  "normalize_absolute_path N path = (case path of None \<Rightarrow> None
     | Some p \<Rightarrow> if p = [] \<or> hd p \<noteq> slash \<or> N < 2 then None
         else map_option (\<lambda>out. if length out = 0 then [slash] else out) (norm_loop N [slash] (tl p)))"

text \<open>The code reads \<open>directory[i - 1]\<close>; no caller passes an empty directory.\<close>

definition path_has_prefix_child :: "string \<Rightarrow> string \<Rightarrow> bool" where
  "path_has_prefix_child path directory =
     (if path_equal path directory then False
      else if take (length directory) path \<noteq> directory then False
      else last directory = slash \<or> (length directory < length path \<and> path ! length directory = slash))"

definition path_is_direct_child :: "string \<Rightarrow> string \<Rightarrow> bool" where
  "path_is_direct_child path directory =
     (if \<not> path_has_prefix_child path directory then False
      else let start = length directory in
        if 1 < start \<and> \<not> (start < length path \<and> path ! start = slash) then False
        else let start = (if 1 < start then start + 1 else start) in
          start < length path \<and> slash \<notin> set (drop start path))"

text \<open>The text after the last slash that is not the final character: \<open>name\<close> moves at each such slash.\<close>

fun basename_loop :: "string \<Rightarrow> string \<Rightarrow> string" where
  "basename_loop name [] = name"
| "basename_loop name (c # rest) = basename_loop (if c = slash \<and> rest \<noteq> [] then rest else name) rest"

definition basename_of :: "cstr \<Rightarrow> string" where
  "basename_of path = (case path of None \<Rightarrow> [] | Some p \<Rightarrow> basename_loop p p)"

text \<open>The bounded copies keep what fits in front of the terminating zero.\<close>

definition copy_text :: "nat \<Rightarrow> cstr \<Rightarrow> string" where
  "copy_text N t = (case t of None \<Rightarrow> [] | Some s \<Rightarrow> take (N - 1) s)"

definition copy_path :: "cstr \<Rightarrow> string" where
  "copy_path path = (case path of None \<Rightarrow> [] | Some s \<Rightarrow> take 63 s)"

definition copy_path_checked :: "cstr \<Rightarrow> string option" where
  "copy_path_checked path = (case normalize_path path of None \<Rightarrow> None | Some out \<Rightarrow> if 1 < length out then Some out else None)"

fun slash_before :: "string \<Rightarrow> nat \<Rightarrow> nat" where
  "slash_before p 0 = 0"
| "slash_before p (Suc k) = (if Suc k < length p \<and> p ! Suc k = slash then Suc k else slash_before p k)"

definition parent_path :: "cstr \<Rightarrow> string option" where
  "parent_path path = (case normalize_path path of None \<Rightarrow> None
     | Some normalized \<Rightarrow> if length normalized \<le> 1 then None
         else let s = slash_before normalized (length normalized) in
           if s = 0 then Some [slash] else Some (take s normalized))"

definition string_length_bounded :: "cstr \<Rightarrow> nat \<Rightarrow> nat" where
  "string_length_bounded t m = (case t of None \<Rightarrow> m + 1 | Some s \<Rightarrow> if length s \<le> m then length s else m + 1)"

text \<open>\<open>cwd\<close> is the process's \<open>current_directory\<close>, an array of 64 characters.\<close>

definition resolve_process_path :: "string \<Rightarrow> cstr \<Rightarrow> string option" where
  "resolve_process_path cwd path = (case path of None \<Rightarrow> None
     | Some p \<Rightarrow> if p = [] then None
       else if hd p = slash then normalize_absolute_path 64 (Some p)
       else let cwd_len = string_length_bounded (Some cwd) 63; path_len = string_length_bounded (Some p) 63 in
         if cwd_len = 0 \<or> 64 \<le> cwd_len \<or> path_len = 0 \<or> 64 \<le> path_len then None
         else if (cwd_len \<noteq> 1 \<or> hd cwd \<noteq> slash) \<and> 64 \<le> cwd_len + 1 then None
         else let combined = (if cwd_len \<noteq> 1 \<or> hd cwd \<noteq> slash then cwd @ [slash] else cwd) in
           if 64 \<le> length combined + path_len then None
           else normalize_absolute_path 64 (Some (combined @ p)))"

section \<open>Paths as lists of names\<close>

text \<open>The names between the slashes of a path, and the path of a list of names.\<close>

function names :: "string \<Rightarrow> string list" where
  "names rest = (let r = dropWhile (\<lambda>c. c = slash) rest in
     if r = [] then [] else takeWhile (\<lambda>c. c \<noteq> slash) r # names (dropWhile (\<lambda>c. c \<noteq> slash) r))"
  by pat_completeness auto
termination by (relation "measure length") (simp_all add: rest_shorter)

declare names.simps [simp del]

definition render :: "string list \<Rightarrow> string" where
  "render ns = (if ns = [] then [slash] else concat (map (\<lambda>n. slash # n) ns))"

text \<open>A name: not empty, without a slash, and not one of the two names with a meaning.\<close>

definition proper :: "string \<Rightarrow> bool" where
  "proper n \<longleftrightarrow> n \<noteq> [] \<and> slash \<notin> set n \<and> n \<noteq> ''.'' \<and> n \<noteq> ''..''"

text \<open>The directory a walk along the names ends in.\<close>

definition step_name :: "string list \<Rightarrow> string \<Rightarrow> string list" where
  "step_name at n = (if n = ''.'' then at else if n = ''..'' then butlast at else at @ [n])"

definition walk_names :: "string list \<Rightarrow> string list \<Rightarrow> string list" where
  "walk_names at ns = foldl step_name at ns"

section \<open>Rendered paths\<close>

lemma render_snoc: "render (ns @ [n]) = (if ns = [] then [] else render ns) @ slash # n"
  by (simp add: render_def)

lemma render_not_Nil [simp]: "render ns \<noteq> []"
  by (cases ns) (simp_all add: render_def)

lemma hd_render [simp]: "hd (render ns) = slash"
  by (cases ns) (simp_all add: render_def)

lemma length_render_pos [simp]: "0 < length (render ns)"
  by simp

lemma length_render_1: "\<forall>n \<in> set ns. proper n \<Longrightarrow> length (render ns) = 1 \<longleftrightarrow> ns = []"
  by (cases ns rule: rev_cases) (auto simp: render_def proper_def)

lemma last_render: "\<forall>n \<in> set ns. proper n \<Longrightarrow> last (render ns) = slash \<longleftrightarrow> ns = []"
proof (cases ns rule: rev_cases)
  case (snoc ms m)
  assume "\<forall>n \<in> set ns. proper n"
  then have "m \<noteq> []" "slash \<notin> set m" using snoc by (auto simp: proper_def)
  then have "last m \<noteq> slash" by (metis last_in_set)
  with snoc \<open>m \<noteq> []\<close> show ?thesis by (simp add: render_snoc)
qed (simp add: render_def)

lemma drop_name_append: "slash \<notin> set n \<Longrightarrow> drop_name (p @ slash # n) = p @ [slash]"
proof (induction n rule: rev_induct)
  case Nil
  then show ?case by (simp add: drop_name.simps)
next
  case (snoc c n)
  then show ?case using drop_name.simps [of "p @ slash # n @ [c]"] by (auto simp: butlast_append)
qed

lemma back_up_render: "\<forall>n \<in> set ns. proper n \<Longrightarrow> back_up (render ns) = render (butlast ns)"
proof (cases ns rule: rev_cases)
  case (snoc ms m)
  assume a: "\<forall>n \<in> set ns. proper n"
  then have m: "m \<noteq> []" "slash \<notin> set m" using snoc by (auto simp: proper_def)
  have "1 < length (render ns)" using snoc m by (simp add: render_snoc)
  moreover have "drop_name (render ns) = (if ms = [] then [] else render ms) @ [slash]"
    using snoc m by (simp add: render_snoc drop_name_append)
  moreover have "ms \<noteq> [] \<Longrightarrow> 1 < length (render ms)" using a snoc length_render_1 [of ms]
    by (metis One_nat_def Suc_lessI UnCI length_render_pos set_append)
  ultimately show ?thesis using snoc by (cases "ms = []") (simp_all add: back_up_def render_def)
qed (simp add: back_up_def render_def)

lemma step_name_proper: "\<forall>n \<in> set at. proper n \<Longrightarrow> n \<noteq> [] \<Longrightarrow> slash \<notin> set n \<Longrightarrow> \<forall>m \<in> set (step_name at n). proper m"
  by (auto simp: step_name_def proper_def dest: in_set_butlastD)

lemma names_Nil: "dropWhile (\<lambda>c. c = slash) rest = [] \<Longrightarrow> names rest = []"
  by (subst names.simps) (simp only: Let_def if_True simp_thms)

lemma names_split:
  assumes "dropWhile (\<lambda>c. c = slash) rest = r" "r \<noteq> []"
  shows "names rest = takeWhile (\<lambda>c. c \<noteq> slash) r # names (dropWhile (\<lambda>c. c \<noteq> slash) r)"
    and "takeWhile (\<lambda>c. c \<noteq> slash) r \<noteq> []" and "slash \<notin> set (takeWhile (\<lambda>c. c \<noteq> slash) r)"
proof -
  show "names rest = takeWhile (\<lambda>c. c \<noteq> slash) r # names (dropWhile (\<lambda>c. c \<noteq> slash) r)"
    using assms by (subst names.simps) (simp only: Let_def if_False simp_thms)
  have "hd r \<noteq> slash" using assms hd_dropWhile by blast
  then show "takeWhile (\<lambda>c. c \<noteq> slash) r \<noteq> []" using assms(2) by (cases r) auto
  show "slash \<notin> set (takeWhile (\<lambda>c. c \<noteq> slash) r)" by (auto dest: set_takeWhileD)
qed

lemma names_nonempty: "n \<in> set (names rest) \<Longrightarrow> n \<noteq> [] \<and> slash \<notin> set n"
proof (induction rest rule: names.induct)
  case (1 rest)
  show ?case
  proof (cases "dropWhile (\<lambda>c. c = slash) rest = []")
    case True
    then show ?thesis using "1.prems" names_Nil by simp
  next
    case False
    with "1.prems" show ?thesis using names_split [OF refl False] "1.IH" [OF refl False] by auto
  qed
qed

section \<open>Normalisation walks the names\<close>

text \<open>Every directory on the walk has a path of less than \<open>N\<close> characters.\<close>

fun walk_fits :: "nat \<Rightarrow> string list \<Rightarrow> string list \<Rightarrow> bool" where
  "walk_fits N at [] = True"
| "walk_fits N at (n # ns) = (length (render (step_name at n)) < N \<and> walk_fits N (step_name at n) ns)"

lemma norm_loop_step:
  assumes at: "\<forall>n \<in> set at. proper n" "length (render at) < N"
    and r: "dropWhile (\<lambda>c. c = slash) rest = r" "r \<noteq> []" "takeWhile (\<lambda>c. c \<noteq> slash) r = n" "n \<noteq> []"
  shows "norm_loop N (render at) rest =
    (if length (render (step_name at n)) < N then norm_loop N (render (step_name at n)) (dropWhile (\<lambda>c. c \<noteq> slash) r) else None)"
proof -
  have at': "length (render (butlast at)) < N"
    using at(2) by (cases at rule: rev_cases) (auto simp: render_snoc render_def split: if_splits)
  have one: "length (render at) = 1 \<longleftrightarrow> at = []" by (rule length_render_1 [OF at(1)])
  have app: "render (at @ [n]) = (if length (render at) \<noteq> 1 then render at @ [slash] else render at) @ n"
    unfolding one by (simp add: render_snoc) (simp add: render_def)
  have unfolded: "norm_loop N out rest =
      (let rest' = dropWhile (\<lambda>c. c \<noteq> slash) r in
        if n = ''.'' then norm_loop N out rest'
        else if n = ''..'' then norm_loop N (back_up out) rest'
        else if length out \<noteq> 1 \<and> N \<le> length out + 1 then None
        else let out = (if length out \<noteq> 1 then out @ [slash] else out) in
          if N \<le> length out + length n then None else norm_loop N (out @ n) rest')" for out
    by (subst norm_loop.simps) (simp only: Let_def r(1,3) r(2) if_False simp_thms)
  show ?thesis
  proof (cases "n = ''.'' \<or> n = ''..''")
    case True
    then show ?thesis
      unfolding unfolded [of "render at"] Let_def step_name_def back_up_render [OF at(1)]
      using at(2) at' by auto
  next
    case False
    moreover have "0 < length n" using r(4) by simp
    ultimately show ?thesis
      unfolding unfolded [of "render at"] Let_def step_name_def by (simp add: app)
  qed
qed

lemma norm_loop_names:
  assumes "\<forall>n \<in> set at. proper n" "length (render at) < N"
  shows "norm_loop N (render at) rest = (if walk_fits N at (names rest) then Some (render (walk_names at (names rest))) else None)"
  using assms
proof (induction rest arbitrary: at rule: names.induct)
  case (1 rest)
  let ?r = "dropWhile (\<lambda>c. c = slash) rest"
  show ?case
  proof (cases "?r = []")
    case True
    then have "norm_loop N (render at) rest = Some (render at)"
      by (subst norm_loop.simps) (simp only: Let_def if_True simp_thms)
    then show ?thesis by (simp add: names_Nil [OF True] walk_names_def)
  next
    case False
    let ?n = "takeWhile (\<lambda>c. c \<noteq> slash) ?r"
    note sp = names_split [OF refl False]
    have eqs: "norm_loop N (render at) rest = (if length (render (step_name at ?n)) < N
        then norm_loop N (render (step_name at ?n)) (dropWhile (\<lambda>c. c \<noteq> slash) ?r) else None)"
      by (rule norm_loop_step [OF "1.prems" refl False refl sp(2)])
    show ?thesis
    proof (cases "length (render (step_name at ?n)) < N")
      case True
      from "1.IH" [OF refl False step_name_proper [OF "1.prems"(1) sp(2,3)] True] True
      show ?thesis unfolding eqs sp(1) by (simp add: walk_names_def)
    next
      case False
      then show ?thesis unfolding eqs sp(1) by simp
    qed
  qed
qed

section \<open>Canonical paths\<close>

definition canonical :: "string \<Rightarrow> bool" where
  "canonical p \<longleftrightarrow> (\<exists>ns. p = render ns \<and> (\<forall>n \<in> set ns. proper n))"

lemma names_slash: "names (slash # p) = names p"
  by (simp only: names.simps [of "slash # p"] names.simps [of p] dropWhile.simps if_True simp_thms)

lemma takeWhile_name: "slash \<notin> set n \<Longrightarrow> p = [] \<or> hd p = slash \<Longrightarrow> takeWhile (\<lambda>c. c \<noteq> slash) (n @ p) = n"
  by (cases p) (auto simp: takeWhile_append)

lemma dropWhile_name: "slash \<notin> set n \<Longrightarrow> p = [] \<or> hd p = slash \<Longrightarrow> dropWhile (\<lambda>c. c \<noteq> slash) (n @ p) = p"
  by (cases p) (auto simp: dropWhile_append)

lemma names_append:
  assumes "n \<noteq> []" "slash \<notin> set n" "p = [] \<or> hd p = slash"
  shows "names (n @ p) = n # names p"
proof -
  have "dropWhile (\<lambda>c. c = slash) (n @ p) = n @ p" using assms by (cases n) auto
  from names_split(1) [OF this] assms show ?thesis by (simp add: takeWhile_name dropWhile_name)
qed

lemma names_concat: "\<forall>n \<in> set ns. proper n \<Longrightarrow> names (concat (map (\<lambda>n. slash # n) ns)) = ns"
proof (induction ns)
  case Nil
  then show ?case by (simp add: names_Nil)
next
  case (Cons n ns)
  have "names (n @ concat (map (\<lambda>n. slash # n) ns)) = n # names (concat (map (\<lambda>n. slash # n) ns))"
    using Cons.prems by (intro names_append) (simp_all add: proper_def, cases ns, simp_all)
  with Cons show ?case by (simp add: names_slash)
qed

lemma names_render [simp]: "\<forall>n \<in> set ns. proper n \<Longrightarrow> names (render ns) = ns"
  by (simp add: render_def names_concat names_slash names_Nil)

lemma names_tl_render: "\<forall>n \<in> set ns. proper n \<Longrightarrow> names (tl (render ns)) = ns"
  using names_slash [of "tl (render ns)"] names_render [of ns] hd_Cons_tl [OF render_not_Nil, of ns] by simp

lemma render_inject: "\<forall>n \<in> set ns. proper n \<Longrightarrow> \<forall>n \<in> set ms. proper n \<Longrightarrow> render ns = render ms \<longleftrightarrow> ns = ms"
  by (metis names_render)

lemma canonical_names: "canonical p \<Longrightarrow> render (names p) = p \<and> (\<forall>n \<in> set (names p). proper n)"
  by (auto simp: canonical_def)

lemma walk_proper: "\<forall>n \<in> set ns. proper n \<Longrightarrow> walk_names at ns = at @ ns"
  by (induction ns arbitrary: at) (auto simp: walk_names_def step_name_def proper_def)

lemma walk_keeps_proper:
  "\<forall>n \<in> set at. proper n \<Longrightarrow> \<forall>n \<in> set ns. n \<noteq> [] \<and> slash \<notin> set n \<Longrightarrow> \<forall>n \<in> set (walk_names at ns). proper n"
proof (induction ns arbitrary: at)
  case (Cons n ns)
  then have "\<forall>m \<in> set (step_name at n). proper m" by (intro step_name_proper) auto
  from Cons.IH [OF this] Cons.prems show ?case by (simp add: walk_names_def)
qed (simp add: walk_names_def)

lemma length_render_append: "length (render ns) \<le> length (render (ns @ ms))"
  by (cases ns; cases ms) (simp_all add: render_def)

lemma walk_fits_proper: "\<forall>n \<in> set ns. proper n \<Longrightarrow> length (render (at @ ns)) < N \<Longrightarrow> walk_fits N at ns"
proof (induction ns arbitrary: at)
  case (Cons n ns)
  have "length (render (at @ [n])) < N" using length_render_append [of "at @ [n]" ns] Cons.prems by simp
  with Cons show ?case by (simp add: step_name_def proper_def)
qed simp

lemma walk_fits_length: "walk_fits N at ns \<Longrightarrow> length (render at) < N \<Longrightarrow> length (render (walk_names at ns)) < N"
  by (induction ns arbitrary: at) (auto simp: walk_names_def)

lemma norm_loop_root: "norm_loop 64 [slash] p = (if walk_fits 64 [] (names p) then Some (render (walk_names [] (names p))) else None)"
  using norm_loop_names [of "[]" 64 p] by (simp add: render_def)

lemma normalize_Some:
  assumes "normalize_path p = Some q"
  obtains ns where "q = render ns" "\<forall>n \<in> set ns. proper n" "length q < 64"
proof -
  from assms obtain s where p: "p = Some s" and q: "norm_loop 64 [slash] (tl s) = Some q"
    by (auto simp: normalize_path_def split: option.splits if_splits)
  then have w: "walk_fits 64 [] (names (tl s))" "q = render (walk_names [] (names (tl s)))"
    by (simp_all add: norm_loop_root split: if_splits)
  moreover have "\<forall>n \<in> set (walk_names [] (names (tl s))). proper n"
    using names_nonempty by (intro walk_keeps_proper) auto
  moreover have "length q < 64" using walk_fits_length [OF w(1)] w(2) by (simp add: render_def)
  ultimately show thesis using that by blast
qed

lemma normalize_render:
  assumes "\<forall>n \<in> set ns. proper n" "length (render ns) < 64"
  shows "normalize_path (Some (render ns)) = Some (render ns)"
  using assms walk_fits_proper [of ns "[]" 64]
  by (simp add: normalize_path_def norm_loop_root names_tl_render walk_proper)

lemma normalize_absolute_eq: "normalize_absolute_path 64 p = normalize_path p"
proof (cases p)
  case (Some s)
  have "map_option (\<lambda>out. if length out = 0 then [slash] else out) (norm_loop 64 [slash] (tl s)) = norm_loop 64 [slash] (tl s)"
    by (simp add: norm_loop_root)
  with Some show ?thesis by (simp add: normalize_absolute_path_def normalize_path_def)
qed (simp add: normalize_absolute_path_def normalize_path_def)

section \<open>The tests on canonical paths\<close>

lemma slash_before_last:
  "slash \<notin> set n \<Longrightarrow> k \<le> length (p @ slash # n) \<Longrightarrow> length p \<le> k \<Longrightarrow> 0 < length p \<Longrightarrow> slash_before (p @ slash # n) k = length p"
proof (induction k)
  case (Suc k)
  show ?case
  proof (cases "Suc k = length p")
    case True
    then show ?thesis unfolding slash_before.simps by simp
  next
    case False
    then have k: "length p \<le> k" using Suc.prems by simp
    have "n ! (k - length p) \<noteq> slash" if "k < length p + length n"
    proof -
      have "n ! (k - length p) \<in> set n" using that k by (intro nth_mem) simp
      then show ?thesis using Suc.prems(1) by metis
    qed
    then have "\<not> (Suc k < length (p @ slash # n) \<and> (p @ slash # n) ! Suc k = slash)"
      using Suc.prems(1) k by (auto simp: nth_append nth_Cons Suc_diff_le)
    with Suc k show ?thesis by auto
  qed
qed simp

lemma slash_before_none: "slash \<notin> set n \<Longrightarrow> slash_before (slash # n) k = 0"
  by (induction k) (auto dest: nth_mem)

lemma parent_render:
  assumes "\<forall>m \<in> set (ns @ [n]). proper m" "length (render (ns @ [n])) < 64"
  shows "parent_path (Some (render (ns @ [n]))) = Some (render ns)"
proof -
  have n: "n \<noteq> []" "slash \<notin> set n" using assms(1) by (auto simp: proper_def)
  have "1 < length (render (ns @ [n]))" using n by (simp add: render_snoc)
  moreover have "slash_before (render (ns @ [n])) (length (render (ns @ [n]))) = (if ns = [] then 0 else length (render ns))"
    using n slash_before_last [of n _ "render ns"] slash_before_none [of n] by (simp add: render_snoc)
  ultimately show ?thesis
    using normalize_render [OF assms] by (simp add: parent_path_def render_snoc) (simp add: render_def)
qed

lemma basename_render:
  assumes "\<forall>m \<in> set (ns @ [n]). proper m"
  shows "basename_of (Some (render (ns @ [n]))) = n"
proof -
  have n: "n \<noteq> []" "slash \<notin> set n" using assms by (auto simp: proper_def)
  have b: "slash \<notin> set m \<Longrightarrow> basename_loop x m = x" for x m
    by (induction m) auto
  have "basename_loop x (p @ slash # n) = n" for x p
    using n by (induction p arbitrary: x) (simp_all add: b)
  then show ?thesis by (simp add: basename_of_def render_snoc)
qed

lemma names_render_append:
  "\<forall>n \<in> set ns. proper n \<Longrightarrow> p = [] \<or> hd p = slash \<Longrightarrow> names (concat (map (\<lambda>n. slash # n) ns) @ p) = ns @ names p"
proof (induction ns)
  case (Cons n ns)
  have "names (n @ (concat (map (\<lambda>n. slash # n) ns) @ p)) = n # names (concat (map (\<lambda>n. slash # n) ns) @ p)"
    using Cons.prems by (intro names_append) (simp_all add: proper_def, cases ns, simp_all)
  with Cons show ?case by (simp add: names_slash)
qed simp

lemma render_append: "ns \<noteq> [] \<Longrightarrow> render (ns @ ms) = render ns @ concat (map (\<lambda>n. slash # n) ms)"
  by (simp add: render_def)

lemma prefix_child_render:
  assumes a: "\<forall>n \<in> set as. proper n" and b: "\<forall>n \<in> set bs. proper n"
  shows "path_has_prefix_child (render as) (render bs) \<longleftrightarrow> (\<exists>ms. ms \<noteq> [] \<and> as = bs @ ms)"
proof (cases "bs = []")
  case True
  have "take 1 (render as) = [slash]" using hd_render [of as] by (cases "render as") simp_all
  then show ?thesis using True a render_inject [of as "[]"]
    by (auto simp: path_has_prefix_child_def path_equal_def render_def)
next
  case False
  let ?d = "render bs"
  have d: "?d = concat (map (\<lambda>n. slash # n) bs)" using False by (simp add: render_def)
  show ?thesis
  proof
    assume p: "path_has_prefix_child (render as) ?d"
    then have ne: "as \<noteq> bs" and t: "take (length ?d) (render as) = ?d"
      and s: "drop (length ?d) (render as) \<noteq> [] \<and> hd (drop (length ?d) (render as)) = slash"
      using last_render [OF b] False
      by (auto simp: path_has_prefix_child_def path_equal_def hd_drop_conv_nth split: if_splits)
    have "as = names (?d @ drop (length ?d) (render as))"
      using t append_take_drop_id [of "length ?d" "render as"] names_render [OF a] by simp
    also have "\<dots> = bs @ names (drop (length ?d) (render as))"
      unfolding d using names_render_append [OF b, of "drop (length ?d) (render as)"] s d by simp
    finally show "\<exists>ms. ms \<noteq> [] \<and> as = bs @ ms" using ne by (metis append_Nil2)
  next
    assume "\<exists>ms. ms \<noteq> [] \<and> as = bs @ ms"
    then obtain m ms where "as = bs @ m # ms" by (auto simp: neq_Nil_conv)
    then show "path_has_prefix_child (render as) ?d"
      using False by (simp add: path_has_prefix_child_def path_equal_def render_append)
  qed
qed

lemma direct_child_render:
  assumes a: "\<forall>n \<in> set as. proper n" and b: "\<forall>n \<in> set bs. proper n"
  shows "path_is_direct_child (render as) (render bs) \<longleftrightarrow> (\<exists>n. as = bs @ [n])"
proof (cases "path_has_prefix_child (render as) (render bs)")
  case True
  then obtain m ms where as: "as = bs @ m # ms"
    unfolding prefix_child_render [OF a b] by (auto simp: neq_Nil_conv)
  let ?t = "m @ concat (map (\<lambda>n. slash # n) ms)"
  have m: "m \<noteq> []" "slash \<notin> set m" using a as by (auto simp: proper_def)
  then have one: "slash \<notin> set ?t \<longleftrightarrow> ms = []" by (cases ms) auto
  have l: "length (render bs) = 1 \<longleftrightarrow> bs = []" by (rule length_render_1 [OF b])
  have r: "render as = (if bs = [] then [] else render bs) @ slash # ?t"
    using as by (simp add: render_append) (simp add: render_def)
  show ?thesis
  proof (cases "bs = []")
    case True
    then have "path_is_direct_child (render as) (render bs) \<longleftrightarrow> ?t \<noteq> [] \<and> slash \<notin> set ?t"
      using \<open>path_has_prefix_child (render as) (render bs)\<close> r by (simp add: path_is_direct_child_def render_def)
    then show ?thesis using one as True m by simp
  next
    case False
    then have "1 < length (render bs)" using l length_render_pos [of bs] by linarith
    then have "path_is_direct_child (render as) (render bs) \<longleftrightarrow> ?t \<noteq> [] \<and> slash \<notin> set ?t"
      using \<open>path_has_prefix_child (render as) (render bs)\<close> r False by (simp add: path_is_direct_child_def)
    then show ?thesis using one as m by simp
  qed
next
  case False
  then show ?thesis using prefix_child_render [OF a b] by (auto simp: path_is_direct_child_def)
qed

text \<open>Resolving a path of a process: the walk starts at the root or in the current directory.\<close>

lemma names_tl: "q \<noteq> [] \<Longrightarrow> hd q = slash \<Longrightarrow> names (tl q) = names q"
  by (metis list.collapse names_slash)

lemma walk_fits_append: "walk_fits N at (xs @ ys) \<longleftrightarrow> walk_fits N at xs \<and> walk_fits N (walk_names at xs) ys"
  by (induction xs arbitrary: at) (simp_all add: walk_names_def)

lemma resolve_relative:
  assumes d: "\<forall>n \<in> set ds. proper n" and p: "p \<noteq> []" "hd p \<noteq> slash" and l: "length (render ds) + 1 + length p < 64"
  shows "resolve_process_path (render ds) (Some p) = (if walk_fits 64 ds (names p) then Some (render (walk_names ds (names p))) else None)"
proof -
  define q where "q = (if ds = [] then [slash] else render ds @ [slash]) @ p"
  have one: "length (render ds) = 1 \<longleftrightarrow> ds = []" by (rule length_render_1 [OF d])
  have hd: "q \<noteq> []" "hd q = slash" by (simp_all add: q_def)
  have "names q = ds @ names p"
    using names_render_append [OF d, of "slash # p"] by (simp add: q_def names_slash) (simp add: render_def)
  then have "names (tl q) = ds @ names p" using names_tl [OF hd] by simp
  moreover have "walk_fits 64 [] (ds @ names p) = walk_fits 64 ds (names p)"
    using walk_fits_proper [OF d, of "[]" 64] walk_proper [OF d, of "[]"] l by (simp add: walk_fits_append)
  moreover have "walk_names [] (ds @ names p) = walk_names ds (names p)"
    using walk_proper [OF d, of "[]"] by (simp add: walk_names_def)
  ultimately have "normalize_absolute_path 64 (Some q) = (if walk_fits 64 ds (names p) then Some (render (walk_names ds (names p))) else None)"
    using hd by (simp add: normalize_absolute_eq normalize_path_def norm_loop_root)
  moreover have "resolve_process_path (render ds) (Some p) = normalize_absolute_path 64 (Some q)"
    using p l one by (auto simp: resolve_process_path_def string_length_bounded_def Let_def q_def render_def)
  ultimately show ?thesis by simp
qed

section \<open>Properties\<close>

text \<open>C35. Normalisation is the walk along the names of the path: from the root, \<open>.\<close> stays, \<open>..\<close> goes up (and
  stays at the root), any other name goes down. The result is the path of the directory reached; the
  only failure is a directory on the way whose path does not fit in 63 characters.\<close>

theorem normalize_path_walks:
  "normalize_path (Some (slash # p)) = (if walk_fits 64 [] (names p) then Some (render (walk_names [] (names p))) else None)"
  by (simp add: normalize_path_def norm_loop_root)



text \<open>C37. The string tests of the file system mean what they say on the tree of names: for canonical paths,
  the parent is the path without its last name, the base name is that name, a path is below a directory
  exactly when its names extend the directory's, and a direct child exactly when they extend it by one.
  A relative path of a process is the walk from its current directory.\<close>

theorem path_tests_refine:
  assumes "\<forall>n \<in> set (as @ [a]). proper n" "\<forall>n \<in> set bs. proper n" "length (render (as @ [a])) < 64"
    and "p \<noteq> []" "hd p \<noteq> slash" "length (render bs) + 1 + length p < 64"
  shows "parent_path (Some (render (as @ [a]))) = Some (render as) \<and>
    basename_of (Some (render (as @ [a]))) = a \<and>
    (path_has_prefix_child (render (as @ [a])) (render bs) \<longleftrightarrow> (\<exists>ms. ms \<noteq> [] \<and> as @ [a] = bs @ ms)) \<and>
    (path_is_direct_child (render (as @ [a])) (render bs) \<longleftrightarrow> as = bs) \<and>
    resolve_process_path (render bs) (Some p) = (if walk_fits 64 bs (names p) then Some (render (walk_names bs (names p))) else None)"
  using assms parent_render [of as a] basename_render [of as a] prefix_child_render [of "as @ [a]" bs]
    direct_child_render [of "as @ [a]" bs] resolve_relative [of bs p] by auto

theorem path_tests_refine_witness:
  "parent_path (Some ''/proc/self'') = Some ''/proc'' \<and> resolve_process_path ''/proc'' (Some ''../dev'') = Some ''/dev''"
proof -
  have "names ''../dev'' = [''..'', ''dev'']" by code_simp
  then show ?thesis
    using path_tests_refine [of "[''proc'']" "''self''" "[''proc'']" "''../dev''"]
    by (simp add: proper_def render_def walk_names_def step_name_def)
qed

end
