(* ===== verification/Vfs.thy ===== *)
theory Vfs
  imports Path Terminal
begin

text \<open>
  The file system (\<open>kernel/src/fs/vfs.cpp\<close>, \<open>kernel/include/hk/fs/vfs.hpp\<close>): a table of nodes, each with a
  path, a table of files held in memory with their directories and links, and the open handles. A
  pointer into one of the tables is an index; \<open>nodes\<close> holds the first \<open>count_\<close> entries of its table, the
  others are \<open>Node{}\<close>. What the virtual files contain, the memory the boot files lie in and the addresses
  of the tables are parameters (\<open>vfs_env\<close>); the terminal behind \<open>/dev/tty\<close> is the model of it.
\<close>

section \<open>State\<close>

definition kMaxVfsNodes :: nat where "kMaxVfsNodes = 512"
definition kMaxFileHandles :: nat where "kMaxFileHandles = 32"
definition kMaxRamFiles :: nat where "kMaxRamFiles = 32"
definition kMaxRamDirectories :: nat where "kMaxRamDirectories = 8"
definition kMaxRamLinks :: nat where "kMaxRamLinks = 8"
definition kMaxMounts :: nat where "kMaxMounts = 8"
definition kMaxRamFileBytes :: u64 where "kMaxRamFileBytes = 4096"
definition kVirtualFileScratchBytes :: u64 where "kVirtualFileScratchBytes = 8192"

datatype NodeType = EmptyNode | Directory | MemoryFile | CharacterDevice | VirtualFile
datatype DeviceKind = NoDevice | NullDevice | ZeroDevice | TtyDevice | ConsoleDevice

text \<open>An enumerator of \<open>VirtualFileKind\<close> is its value in the underlying type \<open>uint8_t\<close>.\<close>

type_synonym VirtualFileKind = u8

definition virtual_kind_names :: "string list" where
  "virtual_kind_names =
     [''None'', ''ProcMeminfo'', ''ProcIomem'', ''ProcRtc'', ''ProcUptime'', ''ProcLoadavg'', ''ProcSchedDebug'',
      ''ProcStat'', ''ProcProcesses'', ''ProcSelfStatus'', ''ProcSelfStat'', ''ProcSelfMaps'', ''ProcSelfCmdline'',
      ''ProcSelfComm'', ''ProcSelfEnviron'', ''ProcSelfCwd'', ''ProcSelfExe'', ''ProcSelfRoot'', ''ProcSelfFd'',
      ''ProcSelfFdinfo'', ''ProcSelfLimits'', ''ProcSelfIo'', ''ProcMounts'', ''ProcMountinfo'',
      ''ProcSelfMountinfo'', ''ProcFilesystems'', ''ProcVfsStats'', ''ProcBlockBootdisk'', ''ProcDiskstats'',
      ''ProcPartitions'', ''ProcPciSummary'', ''ProcPciDevices'', ''ProcDevices'', ''ProcDriverSummary'',
      ''ProcDriverDevices'', ''ProcIrqSummary'', ''ProcInterrupts'', ''ProcTtySummary'', ''ProcCpuinfo'',
      ''ProcCpuSummary'', ''ProcCpuTopology'', ''ProcMmSummary'', ''ProcHeapinfo'', ''ProcVmstat'',
      ''ProcBuddyinfo'', ''ProcKmsg'', ''ProcNetSummary'', ''ProcNetDev'', ''ProcNetRoute'', ''ProcModules'',
      ''ProcBootinfo'', ''ProcFeatures'', ''ProcAbi'', ''ProcCmdline'', ''ProcHostname'', ''ProcOstype'',
      ''ProcOsrelease'', ''ProcPidMax'', ''ProcThreadsMax'', ''ProcCpuCount'', ''ProcOnlineCpuCount'',
      ''ProcCpuOnlineMask'', ''ProcCpuSchedulerMask'', ''ProcCpuParkedMask'', ''ProcTtyInputMode'',
      ''ProcTtyBufferedInput'', ''ProcTtyColumns'', ''ProcTtyRows'', ''ProcVmFreePages'', ''ProcVmUsedPages'',
      ''ProcVmTotalPages'', ''ProcVmMappedPages'', ''ProcVmHeapBytes'', ''ProcBootMode'', ''ProcBootFlags'',
      ''ProcBootOptions'', ''ProcMachine'', ''ProcModuleCount'', ''ProcFeatureFlags'', ''ProcAbiVersion'',
      ''ProcVersionString'']"

definition virtual_kind :: "string \<Rightarrow> VirtualFileKind" where
  "virtual_kind name = (case find_idx (\<lambda>n. n = name) virtual_kind_names of Some i \<Rightarrow> of_nat i | None \<Rightarrow> 0)"

abbreviation NoVirtual :: VirtualFileKind where "NoVirtual \<equiv> 0"

record RamFile =
  rf_used :: bool
  rf_path :: string
  rf_data :: "u8 list"
  rf_size :: u64

record RamDirectory =
  rd_used :: bool
  rd_path :: string

record RamLink =
  rl_used :: bool
  rl_path :: string
  rl_target :: "nat option"

text \<open>Where a path pointer points: to a constant text, or to the path field of a table entry, whose text
  changes when that entry is renamed.\<close>

datatype path_ref = Lit string | FilePath nat | DirPath nat | LinkPath nat

record Node =
  n_path :: "path_ref option"
  n_type :: NodeType
  n_base :: u64
  n_size :: u64
  n_writable :: bool
  n_disk_backed :: bool
  n_ram_file :: "nat option"
  n_device_kind :: DeviceKind
  n_virtual_kind :: VirtualFileKind

record FileHandle =
  h_id :: u32
  h_node :: "nat option"
  h_offset :: u64
  h_ref_count :: u32
  h_open :: bool
  h_dynamic_virtual :: bool
  h_path :: string

record MountRecord =
  m_used :: bool
  m_flags :: u32
  m_node_count :: u64
  m_total_bytes :: u64
  m_path :: string
  m_fs_type :: string
  m_source :: string

record VfsStats =
  ram_file_creates :: u64
  ram_file_create_rejects :: u64
  ram_directory_creates :: u64
  ram_directory_create_rejects :: u64
  ram_links_made :: u64
  ram_link_rejects :: u64
  ram_truncates :: u64
  ram_truncate_rejects :: u64
  ram_renames :: u64
  ram_rename_rejects :: u64
  ram_file_deletes :: u64
  ram_file_delete_rejects :: u64
  ram_directory_deletes :: u64
  ram_directory_delete_rejects :: u64
  ram_write_bytes :: u64
  ram_write_clipped_bytes :: u64

record vfs =
  nodes :: "Node list"
  handles :: "FileHandle list"
  ram_files :: "RamFile list"
  ram_directories :: "RamDirectory list"
  ram_links :: "RamLink list"
  mounts :: "MountRecord list"
  next_handle_id :: u32
  vstats :: VfsStats
  tty :: terminal

record vfs_env =
  render_virtual_file :: "VirtualFileKind \<Rightarrow> u64 \<Rightarrow> u8 list"
  render_dynamic_proc_file :: "string \<Rightarrow> u64 \<Rightarrow> u8 list"
  phys_byte :: "u64 \<Rightarrow> u8"
  data_address :: "nat \<Rightarrow> u64"

definition empty_node :: Node where
  "empty_node = \<lparr>n_path = None, n_type = EmptyNode, n_base = 0, n_size = 0, n_writable = False, n_disk_backed = False,
     n_ram_file = None, n_device_kind = NoDevice, n_virtual_kind = NoVirtual\<rparr>"

definition empty_handle :: FileHandle where
  "empty_handle = \<lparr>h_id = 0, h_node = None, h_offset = 0, h_ref_count = 0, h_open = False, h_dynamic_virtual = False, h_path = []\<rparr>"

definition empty_ram_file :: RamFile where
  "empty_ram_file = \<lparr>rf_used = False, rf_path = [], rf_data = replicate 4096 0, rf_size = 0\<rparr>"

definition empty_ram_directory :: RamDirectory where "empty_ram_directory = \<lparr>rd_used = False, rd_path = []\<rparr>"

definition empty_ram_link :: RamLink where "empty_ram_link = \<lparr>rl_used = False, rl_path = [], rl_target = None\<rparr>"

definition empty_mount :: MountRecord where
  "empty_mount = \<lparr>m_used = False, m_flags = 0, m_node_count = 0, m_total_bytes = 0, m_path = [], m_fs_type = [], m_source = []\<rparr>"

definition empty_vstats :: VfsStats where
  "empty_vstats = \<lparr>ram_file_creates = 0, ram_file_create_rejects = 0, ram_directory_creates = 0, ram_directory_create_rejects = 0,
     ram_links_made = 0, ram_link_rejects = 0, ram_truncates = 0, ram_truncate_rejects = 0, ram_renames = 0, ram_rename_rejects = 0,
     ram_file_deletes = 0, ram_file_delete_rejects = 0, ram_directory_deletes = 0, ram_directory_delete_rejects = 0,
     ram_write_bytes = 0, ram_write_clipped_bytes = 0\<rparr>"

definition count_stat :: "(VfsStats \<Rightarrow> VfsStats) \<Rightarrow> vfs \<Rightarrow> vfs" where
  "count_stat f v = v\<lparr>vstats := f (vstats v)\<rparr>"

section \<open>Nodes\<close>

fun ref_text :: "vfs \<Rightarrow> path_ref \<Rightarrow> string" where
  "ref_text v (Lit s) = s"
| "ref_text v (FilePath f) = rf_path (ram_files v ! f)"
| "ref_text v (DirPath d) = rd_path (ram_directories v ! d)"
| "ref_text v (LinkPath l) = rl_path (ram_links v ! l)"

definition node_path :: "vfs \<Rightarrow> Node \<Rightarrow> cstr" where "node_path v n = map_option (ref_text v) (n_path n)"

definition node_at :: "vfs \<Rightarrow> nat \<Rightarrow> Node" where
  "node_at v i = (if i < length (nodes v) then nodes v ! i else empty_node)"

text \<open>\<open>path_equal(node.path, p)\<close>: false for a null path.\<close>

definition has_path :: "vfs \<Rightarrow> string \<Rightarrow> Node \<Rightarrow> bool" where
  "has_path v p n \<longleftrightarrow> (case node_path v n of None \<Rightarrow> False | Some q \<Rightarrow> path_equal q p)"

definition find_node :: "vfs \<Rightarrow> cstr \<Rightarrow> nat option" where
  "find_node v path = (case normalize_path path of None \<Rightarrow> None | Some p \<Rightarrow> find_idx (has_path v p) (nodes v))"

definition add_node :: "Node \<Rightarrow> vfs \<Rightarrow> bool \<times> vfs" where
  "add_node n v =
     (if n_path n = None \<or> n_type n = EmptyNode \<or> kMaxVfsNodes \<le> length (nodes v) \<or> find_node v (node_path v n) \<noteq> None
      then (False, v) else (True, v\<lparr>nodes := nodes v @ [n]\<rparr>))"

definition register_directory :: "path_ref option \<Rightarrow> bool \<Rightarrow> vfs \<Rightarrow> bool \<times> vfs" where
  "register_directory path writable v = add_node \<lparr>n_path = path, n_type = Directory, n_base = 0, n_size = 0, n_writable = writable,
     n_disk_backed = False, n_ram_file = None, n_device_kind = NoDevice, n_virtual_kind = NoVirtual\<rparr> v"

definition register_memory_file :: "path_ref option \<Rightarrow> u64 \<Rightarrow> u64 \<Rightarrow> vfs \<Rightarrow> bool \<times> vfs" where
  "register_memory_file path base sz v = (if base = 0 \<or> sz = 0 then (False, v)
     else add_node \<lparr>n_path = path, n_type = MemoryFile, n_base = base, n_size = sz, n_writable = False,
       n_disk_backed = False, n_ram_file = None, n_device_kind = NoDevice, n_virtual_kind = NoVirtual\<rparr> v)"

definition register_disk_file :: "path_ref option \<Rightarrow> u64 \<Rightarrow> u64 \<Rightarrow> vfs \<Rightarrow> bool \<times> vfs" where
  "register_disk_file path base sz v = (if base = 0 \<or> sz = 0 then (False, v)
     else add_node \<lparr>n_path = path, n_type = MemoryFile, n_base = base, n_size = sz, n_writable = False,
       n_disk_backed = True, n_ram_file = None, n_device_kind = NoDevice, n_virtual_kind = NoVirtual\<rparr> v)"

definition register_character_device :: "path_ref option \<Rightarrow> DeviceKind \<Rightarrow> vfs \<Rightarrow> bool \<times> vfs" where
  "register_character_device path kind v = (if path = None \<or> kind = NoDevice then (False, v)
     else add_node \<lparr>n_path = path, n_type = CharacterDevice, n_base = 0, n_size = 0, n_writable = True,
       n_disk_backed = False, n_ram_file = None, n_device_kind = kind, n_virtual_kind = NoVirtual\<rparr> v)"

definition register_virtual_file :: "path_ref option \<Rightarrow> VirtualFileKind \<Rightarrow> vfs \<Rightarrow> bool \<times> vfs" where
  "register_virtual_file path kind v = (if path = None \<or> kind = NoVirtual then (False, v)
     else add_node \<lparr>n_path = path, n_type = VirtualFile, n_base = 0, n_size = 0, n_writable = False,
       n_disk_backed = False, n_ram_file = None, n_device_kind = NoDevice, n_virtual_kind = kind\<rparr> v)"

definition register_mount :: "cstr \<Rightarrow> cstr \<Rightarrow> cstr \<Rightarrow> u32 \<Rightarrow> u64 \<Rightarrow> u64 \<Rightarrow> vfs \<Rightarrow> bool \<times> vfs" where
  "register_mount path fs_type source flags node_count total_bytes v =
     (case normalize_path path of None \<Rightarrow> (False, v)
      | Some normalized \<Rightarrow>
        (case find_idx (\<lambda>m. m_used m \<and> path_equal (m_path m) normalized) (mounts v) of
           Some i \<Rightarrow> (True, v\<lparr>mounts := (mounts v)[i := (mounts v ! i)\<lparr>m_flags := flags, m_node_count := node_count,
             m_total_bytes := total_bytes, m_fs_type := copy_text 16 fs_type, m_source := copy_text 32 source\<rparr>]\<rparr>)
         | None \<Rightarrow>
           (case find_idx (\<lambda>m. \<not> m_used m) (mounts v) of None \<Rightarrow> (False, v)
            | Some i \<Rightarrow> (True, v\<lparr>mounts := (mounts v)[i := \<lparr>m_used = True, m_flags = flags, m_node_count = node_count,
                m_total_bytes = total_bytes, m_path = copy_path (Some normalized), m_fs_type = copy_text 16 fs_type,
                m_source = copy_text 32 source\<rparr>]\<rparr>))))"

section \<open>Files and directories held in memory\<close>

definition dir_exists :: "vfs \<Rightarrow> cstr \<Rightarrow> bool" where
  "dir_exists v path = (case find_node v path of None \<Rightarrow> False | Some i \<Rightarrow> n_type (nodes v ! i) = Directory)"

definition set_ram_file :: "nat \<Rightarrow> RamFile \<Rightarrow> vfs \<Rightarrow> vfs" where
  "set_ram_file f x v = v\<lparr>ram_files := (ram_files v)[f := x]\<rparr>"

definition set_ram_directory :: "nat \<Rightarrow> RamDirectory \<Rightarrow> vfs \<Rightarrow> vfs" where
  "set_ram_directory d x v = v\<lparr>ram_directories := (ram_directories v)[d := x]\<rparr>"

definition set_ram_link :: "nat \<Rightarrow> RamLink \<Rightarrow> vfs \<Rightarrow> vfs" where
  "set_ram_link l x v = v\<lparr>ram_links := (ram_links v)[l := x]\<rparr>"

definition ram_node :: "path_ref \<Rightarrow> u64 \<Rightarrow> u64 \<Rightarrow> nat \<Rightarrow> Node" where
  "ram_node path base sz f = \<lparr>n_path = Some path, n_type = MemoryFile, n_base = base, n_size = sz, n_writable = True,
     n_disk_backed = False, n_ram_file = Some f, n_device_kind = NoDevice, n_virtual_kind = NoVirtual\<rparr>"

definition create_ram_file :: "vfs_env \<Rightarrow> cstr \<Rightarrow> vfs \<Rightarrow> bool \<times> vfs" where
  "create_ram_file env path v =
     (let reject = (\<lambda>v. (False, count_stat (\<lambda>s. s\<lparr>ram_file_create_rejects := ram_file_create_rejects s + 1\<rparr>) v)) in
      case copy_path_checked path of None \<Rightarrow> reject v
      | Some normalized \<Rightarrow>
        if find_node v (Some normalized) \<noteq> None then reject v
        else case parent_path (Some normalized) of None \<Rightarrow> reject v
        | Some parent \<Rightarrow>
          if \<not> dir_exists v (Some parent) then reject v
          else case find_idx (\<lambda>f. \<not> rf_used f) (ram_files v) of None \<Rightarrow> reject v
          | Some f \<Rightarrow>
            (case copy_path_checked (Some normalized) of None \<Rightarrow> reject v
             | Some p \<Rightarrow>
               let v = set_ram_file f \<lparr>rf_used = True, rf_path = p, rf_data = replicate 4096 0, rf_size = 0\<rparr> v;
                   (ok, v) = add_node (ram_node (FilePath f) (data_address env f) 0 f) v
               in if ok then (True, count_stat (\<lambda>s. s\<lparr>ram_file_creates := ram_file_creates s + 1\<rparr>) v)
                  else reject (set_ram_file f empty_ram_file v)))"

text \<open>The conditions \<open>link_ram_file\<close> and \<open>truncate_ram_file\<close> put on the node they work on.\<close>

definition ram_target :: "vfs \<Rightarrow> cstr \<Rightarrow> nat option" where
  "ram_target v path = (case find_node v path of None \<Rightarrow> None
     | Some i \<Rightarrow> let n = nodes v ! i in
         if n_type n \<noteq> MemoryFile \<or> \<not> n_writable n \<or> n_disk_backed n then None else n_ram_file n)"

definition link_ram_file :: "vfs_env \<Rightarrow> cstr \<Rightarrow> cstr \<Rightarrow> vfs \<Rightarrow> bool \<times> vfs" where
  "link_ram_file env existing_path new_path v =
     (let reject = (\<lambda>v. (False, count_stat (\<lambda>s. s\<lparr>ram_link_rejects := ram_link_rejects s + 1\<rparr>) v)) in
      case (normalize_path existing_path, copy_path_checked new_path) of
        (Some existing, Some linked) \<Rightarrow>
          if find_node v (Some linked) \<noteq> None then reject v
          else (case ram_target v (Some existing) of None \<Rightarrow> reject v
          | Some f \<Rightarrow> (case parent_path (Some linked) of None \<Rightarrow> reject v
            | Some parent \<Rightarrow>
              if \<not> dir_exists v (Some parent) then reject v
              else case find_idx (\<lambda>l. \<not> rl_used l) (ram_links v) of None \<Rightarrow> reject v
              | Some l \<Rightarrow>
                let v = set_ram_link l \<lparr>rl_used = True, rl_path = copy_path (Some linked), rl_target = Some f\<rparr> v;
                    (ok, v) = add_node (ram_node (LinkPath l) (data_address env f) (rf_size (ram_files v ! f)) f) v
                in if ok then (True, count_stat (\<lambda>s. s\<lparr>ram_links_made := ram_links_made s + 1\<rparr>) v)
                   else reject (set_ram_link l empty_ram_link v)))
      | _ \<Rightarrow> reject v)"

definition resize :: "u64 \<Rightarrow> RamFile \<Rightarrow> RamFile" where
  "resize sz file =
     (let file = (if rf_size file < sz
        then file\<lparr>rf_data := fold (\<lambda>i d. d[unat i := 0]) (wrange (rf_size file) sz) (rf_data file)\<rparr> else file)
      in file\<lparr>rf_size := sz\<rparr>)"

definition truncate_ram_file :: "vfs_env \<Rightarrow> cstr \<Rightarrow> u64 \<Rightarrow> vfs \<Rightarrow> bool \<times> vfs" where
  "truncate_ram_file env path sz v =
     (let reject = (False, count_stat (\<lambda>s. s\<lparr>ram_truncate_rejects := ram_truncate_rejects s + 1\<rparr>) v) in
      case normalize_path path of None \<Rightarrow> reject
      | Some normalized \<Rightarrow>
        if kMaxRamFileBytes < sz then reject
        else case ram_target v (Some normalized) of None \<Rightarrow> reject
        | Some f \<Rightarrow>
          let v = set_ram_file f (resize sz (ram_files v ! f)) v;
              v = v\<lparr>nodes := map (\<lambda>n. if n_ram_file n \<noteq> Some f then n else n\<lparr>n_base := data_address env f, n_size := sz\<rparr>) (nodes v)\<rparr>;
              v = v\<lparr>handles := map (\<lambda>h. if h_open h \<and> h_node h \<noteq> None \<and> n_ram_file (node_at v (the (h_node h))) = Some f \<and> sz < h_offset h
                     then h\<lparr>h_offset := sz\<rparr> else h) (handles v)\<rparr>
          in (True, count_stat (\<lambda>s. s\<lparr>ram_truncates := ram_truncates s + 1\<rparr>) v))"

definition set_node_path :: "nat \<Rightarrow> path_ref \<Rightarrow> vfs \<Rightarrow> vfs" where
  "set_node_path i r v = v\<lparr>nodes := (nodes v)[i := (nodes v ! i)\<lparr>n_path := Some r\<rparr>]\<rparr>"

definition node_below :: "vfs \<Rightarrow> string \<Rightarrow> Node \<Rightarrow> bool" where
  "node_below v p n = (case node_path v n of None \<Rightarrow> False | Some q \<Rightarrow> path_has_prefix_child q p)"

text \<open>One round of the loop over the nodes: \<open>None\<close> goes on to the next node.\<close>

definition rename_at :: "string \<Rightarrow> string \<Rightarrow> nat \<Rightarrow> vfs \<Rightarrow> (bool \<times> vfs) option" where
  "rename_at old new i v =
     (let n = nodes v ! i;
          reject = Some (False, count_stat (\<lambda>s. s\<lparr>ram_rename_rejects := ram_rename_rejects s + 1\<rparr>) v);
          accept = (\<lambda>v. Some (True, count_stat (\<lambda>s. s\<lparr>ram_renames := ram_renames s + 1\<rparr>) v)) in
      if \<not> has_path v old n \<or> \<not> n_writable n \<or> n_disk_backed n then None
      else case n_ram_file n of
        Some f \<Rightarrow>
          if n_type n \<noteq> MemoryFile then None
          else (case find_idx (\<lambda>l. rl_used l \<and> path_equal (rl_path l) old) (ram_links v) of
            Some l \<Rightarrow> accept (set_node_path i (LinkPath l) (set_ram_link l ((ram_links v ! l)\<lparr>rl_path := copy_path (Some new)\<rparr>) v))
          | None \<Rightarrow>
              if \<not> rf_used (ram_files v ! f) \<or> \<not> path_equal (rf_path (ram_files v ! f)) old then reject
              else accept (set_node_path i (FilePath f) (set_ram_file f ((ram_files v ! f)\<lparr>rf_path := copy_path (Some new)\<rparr>) v)))
      | None \<Rightarrow>
          if n_type n \<noteq> Directory then None
          else if \<exists>c < length (nodes v). c \<noteq> i \<and> node_below v old (nodes v ! c) then reject
          else (case find_idx (\<lambda>d. rd_used d \<and> path_equal (rd_path d) old) (ram_directories v) of
            Some d \<Rightarrow> accept (set_node_path i (DirPath d) (set_ram_directory d ((ram_directories v ! d)\<lparr>rd_path := copy_path (Some new)\<rparr>) v))
          | None \<Rightarrow> None))"

fun rename_scan :: "string \<Rightarrow> string \<Rightarrow> nat list \<Rightarrow> vfs \<Rightarrow> (bool \<times> vfs) option" where
  "rename_scan old new [] v = None"
| "rename_scan old new (i # js) v = (case rename_at old new i v of Some r \<Rightarrow> Some r | None \<Rightarrow> rename_scan old new js v)"

definition rename_ram_node :: "cstr \<Rightarrow> cstr \<Rightarrow> vfs \<Rightarrow> bool \<times> vfs" where
  "rename_ram_node old_path new_path v =
     (let reject = (False, count_stat (\<lambda>s. s\<lparr>ram_rename_rejects := ram_rename_rejects s + 1\<rparr>) v) in
      case (normalize_path old_path, copy_path_checked new_path) of
        (Some old, Some new) \<Rightarrow>
          if path_equal old new \<or> find_node v (Some new) \<noteq> None then reject
          else (case parent_path (Some new) of None \<Rightarrow> reject
          | Some parent \<Rightarrow>
            if \<not> dir_exists v (Some parent) then reject
            else case rename_scan old new [0..<length (nodes v)] v of Some r \<Rightarrow> r | None \<Rightarrow> reject)
      | _ \<Rightarrow> reject)"

text \<open>\<open>nodes_\<close> without its entry \<open>i\<close>: the entries behind it move down by one.\<close>

definition remove_node :: "nat \<Rightarrow> vfs \<Rightarrow> vfs" where
  "remove_node i v = v\<lparr>nodes := take i (nodes v) @ drop (Suc i) (nodes v)\<rparr>"

definition delete_ram_file :: "cstr \<Rightarrow> vfs \<Rightarrow> bool \<times> vfs" where
  "delete_ram_file path v =
     (let reject = (False, count_stat (\<lambda>s. s\<lparr>ram_file_delete_rejects := ram_file_delete_rejects s + 1\<rparr>) v) in
      case normalize_path path of None \<Rightarrow> reject
      | Some normalized \<Rightarrow>
        (case find_idx (\<lambda>n. has_path v normalized n \<and> n_writable n \<and> n_ram_file n \<noteq> None) (nodes v) of None \<Rightarrow> reject
         | Some i \<Rightarrow>
           let f = the (n_ram_file (nodes v ! i)) in
           if \<exists>h \<in> set (handles v). h_open h \<and> h_node h \<noteq> None \<and> n_ram_file (node_at v (the (h_node h))) = Some f then reject
           else
             let v = (case find_idx (\<lambda>l. rl_used l \<and> path_equal (rl_path l) normalized) (ram_links v) of
                        Some l \<Rightarrow> set_ram_link l empty_ram_link v | None \<Rightarrow> v);
                 v = remove_node i v;
                 still_linked = (\<exists>n \<in> set (nodes v). n_type n = MemoryFile \<and> n_ram_file n = Some f);
                 v = (if still_linked then v else set_ram_file f empty_ram_file v)
             in (True, count_stat (\<lambda>s. s\<lparr>ram_file_deletes := ram_file_deletes s + 1\<rparr>) v)))"

definition create_ram_directory :: "cstr \<Rightarrow> vfs \<Rightarrow> bool \<times> vfs" where
  "create_ram_directory path v =
     (let reject = (\<lambda>v. (False, count_stat (\<lambda>s. s\<lparr>ram_directory_create_rejects := ram_directory_create_rejects s + 1\<rparr>) v)) in
      case copy_path_checked path of None \<Rightarrow> reject v
      | Some normalized \<Rightarrow>
        if find_node v (Some normalized) \<noteq> None then reject v
        else case parent_path (Some normalized) of None \<Rightarrow> reject v
        | Some parent \<Rightarrow>
          if \<not> dir_exists v (Some parent) then reject v
          else case find_idx (\<lambda>d. \<not> rd_used d) (ram_directories v) of None \<Rightarrow> reject v
          | Some d \<Rightarrow>
            (case copy_path_checked (Some normalized) of None \<Rightarrow> reject v
             | Some p \<Rightarrow>
               let v = set_ram_directory d \<lparr>rd_used = True, rd_path = p\<rparr> v;
                   (ok, v) = add_node \<lparr>n_path = Some (DirPath d), n_type = Directory, n_base = 0, n_size = 0, n_writable = True,
                     n_disk_backed = False, n_ram_file = None, n_device_kind = NoDevice, n_virtual_kind = NoVirtual\<rparr> v
               in if ok then (True, count_stat (\<lambda>s. s\<lparr>ram_directory_creates := ram_directory_creates s + 1\<rparr>) v)
                  else reject (set_ram_directory d empty_ram_directory v)))"

definition delete_ram_directory :: "cstr \<Rightarrow> vfs \<Rightarrow> bool \<times> vfs" where
  "delete_ram_directory path v =
     (let reject = (False, count_stat (\<lambda>s. s\<lparr>ram_directory_delete_rejects := ram_directory_delete_rejects s + 1\<rparr>) v) in
      case normalize_path path of None \<Rightarrow> reject
      | Some normalized \<Rightarrow>
        if length normalized \<le> 1 then reject
        else (case find_idx (\<lambda>n. has_path v normalized n \<and> n_type n = Directory \<and> n_writable n) (nodes v) of None \<Rightarrow> reject
         | Some i \<Rightarrow>
           if \<exists>n \<in> set (nodes v). node_below v normalized n then reject
           else
             let v = (case find_idx (\<lambda>d. rd_used d \<and> path_equal (rd_path d) normalized) (ram_directories v) of
                        Some d \<Rightarrow> set_ram_directory d empty_ram_directory v | None \<Rightarrow> v);
                 v = remove_node i v
             in (True, count_stat (\<lambda>s. s\<lparr>ram_directory_deletes := ram_directory_deletes s + 1\<rparr>) v)))"

section \<open>Handles\<close>

definition handle_for :: "vfs \<Rightarrow> u32 \<Rightarrow> nat option" where
  "handle_for v handle = (if handle = 0 then None else find_idx (\<lambda>h. h_open h \<and> h_id h = handle) (handles v))"

definition set_handle :: "nat \<Rightarrow> FileHandle \<Rightarrow> vfs \<Rightarrow> vfs" where
  "set_handle i h v = v\<lparr>handles := (handles v)[i := h]\<rparr>"

definition dynamic_proc_file_size :: "vfs_env \<Rightarrow> string \<Rightarrow> u64" where
  "dynamic_proc_file_size env p = of_nat (length (render_dynamic_proc_file env p 2048))"

definition virtual_file_size :: "vfs_env \<Rightarrow> VirtualFileKind \<Rightarrow> u64" where
  "virtual_file_size env kind = of_nat (length (render_virtual_file env kind kVirtualFileScratchBytes))"

definition node_size_for :: "vfs_env \<Rightarrow> vfs \<Rightarrow> Node \<Rightarrow> u64" where
  "node_size_for env v n = (if n_type n = VirtualFile then virtual_file_size env (n_virtual_kind n)
     else case n_ram_file n of Some f \<Rightarrow> rf_size (ram_files v ! f) | None \<Rightarrow> n_size n)"

text \<open>The identifier of the next handle: zero is skipped when the counter wraps.\<close>

definition take_handle_id :: "vfs \<Rightarrow> u32 \<times> vfs" where
  "take_handle_id v =
     (let i = next_handle_id v; v = v\<lparr>next_handle_id := next_handle_id v + 1\<rparr> in
      if i = 0 then (next_handle_id v, v\<lparr>next_handle_id := next_handle_id v + 1\<rparr>) else (i, v))"

definition vfs_open :: "vfs_env \<Rightarrow> cstr \<Rightarrow> vfs \<Rightarrow> u32 \<times> vfs" where
  "vfs_open env path v =
     (let install = (\<lambda>node dyn p. case find_idx (\<lambda>h. \<not> h_open h) (handles v) of None \<Rightarrow> (0, v)
        | Some k \<Rightarrow> let (i, v) = take_handle_id v in
            (i, set_handle k \<lparr>h_id = i, h_node = node, h_offset = 0, h_ref_count = 1, h_open = True, h_dynamic_virtual = dyn, h_path = p\<rparr> v)) in
      case find_node v path of
        None \<Rightarrow> (case normalize_path path of None \<Rightarrow> (0, v)
          | Some normalized \<Rightarrow> if dynamic_proc_file_size env normalized = 0 then (0, v)
              else install None True (copy_path (Some normalized)))
      | Some i \<Rightarrow>
          if n_type (nodes v ! i) \<notin> {MemoryFile, CharacterDevice, VirtualFile} then (0, v)
          else install (Some i) False (copy_path (node_path v (nodes v ! i))))"

text \<open>The bytes a read of \<open>sz\<close> bytes at \<open>off\<close> copies out of a text.\<close>

definition window :: "u8 list \<Rightarrow> u64 \<Rightarrow> u64 \<Rightarrow> u8 list" where
  "window generated off sz =
     (let generated_size = of_nat (length generated) in
      if generated_size \<le> off then []
      else let available = generated_size - off; to_copy = (if sz < available then sz else available)
        in take (unat to_copy) (drop (unat off) generated))"

text \<open>The bytes a file in memory gives to a read at \<open>off\<close>.\<close>

definition memory_window :: "vfs_env \<Rightarrow> vfs \<Rightarrow> Node \<Rightarrow> u64 \<Rightarrow> u64 \<Rightarrow> u8 list" where
  "memory_window env v n off sz =
     (let node_size = node_size_for env v n in
      if node_size \<le> off then []
      else let available = node_size - off; to_copy = (if sz < available then sz else available)
        in case n_ram_file n of
          Some f \<Rightarrow> take (unat to_copy) (drop (unat off) (rf_data (ram_files v ! f)))
        | None \<Rightarrow> map (\<lambda>i. phys_byte env (n_base n + off + i)) (wrange 0 to_copy))"

text \<open>\<open>Vfs::read\<close>; \<open>ok\<close> as before: the buffer pointer is not null.\<close>

definition vfs_read :: "vfs_env \<Rightarrow> cstr \<Rightarrow> u64 \<Rightarrow> bool \<Rightarrow> u64 \<Rightarrow> vfs \<Rightarrow> u8 list" where
  "vfs_read env path off ok sz v =
     (if \<not> ok \<or> sz = 0 then []
      else let generated = (case normalize_path path of None \<Rightarrow> []
             | Some p \<Rightarrow> render_dynamic_proc_file env p kVirtualFileScratchBytes) in
        if generated \<noteq> [] then window generated off sz
        else case find_node v path of None \<Rightarrow> []
        | Some i \<Rightarrow> let n = nodes v ! i in
            if n_type n = VirtualFile then window (render_virtual_file env (n_virtual_kind n) kVirtualFileScratchBytes) off sz
            else if n_type n = MemoryFile then memory_window env v n off sz else [])"

definition advance :: "nat \<Rightarrow> nat \<Rightarrow> vfs \<Rightarrow> vfs" where
  "advance k n v = set_handle k ((handles v ! k)\<lparr>h_offset := h_offset (handles v ! k) + of_nat n\<rparr>) v"

definition read_handle :: "vfs_env \<Rightarrow> u32 \<Rightarrow> bool \<Rightarrow> u64 \<Rightarrow> vfs \<Rightarrow> u8 list \<times> vfs" where
  "read_handle env handle ok sz v =
     (case handle_for v handle of None \<Rightarrow> ([], v)
      | Some k \<Rightarrow>
        let h = handles v ! k in
        if \<not> ok \<or> sz = 0 then ([], v)
        else if h_dynamic_virtual h
        then let bs = window (render_dynamic_proc_file env (h_path h) kVirtualFileScratchBytes) (h_offset h) sz in (bs, advance k (length bs) v)
        else (case h_node h of None \<Rightarrow> ([], v)
        | Some i \<Rightarrow>
          let n = node_at v i in
          if n_type n = CharacterDevice then
            if n_device_kind n = ZeroDevice then (replicate (unat sz) 0, advance k (unat sz) v)
            else if n_device_kind n = TtyDevice \<or> n_device_kind n = ConsoleDevice
            then let (bs, t) = read_input True sz (tty v) in (bs, advance k (length bs) (v\<lparr>tty := t\<rparr>))
            else ([], v)
          else let bs = (if n_type n = VirtualFile
                 then window (render_virtual_file env (n_virtual_kind n) kVirtualFileScratchBytes) (h_offset h) sz
                 else memory_window env v n (h_offset h) sz)
            in (bs, advance k (length bs) v)))"

text \<open>Writing the bytes \<open>buf\<close>; a null buffer is \<open>ok = False\<close>. The result is the number of bytes taken.\<close>

definition store_bytes :: "nat \<Rightarrow> u8 list \<Rightarrow> u8 list \<Rightarrow> u8 list" where
  "store_bytes off bs d = take off d @ bs @ drop (off + length bs) d"

definition write_ram :: "vfs_env \<Rightarrow> nat \<Rightarrow> nat \<Rightarrow> nat \<Rightarrow> u8 list \<Rightarrow> vfs \<Rightarrow> u64 \<times> vfs" where
  "write_ram env k i f buf v =
     (let off = h_offset (handles v ! k); sz = of_nat (length buf) in
      if kMaxRamFileBytes \<le> off then (0, v)
      else
        let available = kMaxRamFileBytes - off;
            to_copy = (if sz < available then sz else available);
            v = (if to_copy < sz then count_stat (\<lambda>s. s\<lparr>ram_write_clipped_bytes := ram_write_clipped_bytes s + (sz - to_copy)\<rparr>) v else v);
            file = ram_files v ! f;
            file = file\<lparr>rf_data := store_bytes (unat off) (take (unat to_copy) buf) (rf_data file)\<rparr>;
            off = off + to_copy;
            v = set_handle k ((handles v ! k)\<lparr>h_offset := off\<rparr>) v;
            v = count_stat (\<lambda>s. s\<lparr>ram_write_bytes := ram_write_bytes s + to_copy\<rparr>) v;
            file = (if rf_size file < off then file\<lparr>rf_size := off\<rparr> else file);
            v = set_ram_file f file v;
            v = v\<lparr>nodes := (nodes v)[i := (nodes v ! i)\<lparr>n_base := data_address env f, n_size := rf_size file\<rparr>]\<rparr>
        in (to_copy, v))"

definition write_handle :: "vfs_env \<Rightarrow> u32 \<Rightarrow> bool \<Rightarrow> u8 list \<Rightarrow> vfs \<Rightarrow> u64 \<times> vfs" where
  "write_handle env handle ok buf v =
     (case handle_for v handle of None \<Rightarrow> (0, v)
      | Some k \<Rightarrow>
        (case h_node (handles v ! k) of None \<Rightarrow> (0, v)
         | Some i \<Rightarrow>
           let n = node_at v i in
           if \<not> ok \<or> buf = [] then (0, v)
           else if n_type n = CharacterDevice then
             if n_device_kind n = NullDevice \<or> n_device_kind n = ZeroDevice then (of_nat (length buf), advance k (length buf) v)
             else if n_device_kind n = TtyDevice \<or> n_device_kind n = ConsoleDevice
             then let (w, t) = term_write (Some (\<lambda>j. buf ! unat j)) (of_nat (length buf)) (tty v) in (w, advance k (unat w) (v\<lparr>tty := t\<rparr>))
             else (0, v)
           else if \<not> n_writable n then (0, v)
           else case n_ram_file n of None \<Rightarrow> (0, v) | Some f \<Rightarrow> write_ram env k i f buf v))"

definition seek_handle :: "vfs_env \<Rightarrow> u32 \<Rightarrow> u64 \<Rightarrow> vfs \<Rightarrow> bool \<times> vfs" where
  "seek_handle env handle off v =
     (case handle_for v handle of None \<Rightarrow> (False, v)
      | Some k \<Rightarrow>
        let h = handles v ! k; move = (True, set_handle k (h\<lparr>h_offset := off\<rparr>) v) in
        if h_dynamic_virtual h then if dynamic_proc_file_size env (h_path h) < off then (False, v) else move
        else (case h_node h of None \<Rightarrow> (False, v)
        | Some i \<Rightarrow> if node_size_for env v (node_at v i) < off then (False, v) else move))"

definition retain_handle :: "u32 \<Rightarrow> vfs \<Rightarrow> bool \<times> vfs" where
  "retain_handle handle v =
     (case handle_for v handle of None \<Rightarrow> (False, v)
      | Some k \<Rightarrow> let h = handles v ! k in
          if h_ref_count h = 0xffffffff then (False, v)
          else (True, set_handle k (h\<lparr>h_ref_count := h_ref_count h + 1\<rparr>) v))"

definition handle_offset :: "vfs \<Rightarrow> u32 \<Rightarrow> u64" where
  "handle_offset v handle = (case handle_for v handle of None \<Rightarrow> 0 | Some k \<Rightarrow> h_offset (handles v ! k))"

definition vfs_close :: "u32 \<Rightarrow> vfs \<Rightarrow> bool \<times> vfs" where
  "vfs_close handle v =
     (case handle_for v handle of None \<Rightarrow> (False, v)
      | Some k \<Rightarrow> let h = handles v ! k in
          if 1 < h_ref_count h then (True, set_handle k (h\<lparr>h_ref_count := h_ref_count h - 1\<rparr>) v)
          else (True, set_handle k empty_handle v))"

definition open_handle_count :: "vfs \<Rightarrow> nat" where "open_handle_count v = count_if h_open (handles v)"

definition mount_count :: "vfs \<Rightarrow> nat" where "mount_count v = count_if m_used (mounts v)"

definition memory_file_count :: "vfs \<Rightarrow> nat" where
  "memory_file_count v = count_if (\<lambda>n. n_type n = MemoryFile) (nodes v)"

definition total_memory_file_bytes :: "vfs \<Rightarrow> u64" where
  "total_memory_file_bytes v = fold (\<lambda>n total. if n_type n \<noteq> MemoryFile then total
     else total + (case n_ram_file n of Some f \<Rightarrow> rf_size (ram_files v ! f) | None \<Rightarrow> n_size n)) (nodes v) 0"

section \<open>What programs are told about a node\<close>

definition abi_type :: "NodeType \<Rightarrow> u32" where
  "abi_type t = (case t of EmptyNode \<Rightarrow> 0 | Directory \<Rightarrow> 1 | MemoryFile \<Rightarrow> 2 | CharacterDevice \<Rightarrow> 3 | VirtualFile \<Rightarrow> 4)"

definition VfsNodeReadable :: u32 where "VfsNodeReadable = 1"
definition VfsNodeWritable :: u32 where "VfsNodeWritable = 2"
definition VfsNodeDirectory :: u32 where "VfsNodeDirectory = 4"
definition VfsNodeMemoryBacked :: u32 where "VfsNodeMemoryBacked = 8"
definition VfsNodeDiskBacked :: u32 where "VfsNodeDiskBacked = 16"
definition VfsNodeCharacterDevice :: u32 where "VfsNodeCharacterDevice = 32"
definition VfsNodeVirtual :: u32 where "VfsNodeVirtual = 64"

definition abi_flags :: "Node \<Rightarrow> u32" where
  "abi_flags n =
     (let flags = 0;
          flags = (if n_type n = MemoryFile then flags OR (VfsNodeReadable OR VfsNodeMemoryBacked) else flags);
          flags = (if n_type n = Directory then flags OR VfsNodeDirectory else flags);
          flags = (if n_type n = CharacterDevice then
              let flags = flags OR VfsNodeCharacterDevice;
                  flags = (if n_device_kind n \<in> {ZeroDevice, TtyDevice, ConsoleDevice} then flags OR VfsNodeReadable else flags)
              in if n_device_kind n \<in> {NullDevice, ZeroDevice, TtyDevice, ConsoleDevice} then flags OR VfsNodeWritable else flags
            else flags);
          flags = (if n_type n = VirtualFile then flags OR (VfsNodeReadable OR VfsNodeVirtual) else flags);
          flags = (if n_writable n then flags OR VfsNodeWritable else flags)
      in if n_disk_backed n then (flags OR (VfsNodeReadable OR VfsNodeDiskBacked)) AND NOT VfsNodeMemoryBacked else flags)"

definition link_count_for :: "vfs \<Rightarrow> Node \<Rightarrow> u64" where
  "link_count_for v n = (case n_ram_file n of None \<Rightarrow> 1
     | Some f \<Rightarrow> let links = count_if (\<lambda>m. n_type m = MemoryFile \<and> n_ram_file m = Some f) (nodes v)
         in if links = 0 then 1 else of_nat links)"

record VfsNodeInfo =
  i_type :: u32
  i_flags :: u32
  i_base :: u64
  i_size :: u64
  i_links :: u64
  i_path :: string

definition copy_node_info :: "vfs_env \<Rightarrow> nat \<Rightarrow> vfs \<Rightarrow> VfsNodeInfo option" where
  "copy_node_info env index v =
     (if length (nodes v) \<le> index then None
      else let n = nodes v ! index in
        if n_type n = EmptyNode \<or> n_path n = None then None
        else Some \<lparr>i_type = abi_type (n_type n), i_flags = abi_flags n, i_base = n_base n, i_size = node_size_for env v n,
               i_links = link_count_for v n, i_path = copy_path (node_path v n)\<rparr>)"

end
