(* ===== verification/VfsTree.thy ===== *)
theory VfsTree
  imports Vfs
begin

text \<open>
  The name space of the file system: its tables are consistent after any sequence of operations, and the
  operations on files and directories in memory are those of an abstract file system, a map from path
  names to files with contents.
\<close>

section \<open>Consistent tables\<close>

definition canon64 :: "string \<Rightarrow> bool" where "canon64 p \<longleftrightarrow> canonical p \<and> length p < 64"

definition npath :: "vfs \<Rightarrow> Node \<Rightarrow> string" where "npath v n = ref_text v (the (n_path n))"

text \<open>The path of a node and the file it names belong together: a path that lies in a table entry belongs
  to the node made with that entry.\<close>

fun ref_ok :: "vfs \<Rightarrow> Node \<Rightarrow> path_ref \<Rightarrow> bool" where
  "ref_ok v n (Lit s) \<longleftrightarrow> n_ram_file n = None"
| "ref_ok v n (FilePath f) \<longleftrightarrow> n_ram_file n = Some f"
| "ref_ok v n (LinkPath l) \<longleftrightarrow> l < 8 \<and> rl_used (ram_links v ! l) \<and> n_ram_file n \<noteq> None \<and> rl_target (ram_links v ! l) = n_ram_file n"
| "ref_ok v n (DirPath d) \<longleftrightarrow> d < 8 \<and> rd_used (ram_directories v ! d) \<and> n_type n = Directory \<and> n_writable n \<and> \<not> n_disk_backed n \<and> n_ram_file n = None"

definition file_ok :: "vfs \<Rightarrow> Node \<Rightarrow> bool" where
  "file_ok v n \<longleftrightarrow> (\<forall>f. n_ram_file n = Some f \<longrightarrow>
     f < 32 \<and> rf_used (ram_files v ! f) \<and> n_type n = MemoryFile \<and> n_writable n \<and> \<not> n_disk_backed n)"

definition node_ok :: "vfs \<Rightarrow> Node \<Rightarrow> bool" where
  "node_ok v n \<longleftrightarrow> n_path n \<noteq> None \<and> canon64 (npath v n) \<and> n_type n \<noteq> EmptyNode \<and> ref_ok v n (the (n_path n)) \<and> file_ok v n"

definition ram_ok :: "RamFile \<Rightarrow> bool" where
  "ram_ok x \<longleftrightarrow> length (rf_data x) = 4096 \<and> unat (rf_size x) \<le> 4096"

definition tables_ok :: "vfs \<Rightarrow> bool" where
  "tables_ok v \<longleftrightarrow> length (handles v) = 32 \<and> length (ram_files v) = 32 \<and> length (ram_directories v) = 8 \<and>
     length (ram_links v) = 8 \<and> length (nodes v) \<le> 512 \<and> (\<forall>x \<in> set (ram_files v). ram_ok x)"

text \<open>Every entry in use belongs to a node.\<close>

definition covered :: "vfs \<Rightarrow> bool" where
  "covered v \<longleftrightarrow> (\<forall>f < 32. rf_used (ram_files v ! f) \<longrightarrow> (\<exists>n \<in> set (nodes v). n_ram_file n = Some f)) \<and>
     (\<forall>l < 8. rl_used (ram_links v ! l) \<longrightarrow> (\<exists>n \<in> set (nodes v). n_path n = Some (LinkPath l))) \<and>
     (\<forall>d < 8. rd_used (ram_directories v ! d) \<longrightarrow> (\<exists>n \<in> set (nodes v). n_path n = Some (DirPath d)))"

definition vfs_inv :: "vfs \<Rightarrow> bool" where
  "vfs_inv v \<longleftrightarrow> tables_ok v \<and> (\<forall>n \<in> set (nodes v). node_ok v n) \<and> distinct (map (npath v) (nodes v)) \<and> covered v"

lemma vfs_invD:
  assumes "vfs_inv v"
  shows "tables_ok v" "n \<in> set (nodes v) \<Longrightarrow> node_ok v n" "distinct (map (npath v) (nodes v))" "covered v"
  using assms by (simp_all add: vfs_inv_def)

lemma tables_okD:
  assumes "tables_ok v"
  shows "length (handles v) = 32" "length (ram_files v) = 32" "length (ram_directories v) = 8" "length (ram_links v) = 8"
    "length (nodes v) \<le> 512" "f < 32 \<Longrightarrow> ram_ok (ram_files v ! f)"
  using assms by (auto simp: tables_ok_def)

lemma coveredD:
  assumes "covered v"
  shows "f < 32 \<Longrightarrow> rf_used (ram_files v ! f) \<Longrightarrow> \<exists>n \<in> set (nodes v). n_ram_file n = Some f"
    "l < 8 \<Longrightarrow> rl_used (ram_links v ! l) \<Longrightarrow> \<exists>n \<in> set (nodes v). n_path n = Some (LinkPath l)"
    "d < 8 \<Longrightarrow> rd_used (ram_directories v ! d) \<Longrightarrow> \<exists>n \<in> set (nodes v). n_path n = Some (DirPath d)"
  using assms by (auto simp: covered_def)

text \<open>Two nodes with the same path are one.\<close>

lemma npath_inj: "vfs_inv v \<Longrightarrow> n \<in> set (nodes v) \<Longrightarrow> m \<in> set (nodes v) \<Longrightarrow> npath v n = npath v m \<Longrightarrow> n = m"
  by (auto simp: vfs_inv_def distinct_map dest: inj_onD)

lemma npath_idx_inj:
  "vfs_inv v \<Longrightarrow> i < length (nodes v) \<Longrightarrow> j < length (nodes v) \<Longrightarrow> npath v (nodes v ! i) = npath v (nodes v ! j) \<Longrightarrow> i = j"
  using vfs_invD(3) [of v] by (metis distinct_conv_nth length_map nth_map)

lemma node_path_npath: "node_ok v n \<Longrightarrow> node_path v n = Some (npath v n)"
  by (auto simp: node_ok_def node_path_def npath_def)

lemma has_path_npath: "node_ok v n \<Longrightarrow> has_path v p n \<longleftrightarrow> npath v n = p"
  by (simp add: has_path_def node_path_npath path_equal_def)

lemma node_below_npath: "node_ok v n \<Longrightarrow> node_below v p n \<longleftrightarrow> path_has_prefix_child (npath v n) p"
  by (simp add: node_below_def node_path_npath)

lemma canon64_normalize: "canon64 p \<Longrightarrow> normalize_path (Some p) = Some p"
  by (auto simp: canon64_def canonical_def normalize_render)

lemma normalize_canon64: "normalize_path p = Some q \<Longrightarrow> canon64 q"
  by (metis canon64_def canonical_def normalize_Some)

lemma checked_canon64: "copy_path_checked p = Some q \<Longrightarrow> canon64 q \<and> normalize_path p = Some q \<and> 1 < length q"
  by (auto simp: copy_path_checked_def normalize_canon64 split: option.splits if_splits)

lemma checked_again: "copy_path_checked p = Some q \<Longrightarrow> copy_path_checked (Some q) = Some q"
  using checked_canon64 [of p q] by (simp add: copy_path_checked_def canon64_normalize)

lemma copy_path_canon64: "canon64 p \<Longrightarrow> copy_path (Some p) = p"
  by (simp add: copy_path_def canon64_def)

lemma find_node_idx:
  assumes "\<forall>n \<in> set (nodes v). node_ok v n" "canon64 p"
  shows "find_node v (Some p) = find_idx (\<lambda>n. npath v n = p) (nodes v)"
  using assms by (simp add: find_node_def canon64_normalize) (rule find_idx_cong, simp_all add: has_path_npath)

lemma find_node_Some:
  assumes "vfs_inv v" "canon64 p"
  shows "find_node v (Some p) = Some i \<longleftrightarrow> i < length (nodes v) \<and> npath v (nodes v ! i) = p"
  using assms npath_idx_inj [OF assms(1)]
  by (auto simp: find_node_idx vfs_invD find_idx_Some) (metis nat_neq_iff order.strict_trans)

lemma find_node_None:
  assumes "\<forall>n \<in> set (nodes v). node_ok v n" "canon64 p"
  shows "find_node v (Some p) = None \<longleftrightarrow> p \<notin> npath v ` set (nodes v)"
  using assms by (auto simp: find_node_idx find_idx_None)

lemma dir_exists_iff:
  assumes "vfs_inv v" "canon64 p"
  shows "dir_exists v (Some p) \<longleftrightarrow> (\<exists>n \<in> set (nodes v). npath v n = p \<and> n_type n = Directory)"
proof
  assume "dir_exists v (Some p)"
  then obtain i where "find_node v (Some p) = Some i" "n_type (nodes v ! i) = Directory"
    by (auto simp: dir_exists_def split: option.splits)
  then show "\<exists>n \<in> set (nodes v). npath v n = p \<and> n_type n = Directory"
    using find_node_Some [OF assms, of i] nth_mem by blast
next
  assume "\<exists>n \<in> set (nodes v). npath v n = p \<and> n_type n = Directory"
  then obtain i where "i < length (nodes v)" "npath v (nodes v ! i) = p" "n_type (nodes v ! i) = Directory"
    by (auto simp: in_set_conv_nth)
  then have "find_node v (Some p) = Some i" using find_node_Some [OF assms] by blast
  then show "dir_exists v (Some p)" using \<open>n_type (nodes v ! i) = Directory\<close> by (simp add: dir_exists_def)
qed

lemma parent_canon64:
  assumes "canon64 p" "1 < length p"
  obtains ns n where "p = render (ns @ [n])" "\<forall>m \<in> set (ns @ [n]). proper m" "parent_path (Some p) = Some (render ns)"
    "canon64 (render ns)"
proof -
  from assms(1) obtain ms where p: "p = render ms" "\<forall>m \<in> set ms. proper m" by (auto simp: canon64_def canonical_def)
  then obtain ns n where ms: "ms = ns @ [n]" using assms(2) by (cases ms rule: rev_cases) (auto simp: render_def)
  have "canon64 (render ns)"
    using p assms(1) ms length_render_append [of ns "[n]"] by (auto simp: canon64_def canonical_def)
  then show thesis
    using that [of ns n] p assms(1) ms parent_render [of ns n] by (auto simp: canon64_def)
qed

section \<open>The abstract file system\<close>

text \<open>Names stand for a kind of node and, for a file in memory, the file; two names of one file are links.\<close>

record afs =
  a_names :: "string \<Rightarrow> (NodeType \<times> nat option) option"
  a_data :: "nat \<Rightarrow> u8 list"

definition file_bytes :: "RamFile \<Rightarrow> u8 list" where
  "file_bytes x = (if rf_used x then take (unat (rf_size x)) (rf_data x) else [])"

definition vabs :: "vfs \<Rightarrow> afs" where
  "vabs v = \<lparr>a_names = (\<lambda>p. map_option (\<lambda>n. (n_type n, n_ram_file n)) (find (\<lambda>n. npath v n = p) (nodes v))),
             a_data = (\<lambda>f. if f < 32 then file_bytes (ram_files v ! f) else [])\<rparr>"

text \<open>The requests and what each does to the abstract file system when it is carried out.\<close>

datatype vop = CreateFile cstr | CreateDir cstr | LinkFile cstr cstr | Truncate cstr u64 | Rename cstr cstr
  | DeleteFile cstr | DeleteDir cstr

fun do_vop :: "vfs_env \<Rightarrow> vop \<Rightarrow> vfs \<Rightarrow> bool \<times> vfs" where
  "do_vop env (CreateFile p) v = create_ram_file env p v"
| "do_vop env (CreateDir p) v = create_ram_directory p v"
| "do_vop env (LinkFile p q) v = link_ram_file env p q v"
| "do_vop env (Truncate p sz) v = truncate_ram_file env p sz v"
| "do_vop env (Rename p q) v = rename_ram_node p q v"
| "do_vop env (DeleteFile p) v = delete_ram_file p v"
| "do_vop env (DeleteDir p) v = delete_ram_directory p v"

definition is_dir :: "afs \<Rightarrow> string \<Rightarrow> bool" where "is_dir a p \<longleftrightarrow> (\<exists>x. a_names a p = Some (Directory, x))"

definition empty_dir :: "afs \<Rightarrow> string \<Rightarrow> bool" where
  "empty_dir a p \<longleftrightarrow> is_dir a p \<and> (\<forall>q. a_names a q \<noteq> None \<longrightarrow> \<not> path_has_prefix_child q p)"

definition pad_to :: "nat \<Rightarrow> u8 list \<Rightarrow> u8 list" where
  "pad_to n bs = take n bs @ replicate (n - length bs) 0"

fun a_effect :: "vop \<Rightarrow> afs \<Rightarrow> afs \<Rightarrow> bool" where
  "a_effect (CreateFile p) a b \<longleftrightarrow> (\<exists>q par f. normalize_path p = Some q \<and> a_names a q = None \<and>
     parent_path (Some q) = Some par \<and> is_dir a par \<and> (\<forall>x y. a_names a x \<noteq> Some (y, Some f)) \<and>
     b = \<lparr>a_names = (a_names a)(q \<mapsto> (MemoryFile, Some f)), a_data = (a_data a)(f := [])\<rparr>)"
| "a_effect (CreateDir p) a b \<longleftrightarrow> (\<exists>q par. normalize_path p = Some q \<and> a_names a q = None \<and>
     parent_path (Some q) = Some par \<and> is_dir a par \<and> b = a\<lparr>a_names := (a_names a)(q \<mapsto> (Directory, None))\<rparr>)"
| "a_effect (LinkFile p0 p) a b \<longleftrightarrow> (\<exists>q0 q par f. normalize_path p0 = Some q0 \<and> normalize_path p = Some q \<and> a_names a q = None \<and>
     parent_path (Some q) = Some par \<and> is_dir a par \<and> a_names a q0 = Some (MemoryFile, Some f) \<and>
     b = a\<lparr>a_names := (a_names a)(q \<mapsto> (MemoryFile, Some f))\<rparr>)"
| "a_effect (Truncate p sz) a b \<longleftrightarrow> (\<exists>q f. normalize_path p = Some q \<and> a_names a q = Some (MemoryFile, Some f) \<and> unat sz \<le> 4096 \<and>
     b = a\<lparr>a_data := (a_data a)(f := pad_to (unat sz) (a_data a f))\<rparr>)"
| "a_effect (Rename p0 p) a b \<longleftrightarrow> (\<exists>q0 q par. normalize_path p0 = Some q0 \<and> normalize_path p = Some q \<and> a_names a q = None \<and>
     parent_path (Some q) = Some par \<and> is_dir a par \<and> ((\<exists>f. a_names a q0 = Some (MemoryFile, Some f)) \<or> empty_dir a q0) \<and>
     b = a\<lparr>a_names := (a_names a)(q := a_names a q0, q0 := None)\<rparr>)"
| "a_effect (DeleteFile p) a b \<longleftrightarrow> (\<exists>q f. normalize_path p = Some q \<and> a_names a q = Some (MemoryFile, Some f) \<and>
     b = \<lparr>a_names = (a_names a)(q := None),
          a_data = (if \<exists>x y. x \<noteq> q \<and> a_names a x = Some (y, Some f) then a_data a else (a_data a)(f := []))\<rparr>)"
| "a_effect (DeleteDir p) a b \<longleftrightarrow> (\<exists>q. normalize_path p = Some q \<and> 1 < length q \<and> empty_dir a q \<and> b = a\<lparr>a_names := (a_names a)(q := None)\<rparr>)"

subsection \<open>Reading the abstraction\<close>

lemma find_unique:
  assumes "distinct (map g xs)" "x \<in> set xs"
  shows "find (\<lambda>y. g y = g x) xs = Some x"
  using assms
proof (induction xs)
  case (Cons y xs)
  show ?case
  proof (cases "g y = g x")
    case True
    with Cons.prems have "y = x" by (metis distinct_map inj_onD list.set_intros(1))
    with True show ?thesis by simp
  next
    case False
    with Cons.prems have "x \<in> set xs" by auto
    with False Cons show ?thesis by simp
  qed
qed simp

lemma a_names_Some:
  assumes "distinct (map (npath v) (nodes v))"
  shows "a_names (vabs v) p = Some (t, x) \<longleftrightarrow> (\<exists>n \<in> set (nodes v). npath v n = p \<and> n_type n = t \<and> n_ram_file n = x)"
proof
  assume "a_names (vabs v) p = Some (t, x)"
  then show "\<exists>n \<in> set (nodes v). npath v n = p \<and> n_type n = t \<and> n_ram_file n = x"
    by (auto simp: vabs_def find_Some_iff)
next
  assume "\<exists>n \<in> set (nodes v). npath v n = p \<and> n_type n = t \<and> n_ram_file n = x"
  then obtain n where "n \<in> set (nodes v)" "npath v n = p" "n_type n = t" "n_ram_file n = x" by blast
  then show "a_names (vabs v) p = Some (t, x)"
    using find_unique [OF assms, of n] by (simp add: vabs_def)
qed

lemma a_names_None: "a_names (vabs v) p = None \<longleftrightarrow> p \<notin> npath v ` set (nodes v)"
  by (auto simp: vabs_def find_None_iff)

lemma a_names_node: "vfs_inv v \<Longrightarrow> n \<in> set (nodes v) \<Longrightarrow> a_names (vabs v) (npath v n) = Some (n_type n, n_ram_file n)"
  using a_names_Some [OF vfs_invD(3)] by blast

lemma is_dir_iff: "vfs_inv v \<Longrightarrow> is_dir (vabs v) p \<longleftrightarrow> (\<exists>n \<in> set (nodes v). npath v n = p \<and> n_type n = Directory)"
  by (auto simp: is_dir_def a_names_Some [OF vfs_invD(3)])

text \<open>To show what the names are after an operation it is enough to know the nodes.\<close>

lemma a_names_eqI:
  assumes "distinct (map (npath v) (nodes v))"
    and "\<And>n. n \<in> set (nodes v) \<Longrightarrow> m (npath v n) = Some (n_type n, n_ram_file n)"
    and "\<And>p. m p \<noteq> None \<Longrightarrow> p \<in> npath v ` set (nodes v)"
  shows "a_names (vabs v) = m"
proof
  fix p
  show "a_names (vabs v) p = m p"
  proof (cases "p \<in> npath v ` set (nodes v)")
    case True
    then obtain n where n: "n \<in> set (nodes v)" "p = npath v n" by blast
    then have "a_names (vabs v) p = Some (n_type n, n_ram_file n)" using a_names_Some [OF assms(1)] by blast
    then show ?thesis using assms(2) [OF n(1)] n(2) by simp
  next
    case False
    then have "m p = None" using assms(3) [of p] by blast
    then show ?thesis using False a_names_None [of v p] by simp
  qed
qed

subsection \<open>Updates that do not matter\<close>

lemma ref_text_frame [simp]:
  "ref_text (v\<lparr>nodes := x\<rparr>) r = ref_text v r" "ref_text (v\<lparr>handles := y\<rparr>) r = ref_text v r"
  "ref_text (v\<lparr>vstats := s\<rparr>) r = ref_text v r" "ref_text (v\<lparr>tty := u\<rparr>) r = ref_text v r"
  "ref_text (v\<lparr>next_handle_id := i\<rparr>) r = ref_text v r"
  by (cases r; simp)+

lemma npath_frame [simp]:
  "npath (v\<lparr>nodes := x\<rparr>) = npath v" "npath (v\<lparr>handles := y\<rparr>) = npath v"
  "npath (v\<lparr>vstats := s\<rparr>) = npath v" "npath (v\<lparr>tty := u\<rparr>) = npath v"
  "npath (v\<lparr>next_handle_id := i\<rparr>) = npath v"
  by (simp_all add: npath_def fun_eq_iff)

lemma ref_ok_frame [simp]:
  "ref_ok (v\<lparr>nodes := x\<rparr>) n r = ref_ok v n r" "ref_ok (v\<lparr>handles := y\<rparr>) n r = ref_ok v n r"
  "ref_ok (v\<lparr>vstats := s\<rparr>) n r = ref_ok v n r" "ref_ok (v\<lparr>tty := u\<rparr>) n r = ref_ok v n r"
  "ref_ok (v\<lparr>next_handle_id := i\<rparr>) n r = ref_ok v n r"
  by (cases r; simp)+

lemma node_ok_frame [simp]:
  "node_ok (v\<lparr>nodes := x\<rparr>) n = node_ok v n" "node_ok (v\<lparr>handles := y\<rparr>) n = node_ok v n"
  "node_ok (v\<lparr>vstats := s\<rparr>) n = node_ok v n" "node_ok (v\<lparr>tty := u\<rparr>) n = node_ok v n"
  "node_ok (v\<lparr>next_handle_id := i\<rparr>) n = node_ok v n"
  by (simp_all add: node_ok_def file_ok_def)

lemma covered_frame [simp]:
  "covered (v\<lparr>handles := y\<rparr>) = covered v" "covered (v\<lparr>vstats := s\<rparr>) = covered v" "covered (v\<lparr>tty := u\<rparr>) = covered v"
  "covered (v\<lparr>next_handle_id := i\<rparr>) = covered v"
  by (simp_all add: covered_def)

lemma vabs_frame [simp]:
  "vabs (v\<lparr>handles := y\<rparr>) = vabs v" "vabs (v\<lparr>vstats := s\<rparr>) = vabs v" "vabs (v\<lparr>tty := u\<rparr>) = vabs v"
  "vabs (v\<lparr>next_handle_id := i\<rparr>) = vabs v"
  by (simp_all add: vabs_def cong: if_cong)

lemma vfs_inv_frame [simp]:
  "length y = 32 \<Longrightarrow> vfs_inv v \<Longrightarrow> vfs_inv (v\<lparr>handles := y\<rparr>)" "vfs_inv (v\<lparr>vstats := s\<rparr>) = vfs_inv v"
  "vfs_inv (v\<lparr>tty := u\<rparr>) = vfs_inv v" "vfs_inv (v\<lparr>next_handle_id := i\<rparr>) = vfs_inv v"
  by (auto simp: vfs_inv_def tables_ok_def)

lemma count_stat_frame [simp]:
  "vabs (count_stat f v) = vabs v" "vfs_inv (count_stat f v) = vfs_inv v"
  by (simp_all add: count_stat_def)

section \<open>New nodes\<close>

lemma set_ram_file_simps [simp]:
  "nodes (set_ram_file f x v) = nodes v" "handles (set_ram_file f x v) = handles v" "ram_links (set_ram_file f x v) = ram_links v"
  "ram_directories (set_ram_file f x v) = ram_directories v" "ram_files (set_ram_file f x v) = (ram_files v)[f := x]"
  by (simp_all add: set_ram_file_def)

lemma set_ram_link_simps [simp]:
  "nodes (set_ram_link l x v) = nodes v" "handles (set_ram_link l x v) = handles v" "ram_files (set_ram_link l x v) = ram_files v"
  "ram_directories (set_ram_link l x v) = ram_directories v" "ram_links (set_ram_link l x v) = (ram_links v)[l := x]"
  by (simp_all add: set_ram_link_def)

lemma set_ram_directory_simps [simp]:
  "nodes (set_ram_directory d x v) = nodes v" "handles (set_ram_directory d x v) = handles v"
  "ram_files (set_ram_directory d x v) = ram_files v" "ram_links (set_ram_directory d x v) = ram_links v"
  "ram_directories (set_ram_directory d x v) = (ram_directories v)[d := x]"
  by (simp_all add: set_ram_directory_def)

lemma node_okD:
  assumes "node_ok v n"
  shows "n_path n = Some (the (n_path n))" "canon64 (npath v n)" "n_type n \<noteq> EmptyNode" "ref_ok v n (the (n_path n))" "file_ok v n"
  using assms by (auto simp: node_ok_def)

lemma unused_file_frame:
  assumes "vfs_inv v" "f < 32" "\<not> rf_used (ram_files v ! f)" "n \<in> set (nodes v)"
  shows "npath (set_ram_file f x v) n = npath v n" "node_ok (set_ram_file f x v) n"
proof -
  note n = node_okD [OF vfs_invD(2) [OF assms(1,4)]]
  have "n_ram_file n \<noteq> Some f" using n(5) assms(3) by (auto simp: file_ok_def)
  then show p: "npath (set_ram_file f x v) n = npath v n"
    using n(4) by (cases "the (n_path n)") (auto simp: npath_def)
  show "node_ok (set_ram_file f x v) n"
    using n p \<open>n_ram_file n \<noteq> Some f\<close> by (cases "the (n_path n)") (auto simp: node_ok_def file_ok_def)
qed

lemma unused_link_frame:
  assumes "vfs_inv v" "l < 8" "\<not> rl_used (ram_links v ! l)" "n \<in> set (nodes v)"
  shows "npath (set_ram_link l x v) n = npath v n" "node_ok (set_ram_link l x v) n"
proof -
  note n = node_okD [OF vfs_invD(2) [OF assms(1,4)]]
  have other: "(ram_links v)[l := x] ! k = ram_links v ! k" if "rl_used (ram_links v ! k)" for k
    using assms(3) that by (metis nth_list_update_neq)
  show p: "npath (set_ram_link l x v) n = npath v n"
    using n(4) by (cases "the (n_path n)") (auto simp: npath_def other)
  show "node_ok (set_ram_link l x v) n"
    using n p by (cases "the (n_path n)") (auto simp: node_ok_def file_ok_def other)
qed

lemma unused_directory_frame:
  assumes "vfs_inv v" "d < 8" "\<not> rd_used (ram_directories v ! d)" "n \<in> set (nodes v)"
  shows "npath (set_ram_directory d x v) n = npath v n" "node_ok (set_ram_directory d x v) n"
proof -
  note n = node_okD [OF vfs_invD(2) [OF assms(1,4)]]
  have other: "(ram_directories v)[d := x] ! k = ram_directories v ! k" if "rd_used (ram_directories v ! k)" for k
    using assms(3) that by (metis nth_list_update_neq)
  show p: "npath (set_ram_directory d x v) n = npath v n"
    using n(4) by (cases "the (n_path n)") (auto simp: npath_def other)
  show "node_ok (set_ram_directory d x v) n"
    using n p by (cases "the (n_path n)") (auto simp: node_ok_def file_ok_def other)
qed

text \<open>A state \<open>w\<close> in which the old nodes are as they were, with a new node behind them.\<close>

definition same_nodes :: "vfs \<Rightarrow> vfs \<Rightarrow> bool" where
  "same_nodes v w \<longleftrightarrow> nodes w = nodes v \<and> (\<forall>n \<in> set (nodes v). npath w n = npath v n \<and> node_ok w n)"

lemma same_nodes_find:
  assumes "vfs_inv v" "same_nodes v w" "canon64 p"
  shows "find_node w (Some p) = find_node v (Some p)"
proof -
  have "find_node w (Some p) = find_idx (\<lambda>n. npath w n = p) (nodes w)"
    using assms by (intro find_node_idx) (simp_all add: same_nodes_def)
  also have "\<dots> = find_idx (\<lambda>n. npath v n = p) (nodes v)"
    using assms(2) by (intro find_idx_cong) (simp_all add: same_nodes_def)
  also have "\<dots> = find_node v (Some p)"
    using assms(1,3) by (intro find_node_idx [symmetric]) (simp_all add: vfs_invD)
  finally show ?thesis .
qed

lemma add_node_new:
  assumes v: "vfs_inv v" and w: "same_nodes v w" and n: "node_ok w n" and free: "find_node v (Some (npath w n)) = None"
  shows "add_node n w = (if length (nodes v) < 512 then (True, w\<lparr>nodes := nodes v @ [n]\<rparr>) else (False, w))"
proof -
  have "find_node w (node_path w n) = None"
    using same_nodes_find [OF v w node_okD(2) [OF n]] free by (simp add: node_path_npath [OF n])
  then show ?thesis
    using n w by (auto simp: add_node_def kMaxVfsNodes_def node_ok_def same_nodes_def)
qed

lemma inv_add:
  assumes v: "vfs_inv v" and w: "same_nodes v w" and n: "node_ok w n" and free: "find_node v (Some (npath w n)) = None"
    and t: "tables_ok w" and l: "length (nodes v) < 512" and c: "covered (w\<lparr>nodes := nodes v @ [n]\<rparr>)"
  shows "vfs_inv (w\<lparr>nodes := nodes v @ [n]\<rparr>)"
    and "a_names (vabs (w\<lparr>nodes := nodes v @ [n]\<rparr>)) = (a_names (vabs v))(npath w n \<mapsto> (n_type n, n_ram_file n))"
proof -
  let ?w = "w\<lparr>nodes := nodes v @ [n]\<rparr>"
  have old: "npath w m = npath v m" "node_ok w m" if "m \<in> set (nodes v)" for m
    using w that by (simp_all add: same_nodes_def)
  have new: "npath w n \<notin> npath v ` set (nodes v)"
    using free find_node_None [OF _ node_okD(2) [OF n], of v] v by (simp add: vfs_invD find_node_None node_okD(2) [OF n])
  have same: "map (npath w) (nodes v) = map (npath v) (nodes v)" using old by simp
  have d: "distinct (map (npath w) (nodes v @ [n]))"
    unfolding map_append same using vfs_invD(3) [OF v] new by simp
  then show "vfs_inv ?w" using t l c n old by (auto simp: vfs_inv_def tables_ok_def)
  show "a_names (vabs ?w) = (a_names (vabs v))(npath w n \<mapsto> (n_type n, n_ram_file n))"
  proof (rule a_names_eqI)
    show "distinct (map (npath ?w) (nodes ?w))" using d by simp
  next
    fix m assume "m \<in> set (nodes ?w)"
    then show "((a_names (vabs v))(npath w n \<mapsto> (n_type n, n_ram_file n))) (npath ?w m) = Some (n_type m, n_ram_file m)"
      using new old a_names_node [OF v] by (auto simp: image_iff)
  next
    fix p assume "((a_names (vabs v))(npath w n \<mapsto> (n_type n, n_ram_file n))) p \<noteq> None"
    then show "p \<in> npath ?w ` set (nodes ?w)"
      using a_names_None [of v p] old by (force split: if_splits)
  qed
qed

section \<open>Each operation is its abstract effect\<close>

definition vop_correct :: "vop \<Rightarrow> vfs \<Rightarrow> bool \<times> vfs \<Rightarrow> bool" where
  "vop_correct op v r \<longleftrightarrow> vfs_inv (snd r) \<and> (if fst r then a_effect op (vabs v) (vabs (snd r)) else vabs (snd r) = vabs v)"

lemma rejected [simp]: "vfs_inv v \<Longrightarrow> vop_correct op v (False, count_stat f v)"
  by (simp add: vop_correct_def)

lemma tables_set_file: "tables_ok v \<Longrightarrow> ram_ok x \<Longrightarrow> tables_ok (set_ram_file f x v)"
  by (auto simp: tables_ok_def dest!: set_update_subset_insert [THEN subsetD])

lemma tables_set_link: "tables_ok v \<Longrightarrow> tables_ok (set_ram_link l x v)"
  by (simp add: tables_ok_def)

lemma tables_set_directory: "tables_ok v \<Longrightarrow> tables_ok (set_ram_directory d x v)"
  by (simp add: tables_ok_def)

lemma ram_ok_empty [simp]: "ram_ok empty_ram_file" "ram_ok \<lparr>rf_used = u, rf_path = p, rf_data = replicate 4096 0, rf_size = 0\<rparr>"
  by (simp_all add: ram_ok_def empty_ram_file_def)

lemma same_nodes_inv:
  assumes v: "vfs_inv v" and w: "same_nodes v w" and t: "tables_ok w" "covered w"
  shows "vfs_inv w" "a_names (vabs w) = a_names (vabs v)"
proof -
  have old: "npath w n = npath v n" "node_ok w n" if "n \<in> set (nodes v)" for n
    using w that by (simp_all add: same_nodes_def)
  have "map (npath w) (nodes v) = map (npath v) (nodes v)" using old(1) by (rule map_cong [OF refl])
  then have "distinct (map (npath w) (nodes v))" using vfs_invD(3) [OF v] by (simp only:)
  then show "vfs_inv w" using old t w by (simp add: vfs_inv_def same_nodes_def)
  have "find (\<lambda>n. npath w n = p) (nodes v) = find (\<lambda>n. npath v n = p) (nodes v)" for p
    using old(1) by (intro find_cong) simp_all
  then show "a_names (vabs w) = a_names (vabs v)" using w by (simp add: vabs_def same_nodes_def)
qed

text \<open>A table entry that no node uses may be written and given up again.\<close>

lemma give_up_file:
  assumes v: "vfs_inv v" and f: "f < 32" "\<not> rf_used (ram_files v ! f)"
  shows "vfs_inv (set_ram_file f empty_ram_file (set_ram_file f x v)) \<and> vabs (set_ram_file f empty_ram_file (set_ram_file f x v)) = vabs v"
proof -
  let ?w = "set_ram_file f empty_ram_file (set_ram_file f x v)"
  have w: "?w = set_ram_file f empty_ram_file v" by (simp add: set_ram_file_def)
  have len: "length (ram_files v) = 32" using v by (simp add: vfs_inv_def tables_ok_def)
  have "same_nodes v ?w" unfolding w using unused_file_frame [OF v f] by (simp add: same_nodes_def)
  moreover have "covered ?w"
    using vfs_invD(4) [OF v] f len by (auto simp: covered_def w nth_list_update empty_ram_file_def)
  moreover have "tables_ok ?w" unfolding w by (intro tables_set_file vfs_invD [OF v]) simp
  moreover have "a_data (vabs ?w) = a_data (vabs v)"
    using f len by (auto simp: w vabs_def file_bytes_def empty_ram_file_def nth_list_update)
  ultimately show ?thesis using same_nodes_inv [OF v, of ?w] by simp
qed

lemma give_up_link:
  assumes v: "vfs_inv v" and l: "l < 8" "\<not> rl_used (ram_links v ! l)"
  shows "vfs_inv (set_ram_link l empty_ram_link (set_ram_link l x v)) \<and> vabs (set_ram_link l empty_ram_link (set_ram_link l x v)) = vabs v"
proof -
  let ?w = "set_ram_link l empty_ram_link (set_ram_link l x v)"
  have w: "?w = set_ram_link l empty_ram_link v" by (simp add: set_ram_link_def)
  have len: "length (ram_links v) = 8" using v by (simp add: vfs_inv_def tables_ok_def)
  have "same_nodes v ?w" unfolding w using unused_link_frame [OF v l] by (simp add: same_nodes_def)
  moreover have "covered ?w"
    using vfs_invD(4) [OF v] l len by (auto simp: covered_def w nth_list_update empty_ram_link_def)
  moreover have "tables_ok ?w" unfolding w by (intro tables_set_link vfs_invD [OF v])
  moreover have "a_data (vabs ?w) = a_data (vabs v)" by (simp add: w vabs_def cong: if_cong)
  ultimately show ?thesis using same_nodes_inv [OF v, of ?w] by simp
qed

lemma give_up_directory:
  assumes v: "vfs_inv v" and d: "d < 8" "\<not> rd_used (ram_directories v ! d)"
  shows "vfs_inv (set_ram_directory d empty_ram_directory (set_ram_directory d x v)) \<and>
    vabs (set_ram_directory d empty_ram_directory (set_ram_directory d x v)) = vabs v"
proof -
  let ?w = "set_ram_directory d empty_ram_directory (set_ram_directory d x v)"
  have w: "?w = set_ram_directory d empty_ram_directory v" by (simp add: set_ram_directory_def)
  have len: "length (ram_directories v) = 8" using v by (simp add: vfs_inv_def tables_ok_def)
  have "same_nodes v ?w" unfolding w using unused_directory_frame [OF v d] by (simp add: same_nodes_def)
  moreover have "covered ?w"
    using vfs_invD(4) [OF v] d len by (auto simp: covered_def w nth_list_update empty_ram_directory_def)
  moreover have "tables_ok ?w" unfolding w by (intro tables_set_directory vfs_invD [OF v])
  moreover have "a_data (vabs ?w) = a_data (vabs v)" by (simp add: w vabs_def cong: if_cong)
  ultimately show ?thesis using same_nodes_inv [OF v, of ?w] by simp
qed

lemma create_file_new:
  assumes v: "vfs_inv v" and q: "canon64 q" "find_node v (Some q) = None" and f: "f < 32" "\<not> rf_used (ram_files v ! f)"
    and l: "length (nodes v) < 512" and x: "x = \<lparr>rf_used = True, rf_path = q, rf_data = replicate 4096 0, rf_size = 0\<rparr>"
    and w: "w = (set_ram_file f x v)\<lparr>nodes := nodes v @ [ram_node (FilePath f) a 0 f]\<rparr>"
  shows "vfs_inv w" "vabs w = \<lparr>a_names = (a_names (vabs v))(q \<mapsto> (MemoryFile, Some f)), a_data = (a_data (vabs v))(f := [])\<rparr>"
proof -
  let ?w = "set_ram_file f x v" and ?n = "ram_node (FilePath f) a 0 f"
  have len: "length (ram_files v) = 32" using v by (simp add: vfs_inv_def tables_ok_def)
  have s: "same_nodes v ?w" using unused_file_frame [OF v f] by (simp add: same_nodes_def)
  have p: "npath ?w ?n = q" using len f by (simp add: npath_def ram_node_def x)
  have n: "node_ok ?w ?n" using p q len f by (simp add: node_ok_def file_ok_def ram_node_def x)
  have t: "tables_ok ?w" using x by (intro tables_set_file vfs_invD [OF v]) simp
  have c: "covered w" using vfs_invD(4) [OF v] len f by (auto simp: covered_def w nth_list_update ram_node_def)
  show "vfs_inv w" using inv_add(1) [OF v s n _ t l] q(2) c unfolding p w by blast
  have "a_names (vabs w) = (a_names (vabs v))(q \<mapsto> (MemoryFile, Some f))"
    using inv_add(2) [OF v s n _ t l] q(2) c unfolding p w by (simp add: ram_node_def)
  moreover have "a_data (vabs w) = (a_data (vabs v))(f := [])"
    using f len by (auto simp: vabs_def w x file_bytes_def nth_list_update)
  ultimately show "vabs w = \<lparr>a_names = (a_names (vabs v))(q \<mapsto> (MemoryFile, Some f)), a_data = (a_data (vabs v))(f := [])\<rparr>" by simp
qed

lemma create_file_correct:
  assumes v: "vfs_inv v"
  shows "vop_correct (CreateFile p) v (create_ram_file env p v)"
proof (cases "copy_path_checked p")
  case None
  then show ?thesis using v by (simp add: create_ram_file_def)
next
  case (Some q)
  note q = checked_canon64 [OF Some]
  obtain ns n where par: "parent_path (Some q) = Some (render ns)" "canon64 (render ns)"
    using q parent_canon64 [of q] by metis
  show ?thesis
  proof (cases "find_node v (Some q) = None \<and> dir_exists v (Some (render ns)) \<and> find_idx (\<lambda>f. \<not> rf_used f) (ram_files v) \<noteq> None")
    case False
    then show ?thesis using v Some par by (auto simp: create_ram_file_def Let_def)
  next
    case True
    then obtain f where fi: "find_idx (\<lambda>f. \<not> rf_used f) (ram_files v) = Some f" by auto
    then have f: "f < 32" "\<not> rf_used (ram_files v ! f)"
      using v by (auto simp: find_idx_Some vfs_inv_def tables_ok_def)
    let ?x = "\<lparr>rf_used = True, rf_path = q, rf_data = replicate 4096 0, rf_size = 0\<rparr>"
    let ?w = "set_ram_file f ?x v" and ?n = "ram_node (FilePath f) (data_address env f) 0 f"
    have len: "length (ram_files v) = 32" using v by (simp add: vfs_inv_def tables_ok_def)
    have s: "same_nodes v ?w" using unused_file_frame [OF v f] by (simp add: same_nodes_def)
    have np: "npath ?w ?n = q" using len f by (simp add: npath_def ram_node_def)
    have n: "node_ok ?w ?n" using np q len f by (simp add: node_ok_def file_ok_def ram_node_def)
    have add: "add_node ?n ?w = (if length (nodes v) < 512 then (True, ?w\<lparr>nodes := nodes v @ [?n]\<rparr>) else (False, ?w))"
      using True np by (intro add_node_new [OF v s n]) simp
    have dir: "is_dir (vabs v) (render ns)" using True dir_exists_iff [OF v par(2)] is_dir_iff [OF v] by simp
    have fresh: "\<forall>x y. a_names (vabs v) x \<noteq> Some (y, Some f)"
      using f(2) vfs_invD(2) [OF v] by (auto simp: a_names_Some [OF vfs_invD(3) [OF v]] node_ok_def file_ok_def)
    have noname: "a_names (vabs v) q = None"
      using True find_node_None [of v q] q v by (simp add: a_names_None vfs_invD)
    show ?thesis
    proof (cases "length (nodes v) < 512")
      case l: True
      from create_file_new [OF v conjunct1 [OF q] conjunct1 [OF True] f l refl refl, of "data_address env f"]
      show ?thesis
        using Some par True fi add l checked_again [OF Some] q dir fresh noname
        by (simp add: create_ram_file_def vop_correct_def) blast
    next
      case False
      then show ?thesis
        using Some par True fi add checked_again [OF Some] give_up_file [OF v f, of ?x]
        by (simp add: create_ram_file_def vop_correct_def)
    qed
  qed
qed

text \<open>The tests the creating operations share.\<close>

lemma new_name_facts:
  assumes v: "vfs_inv v" and q: "canon64 q" "find_node v (Some q) = None" and par: "canon64 p" "dir_exists v (Some p)"
  shows "a_names (vabs v) q = None" "is_dir (vabs v) p"
  using find_node_None [of v q] q v dir_exists_iff [OF v par(1)] par(2) is_dir_iff [OF v] by (simp_all add: a_names_None vfs_invD)

definition dir_node :: "nat \<Rightarrow> Node" where
  "dir_node d = \<lparr>n_path = Some (DirPath d), n_type = Directory, n_base = 0, n_size = 0, n_writable = True,
     n_disk_backed = False, n_ram_file = None, n_device_kind = NoDevice, n_virtual_kind = NoVirtual\<rparr>"

lemma create_directory_correct:
  assumes v: "vfs_inv v"
  shows "vop_correct (CreateDir p) v (create_ram_directory p v)"
proof (cases "copy_path_checked p")
  case None
  then show ?thesis using v by (simp add: create_ram_directory_def)
next
  case (Some q)
  note q = checked_canon64 [OF Some]
  obtain ns n where par: "parent_path (Some q) = Some (render ns)" "canon64 (render ns)"
    using q parent_canon64 [of q] by metis
  show ?thesis
  proof (cases "find_node v (Some q) = None \<and> dir_exists v (Some (render ns)) \<and> find_idx (\<lambda>d. \<not> rd_used d) (ram_directories v) \<noteq> None")
    case False
    then show ?thesis using v Some par by (auto simp: create_ram_directory_def Let_def)
  next
    case True
    then obtain d where fi: "find_idx (\<lambda>d. \<not> rd_used d) (ram_directories v) = Some d" by auto
    have len: "length (ram_directories v) = 8" using v by (simp add: vfs_inv_def tables_ok_def)
    then have d: "d < 8" "\<not> rd_used (ram_directories v ! d)" using fi by (auto simp: find_idx_Some)
    let ?x = "\<lparr>rd_used = True, rd_path = q\<rparr>"
    let ?w = "set_ram_directory d ?x v" and ?n = "dir_node d"
    have s: "same_nodes v ?w" using unused_directory_frame [OF v d] by (simp add: same_nodes_def)
    have np: "npath ?w ?n = q" using len d by (simp add: npath_def dir_node_def)
    have n: "node_ok ?w ?n" using np q len d by (simp add: node_ok_def file_ok_def dir_node_def)
    have add: "add_node ?n ?w = (if length (nodes v) < 512 then (True, ?w\<lparr>nodes := nodes v @ [?n]\<rparr>) else (False, ?w))"
      using True np by (intro add_node_new [OF v s n]) simp
    note facts = new_name_facts [OF v conjunct1 [OF q] conjunct1 [OF True] par(2)] True
    show ?thesis
    proof (cases "length (nodes v) < 512")
      case l: True
      let ?w' = "?w\<lparr>nodes := nodes v @ [?n]\<rparr>"
      have t: "tables_ok ?w" by (intro tables_set_directory vfs_invD [OF v])
      have c: "covered ?w'" using vfs_invD(4) [OF v] len d by (auto simp: covered_def nth_list_update dir_node_def)
      have free: "find_node v (Some (npath ?w ?n)) = None" using True np by simp
      have "vfs_inv ?w'" by (rule inv_add(1) [OF v s n free t l c])
      moreover have "a_names (vabs ?w') = (a_names (vabs v))(q \<mapsto> (Directory, None))"
        using inv_add(2) [OF v s n free t l c] unfolding np by (simp add: dir_node_def)
      moreover have "a_data (vabs ?w') = a_data (vabs v)" by (simp add: vabs_def cong: if_cong)
      ultimately show ?thesis
        using Some par facts fi add l checked_again [OF Some] q
        by (simp add: create_ram_directory_def vop_correct_def dir_node_def)
    next
      case False
      then show ?thesis
        using Some par True fi add checked_again [OF Some] give_up_directory [OF v d, of ?x]
        by (simp add: create_ram_directory_def vop_correct_def dir_node_def)
    qed
  qed
qed

lemma ram_file_node:
  assumes "vfs_inv v" "n \<in> set (nodes v)" "n_ram_file n = Some f"
  shows "n_type n = MemoryFile" "n_writable n" "\<not> n_disk_backed n" "f < 32" "rf_used (ram_files v ! f)"
  using vfs_invD(2) [OF assms(1,2)] assms(3) by (simp_all add: node_ok_def file_ok_def)

lemma ram_target_iff:
  assumes "vfs_inv v" "canon64 p"
  shows "ram_target v (Some p) = Some f \<longleftrightarrow> a_names (vabs v) p = Some (MemoryFile, Some f)"
proof -
  have "a_names (vabs v) p = Some (MemoryFile, Some f) \<longleftrightarrow>
      (\<exists>n \<in> set (nodes v). npath v n = p \<and> n_type n = MemoryFile \<and> n_ram_file n = Some f)"
    by (rule a_names_Some [OF vfs_invD(3) [OF assms(1)]])
  also have "\<dots> \<longleftrightarrow> (\<exists>i. find_node v (Some p) = Some i \<and> n_ram_file (nodes v ! i) = Some f)"
  proof
    assume "\<exists>n \<in> set (nodes v). npath v n = p \<and> n_type n = MemoryFile \<and> n_ram_file n = Some f"
    then obtain i where "i < length (nodes v)" "npath v (nodes v ! i) = p" "n_ram_file (nodes v ! i) = Some f"
      by (auto simp: in_set_conv_nth)
    then show "\<exists>i. find_node v (Some p) = Some i \<and> n_ram_file (nodes v ! i) = Some f"
      using find_node_Some [OF assms, of i] by blast
  next
    assume "\<exists>i. find_node v (Some p) = Some i \<and> n_ram_file (nodes v ! i) = Some f"
    then show "\<exists>n \<in> set (nodes v). npath v n = p \<and> n_type n = MemoryFile \<and> n_ram_file n = Some f"
      using find_node_Some [OF assms] ram_file_node(1) [OF assms(1) nth_mem] nth_mem by blast
  qed
  also have "\<dots> \<longleftrightarrow> ram_target v (Some p) = Some f"
  proof (cases "find_node v (Some p)")
    case (Some i)
    then have "i < length (nodes v)" using find_node_Some [OF assms] by blast
    from ram_file_node [OF assms(1) nth_mem [OF this], of f] Some show ?thesis
      by (auto simp: ram_target_def Let_def)
  qed (simp add: ram_target_def)
  finally show ?thesis by simp
qed

lemma link_correct:
  assumes v: "vfs_inv v"
  shows "vop_correct (LinkFile p0 p) v (link_ram_file env p0 p v)"
proof (cases "normalize_path p0 = None \<or> copy_path_checked p = None")
  case True
  then show ?thesis using v by (auto simp: link_ram_file_def split: option.split)
next
  case False
  then obtain q0 q where nq: "normalize_path p0 = Some q0" "copy_path_checked p = Some q" by auto
  note q0 = normalize_canon64 [OF nq(1)] and q = checked_canon64 [OF nq(2)]
  obtain ns n where par: "parent_path (Some q) = Some (render ns)" "canon64 (render ns)"
    using q parent_canon64 [of q] by metis
  show ?thesis
  proof (cases "find_node v (Some q) = None \<and> ram_target v (Some q0) \<noteq> None \<and> dir_exists v (Some (render ns)) \<and>
      find_idx (\<lambda>l. \<not> rl_used l) (ram_links v) \<noteq> None")
    case False
    then show ?thesis using v nq par by (auto simp: link_ram_file_def Let_def split: option.split)
  next
    case True
    then obtain l f where fi: "find_idx (\<lambda>l. \<not> rl_used l) (ram_links v) = Some l" and tg: "ram_target v (Some q0) = Some f" by auto
    have len: "length (ram_links v) = 8" using v by (simp add: vfs_inv_def tables_ok_def)
    then have l: "l < 8" "\<not> rl_used (ram_links v ! l)" using fi by (auto simp: find_idx_Some)
    have nm: "a_names (vabs v) q0 = Some (MemoryFile, Some f)" using tg ram_target_iff [OF v q0] by simp
    then obtain m where "m \<in> set (nodes v)" "n_ram_file m = Some f" using a_names_Some [OF vfs_invD(3) [OF v]] by blast
    note f = ram_file_node [OF v this]
    let ?x = "\<lparr>rl_used = True, rl_path = q, rl_target = Some f\<rparr>"
    let ?w = "set_ram_link l ?x v" and ?n = "ram_node (LinkPath l) (data_address env f) (rf_size (ram_files v ! f)) f"
    have s: "same_nodes v ?w" using unused_link_frame [OF v l] by (simp add: same_nodes_def)
    have np: "npath ?w ?n = q" using len l by (simp add: npath_def ram_node_def)
    have n: "node_ok ?w ?n" using np q len l f by (simp add: node_ok_def file_ok_def ram_node_def)
    have add: "add_node ?n ?w = (if length (nodes v) < 512 then (True, ?w\<lparr>nodes := nodes v @ [?n]\<rparr>) else (False, ?w))"
      using True np by (intro add_node_new [OF v s n]) simp
    note facts = new_name_facts [OF v conjunct1 [OF q] conjunct1 [OF True] par(2)] True
    have cp: "copy_path (Some q) = q" using q by (simp add: copy_path_canon64)
    show ?thesis
    proof (cases "length (nodes v) < 512")
      case ln: True
      let ?w' = "?w\<lparr>nodes := nodes v @ [?n]\<rparr>"
      have t: "tables_ok ?w" by (intro tables_set_link vfs_invD [OF v])
      have c: "covered ?w'" using vfs_invD(4) [OF v] len l by (auto simp: covered_def nth_list_update ram_node_def)
      have free: "find_node v (Some (npath ?w ?n)) = None" using True np by simp
      have "vfs_inv ?w'" by (rule inv_add(1) [OF v s n free t ln c])
      moreover have "a_names (vabs ?w') = (a_names (vabs v))(q \<mapsto> (MemoryFile, Some f))"
        using inv_add(2) [OF v s n free t ln c] unfolding np by (simp add: ram_node_def)
      moreover have "a_data (vabs ?w') = a_data (vabs v)" by (simp add: vabs_def cong: if_cong)
      ultimately show ?thesis
        using nq par facts fi tg add ln q nm by (simp add: link_ram_file_def vop_correct_def cp)
    next
      case False
      then show ?thesis
        using nq par True fi tg add give_up_link [OF v l, of ?x] by (simp add: link_ram_file_def vop_correct_def cp)
    qed
  qed
qed

section \<open>Truncation\<close>

lemma zero_fill_nat: "a \<le> b \<Longrightarrow> b \<le> length d \<Longrightarrow> fold (\<lambda>i d. d[i := x]) [a..<b] d = take a d @ replicate (b - a) x @ drop b d"
proof (induction b)
  case (Suc b)
  show ?case
  proof (cases "a = Suc b")
    case False
    then have ab: "a \<le> b" using Suc.prems by simp
    have "fold (\<lambda>i d. d[i := x]) [a..<Suc b] d = (take a d @ replicate (b - a) x @ drop b d)[b := x]"
      using Suc ab by simp
    also have "\<dots> = take a d @ replicate (b - a) x @ (drop b d)[0 := x]"
      using ab Suc.prems by (simp add: list_update_append)
    also have "(drop b d)[0 := x] = x # drop (Suc b) d"
      using Suc.prems by (simp add: Cons_nth_drop_Suc [symmetric])
    finally show ?thesis using ab by (simp add: Suc_diff_le replicate_append_same [symmetric])
  qed simp
qed simp

lemma zero_fill:
  fixes a b :: u64
  assumes "a \<le> b" "unat b \<le> length d"
  shows "fold (\<lambda>i d. d[unat i := 0]) (wrange a b) d = take (unat a) d @ replicate (unat b - unat a) 0 @ drop (unat b) d"
proof -
  have "fold (\<lambda>i d. d[unat i := 0]) (wrange a b) d = fold (\<lambda>i d. d[i := 0]) (map unat (wrange a b)) d"
    by (simp add: fold_map o_def)
  also have "map unat (wrange a b) = [unat a..<unat b]"
  proof -
    have "unat (of_nat k :: 64 word) = k" if "k < unat b" for k
      by (metis of_nat_inverse order.strict_trans that unsigned_less)
    then show ?thesis unfolding wrange_def map_map by (intro map_idI) simp
  qed
  finally show ?thesis using assms by (simp add: zero_fill_nat word_le_nat_alt)
qed

lemma file_bytes_resize:
  assumes "rf_used x" "ram_ok x" "unat sz \<le> 4096"
  shows "file_bytes (resize sz x) = pad_to (unat sz) (file_bytes x)"
proof (cases "rf_size x < sz")
  case True
  then have "rf_data (resize sz x) = take (unat (rf_size x)) (rf_data x) @ replicate (unat sz - unat (rf_size x)) 0 @ drop (unat sz) (rf_data x)"
    using assms zero_fill [of "rf_size x" sz "rf_data x"] by (simp add: resize_def ram_ok_def)
  moreover have "unat (rf_size x) \<le> 4096" "length (rf_data x) = 4096" using assms by (simp_all add: ram_ok_def)
  ultimately show ?thesis
    using assms True by (simp add: file_bytes_def pad_to_def resize_def Let_def word_less_nat_alt min_def)
next
  case False
  then show ?thesis using assms by (simp add: file_bytes_def pad_to_def resize_def ram_ok_def word_less_nat_alt min_def)
qed

lemma resize_keeps: "rf_used (resize sz x) = rf_used x" "rf_path (resize sz x) = rf_path x"
  by (simp_all add: resize_def)

lemma ram_ok_resize:
  assumes "ram_ok x" "unat sz \<le> 4096"
  shows "ram_ok (resize sz x)"
proof -
  have "length (fold (\<lambda>i d. d[unat i := 0]) xs d) = length d" for xs :: "u64 list" and d :: "u8 list"
    by (induction xs arbitrary: d) simp_all
  then show ?thesis using assms by (simp add: ram_ok_def resize_def)
qed

text \<open>Changing what a file holds, and the copies of its size in the nodes, changes no name.\<close>

definition same_shape :: "Node \<Rightarrow> Node \<Rightarrow> bool" where
  "same_shape n m \<longleftrightarrow> n_path n = n_path m \<and> n_type n = n_type m \<and> n_writable n = n_writable m \<and>
     n_disk_backed n = n_disk_backed m \<and> n_ram_file n = n_ram_file m"

lemma same_shape_ok: "same_shape n m \<Longrightarrow> npath v n = npath v m \<and> node_ok v n = node_ok v m"
  by (cases "the (n_path m)") (auto simp: same_shape_def npath_def node_ok_def file_ok_def)

lemma content_frame:
  assumes v: "vfs_inv v" and f: "f < 32" and x: "rf_used x = rf_used (ram_files v ! f)" "rf_path x = rf_path (ram_files v ! f)" "ram_ok x"
    and ns: "length ns = length (nodes v)" "\<And>i. i < length ns \<Longrightarrow> same_shape (ns ! i) (nodes v ! i)"
  shows "vfs_inv ((set_ram_file f x v)\<lparr>nodes := ns\<rparr>)"
    and "vabs ((set_ram_file f x v)\<lparr>nodes := ns\<rparr>) = (vabs v)\<lparr>a_data := (a_data (vabs v))(f := file_bytes x)\<rparr>"
proof -
  let ?w = "set_ram_file f x v"
  have len: "length (ram_files v) = 32" using v by (simp add: vfs_inv_def tables_ok_def)
  have used: "rf_used ((ram_files v)[f := x] ! g) = rf_used (ram_files v ! g)" for g
    using x f len by (cases "g = f") simp_all
  have rt: "ref_text ?w r = ref_text v r" for r
    using x f len by (cases r) (auto simp: nth_list_update)
  then have np: "npath ?w n = npath v n" for n by (simp add: npath_def)
  have ok: "node_ok ?w n = node_ok v n" for n
    by (cases "the (n_path n)") (simp_all add: node_ok_def np file_ok_def used)
  have all2: "list_all2 same_shape ns (nodes v)" using ns by (simp add: list_all2_conv_all_nth)
  then have paths: "map (npath v) ns = map (npath v) (nodes v)"
    by (induction rule: list_all2_induct) (auto simp: same_shape_ok)
  have "(\<forall>n \<in> set ns. node_ok v n) = (\<forall>n \<in> set (nodes v). node_ok v n)"
    using all2 by (induction rule: list_all2_induct) (simp_all add: same_shape_ok)
  then have all_ok: "\<forall>n \<in> set ns. node_ok v n" using vfs_invD(2) [OF v] by blast
  have ram: "(\<exists>n \<in> set ns. P n) \<longleftrightarrow> (\<exists>n \<in> set (nodes v). P n)" if "\<And>n m. same_shape n m \<Longrightarrow> P n = P m" for P
    using all2 by (induction rule: list_all2_induct) (simp_all add: that)
  have "(\<exists>n \<in> set ns. n_ram_file n = x) = (\<exists>n \<in> set (nodes v). n_ram_file n = x)"
    "(\<exists>n \<in> set ns. n_path n = r) = (\<exists>n \<in> set (nodes v). n_path n = r)" for x r
    by (rule ram; simp add: same_shape_def)+
  then have "covered (?w\<lparr>nodes := ns\<rparr>)" using vfs_invD(4) [OF v] by (simp add: covered_def used)
  moreover have "tables_ok (?w\<lparr>nodes := ns\<rparr>)"
    using tables_set_file [OF vfs_invD(1) [OF v] x(3), of f] ns(1) by (simp add: tables_ok_def)
  moreover have npw: "npath ?w = npath v" using np by blast
  ultimately show "vfs_inv (?w\<lparr>nodes := ns\<rparr>)"
    using all_ok ok paths vfs_invD(3) [OF v] by (simp add: vfs_inv_def)
  have "map_option (\<lambda>n. (n_type n, n_ram_file n)) (find (\<lambda>n. npath v n = p) ns)
      = map_option (\<lambda>n. (n_type n, n_ram_file n)) (find (\<lambda>n. npath v n = p) (nodes v))" for p
    using all2 by (induction rule: list_all2_induct) (auto simp: same_shape_ok, auto simp: same_shape_def)
  then show "vabs (?w\<lparr>nodes := ns\<rparr>) = (vabs v)\<lparr>a_data := (a_data (vabs v))(f := file_bytes x)\<rparr>"
    using f len by (auto simp: vabs_def npw fun_eq_iff nth_list_update)
qed

lemma truncate_correct:
  assumes v: "vfs_inv v"
  shows "vop_correct (Truncate p sz) v (truncate_ram_file env p sz v)"
proof (cases "normalize_path p")
  case None
  then show ?thesis using v by (simp add: truncate_ram_file_def)
next
  case (Some q)
  note q = normalize_canon64 [OF Some]
  show ?thesis
  proof (cases "sz \<le> 4096 \<and> ram_target v (Some q) \<noteq> None")
    case False
    then show ?thesis using v Some by (auto simp: truncate_ram_file_def kMaxRamFileBytes_def Let_def not_le)
  next
    case True
    then obtain f where tg: "ram_target v (Some q) = Some f" by auto
    have sz: "unat sz \<le> 4096" using True by (simp add: word_le_nat_alt)
    have nm: "a_names (vabs v) q = Some (MemoryFile, Some f)" using tg ram_target_iff [OF v q] by simp
    then obtain m where "m \<in> set (nodes v)" "n_ram_file m = Some f" using a_names_Some [OF vfs_invD(3) [OF v]] by blast
    note f = ram_file_node [OF v this]
    let ?x = "resize sz (ram_files v ! f)"
    let ?ns = "map (\<lambda>n. if n_ram_file n \<noteq> Some f then n else n\<lparr>n_base := data_address env f, n_size := sz\<rparr>) (nodes v)"
    have r: "ram_ok (ram_files v ! f)" by (rule tables_okD(6) [OF vfs_invD(1) [OF v] f(4)])
    note c = content_frame [OF v f(4) resize_keeps ram_ok_resize [OF r sz], of ?ns]
    have "vfs_inv ((set_ram_file f ?x v)\<lparr>nodes := ?ns\<rparr>)"
      "vabs ((set_ram_file f ?x v)\<lparr>nodes := ?ns\<rparr>) = (vabs v)\<lparr>a_data := (a_data (vabs v))(f := file_bytes ?x)\<rparr>"
      by (rule c; simp add: same_shape_def)+
    moreover have "file_bytes ?x = pad_to (unat sz) (a_data (vabs v) f)"
      using file_bytes_resize [OF f(5) r sz] f(4) by (simp add: vabs_def)
    moreover have "length (handles v) = 32" by (rule tables_okD(1) [OF vfs_invD(1) [OF v]])
    ultimately show ?thesis
      using v Some True tg sz nm by (simp add: truncate_ram_file_def kMaxRamFileBytes_def vop_correct_def Let_def word_le_nat_alt not_less)
  qed
qed

section \<open>Renaming\<close>

lemma rename_frame:
  assumes v: "vfs_inv v" and n: "n \<in> set (nodes v)" and new: "canon64 new" "new \<notin> npath v ` set (nodes v)"
    and w: "nodes w = nodes v" "npath w n = new" "\<And>m. m \<in> set (nodes v) \<Longrightarrow> m \<noteq> n \<Longrightarrow> npath w m = npath v m"
    and ok: "\<And>m. m \<in> set (nodes v) \<Longrightarrow> node_ok w m" "tables_ok w" "covered w"
  shows "vfs_inv w" "a_names (vabs w) = (a_names (vabs v))(new := a_names (vabs v) (npath v n), npath v n := None)"
proof -
  have dn: "distinct (nodes v)" "inj_on (npath v) (set (nodes v))" using vfs_invD(3) [OF v] by (simp_all add: distinct_map)
  have pw: "npath w m = (if m = n then new else npath v m)" if "m \<in> set (nodes v)" for m using w that by simp
  have "a = b" if "a \<in> set (nodes v)" "b \<in> set (nodes v)" "npath w a = npath w b" for a b
    using that pw [of a] pw [of b] imageI [OF that(1), of "npath v"] imageI [OF that(2), of "npath v"] new(2) inj_onD [OF dn(2)]
    by (metis (full_types))
  then have d: "distinct (map (npath w) (nodes w))" using dn(1) by (simp add: w(1) distinct_map inj_on_def)
  then show "vfs_inv w" using ok w(1) by (simp add: vfs_inv_def)
  show "a_names (vabs w) = (a_names (vabs v))(new := a_names (vabs v) (npath v n), npath v n := None)"
  proof (rule a_names_eqI [OF d])
    fix m assume "m \<in> set (nodes w)"
    then have m: "m \<in> set (nodes v)" using w(1) by simp
    have "new \<noteq> npath v m" "new \<noteq> npath v n" using new(2) m n by blast+
    moreover have "m \<noteq> n \<Longrightarrow> npath v m \<noteq> npath v n" using npath_inj [OF v m n] by blast
    ultimately show "((a_names (vabs v))(new := a_names (vabs v) (npath v n), npath v n := None)) (npath w m) = Some (n_type m, n_ram_file m)"
      using pw [OF m] a_names_node [OF v m] a_names_node [OF v n] by auto
  next
    fix p assume "((a_names (vabs v))(new := a_names (vabs v) (npath v n), npath v n := None)) p \<noteq> None"
    then have "p = new \<or> (p \<noteq> npath v n \<and> p \<in> npath v ` set (nodes v))"
      using a_names_None [of v p] by (auto split: if_splits)
    then consider "p = new" | m where "m \<in> set (nodes v)" "m \<noteq> n" "p = npath v m" by blast
    then show "p \<in> npath w ` set (nodes w)"
      by cases (use w n in \<open>simp_all add: image_iff, blast, metis\<close>)
  qed
qed

text \<open>The entry whose path is the path of a node is the entry of that node.\<close>

lemma link_of_node:
  assumes v: "vfs_inv v" and n: "n \<in> set (nodes v)" and l: "l < 8" "rl_used (ram_links v ! l)" "rl_path (ram_links v ! l) = npath v n"
  shows "n_path n = Some (LinkPath l)"
proof -
  obtain m where m: "m \<in> set (nodes v)" "n_path m = Some (LinkPath l)" using coveredD(2) [OF vfs_invD(4) [OF v] l(1,2)] by blast
  then have "npath v m = npath v n" using l(3) by (simp add: npath_def)
  then show ?thesis using npath_inj [OF v m(1) n] m(2) by simp
qed

lemma directory_of_node:
  assumes v: "vfs_inv v" and n: "n \<in> set (nodes v)"
    and d: "d < 8" "rd_used (ram_directories v ! d)" "rd_path (ram_directories v ! d) = npath v n"
  shows "n_path n = Some (DirPath d)"
proof -
  obtain m where m: "m \<in> set (nodes v)" "n_path m = Some (DirPath d)" using coveredD(3) [OF vfs_invD(4) [OF v] d(1,2)] by blast
  then have "npath v m = npath v n" using d(3) by (simp add: npath_def)
  then show ?thesis using npath_inj [OF v m(1) n] m(2) by simp
qed

lemma same_ref_node: "vfs_inv v \<Longrightarrow> n \<in> set (nodes v) \<Longrightarrow> m \<in> set (nodes v) \<Longrightarrow> n_path m = n_path n \<Longrightarrow> m = n"
  by (rule npath_inj) (simp_all add: npath_def)

lemma rename_link_correct:
  assumes v: "vfs_inv v" and n: "n \<in> set (nodes v)" "n_path n = Some (LinkPath l)" and new: "canon64 new" "new \<notin> npath v ` set (nodes v)"
  shows "vfs_inv (set_ram_link l ((ram_links v ! l)\<lparr>rl_path := new\<rparr>) v)" (is "vfs_inv ?w")
    and "a_names (vabs (set_ram_link l ((ram_links v ! l)\<lparr>rl_path := new\<rparr>) v)) =
      (a_names (vabs v))(new := a_names (vabs v) (npath v n), npath v n := None)"
proof -
  have len: "length (ram_links v) = 8" by (rule tables_okD(4) [OF vfs_invD(1) [OF v]])
  have l: "l < 8" "rl_used (ram_links v ! l)" using node_okD(4) [OF vfs_invD(2) [OF v n(1)]] n(2) by simp_all
  have pn: "npath ?w n = new" using n(2) len l by (simp add: npath_def)
  have rest: "npath ?w m = npath v m" if m: "m \<in> set (nodes v)" "m \<noteq> n" for m
  proof -
    have "the (n_path m) \<noteq> LinkPath l" using m same_ref_node [OF v n(1) m(1)] n(2) node_okD(1) [OF vfs_invD(2) [OF v m(1)]] by auto
    then show ?thesis by (cases "the (n_path m)") (auto simp: npath_def)
  qed
  have keep: "rl_used ((ram_links v)[l := (ram_links v ! l)\<lparr>rl_path := new\<rparr>] ! k) = rl_used (ram_links v ! k)" "rl_target ((ram_links v)[l := (ram_links v ! l)\<lparr>rl_path := new\<rparr>] ! k) = rl_target (ram_links v ! k)" for k
    using len l by (cases "k = l"; simp)+
  have ok: "node_ok ?w m" if m: "m \<in> set (nodes v)" for m
  proof -
    have "canon64 (npath ?w m)" using pn rest [OF m] new(1) node_okD(2) [OF vfs_invD(2) [OF v m]] by (cases "m = n") simp_all
    then show ?thesis
      using vfs_invD(2) [OF v m] by (cases "the (n_path m)") (auto simp: node_ok_def file_ok_def keep)
  qed
  have "covered ?w" using vfs_invD(4) [OF v] by (simp add: covered_def keep)
  note r = rename_frame [OF v n(1) new _ pn rest ok tables_set_link [OF vfs_invD(1) [OF v]] this]
  show "vfs_inv ?w" by (rule r(1)) simp_all
  show "a_names (vabs ?w) = (a_names (vabs v))(new := a_names (vabs v) (npath v n), npath v n := None)" by (rule r(2)) simp_all
qed

lemma rename_directory_correct:
  assumes v: "vfs_inv v" and n: "n \<in> set (nodes v)" "n_path n = Some (DirPath d)" and new: "canon64 new" "new \<notin> npath v ` set (nodes v)"
  shows "vfs_inv (set_ram_directory d ((ram_directories v ! d)\<lparr>rd_path := new\<rparr>) v)" (is "vfs_inv ?w")
    and "a_names (vabs (set_ram_directory d ((ram_directories v ! d)\<lparr>rd_path := new\<rparr>) v)) =
      (a_names (vabs v))(new := a_names (vabs v) (npath v n), npath v n := None)"
proof -
  have len: "length (ram_directories v) = 8" by (rule tables_okD(3) [OF vfs_invD(1) [OF v]])
  have d: "d < 8" "rd_used (ram_directories v ! d)" using node_okD(4) [OF vfs_invD(2) [OF v n(1)]] n(2) by simp_all
  have pn: "npath ?w n = new" using n(2) len d by (simp add: npath_def)
  have rest: "npath ?w m = npath v m" if m: "m \<in> set (nodes v)" "m \<noteq> n" for m
  proof -
    have "the (n_path m) \<noteq> DirPath d" using m same_ref_node [OF v n(1) m(1)] n(2) node_okD(1) [OF vfs_invD(2) [OF v m(1)]] by auto
    then show ?thesis by (cases "the (n_path m)") (auto simp: npath_def)
  qed
  have keep: "rd_used ((ram_directories v)[d := (ram_directories v ! d)\<lparr>rd_path := new\<rparr>] ! k) = rd_used (ram_directories v ! k)" for k
    using len d by (cases "k = d"; simp)+
  have ok: "node_ok ?w m" if m: "m \<in> set (nodes v)" for m
  proof -
    have "canon64 (npath ?w m)" using pn rest [OF m] new(1) node_okD(2) [OF vfs_invD(2) [OF v m]] by (cases "m = n") simp_all
    then show ?thesis
      using vfs_invD(2) [OF v m] by (cases "the (n_path m)") (auto simp: node_ok_def file_ok_def keep)
  qed
  have "covered ?w" using vfs_invD(4) [OF v] by (simp add: covered_def keep)
  note r = rename_frame [OF v n(1) new _ pn rest ok tables_set_directory [OF vfs_invD(1) [OF v]] this]
  show "vfs_inv ?w" by (rule r(1)) simp_all
  show "a_names (vabs ?w) = (a_names (vabs v))(new := a_names (vabs v) (npath v n), npath v n := None)" by (rule r(2)) simp_all
qed

lemma rename_file_correct:
  assumes v: "vfs_inv v" and n: "n \<in> set (nodes v)" "n_path n = Some (FilePath f)" and new: "canon64 new" "new \<notin> npath v ` set (nodes v)"
  shows "vfs_inv (set_ram_file f ((ram_files v ! f)\<lparr>rf_path := new\<rparr>) v)" (is "vfs_inv ?w")
    and "a_names (vabs (set_ram_file f ((ram_files v ! f)\<lparr>rf_path := new\<rparr>) v)) =
      (a_names (vabs v))(new := a_names (vabs v) (npath v n), npath v n := None)"
proof -
  have len: "length (ram_files v) = 32" by (rule tables_okD(2) [OF vfs_invD(1) [OF v]])
  have "n_ram_file n = Some f" using node_okD(4) [OF vfs_invD(2) [OF v n(1)]] n(2) by simp
  note f = ram_file_node [OF v n(1) this]
  have pn: "npath ?w n = new" using n(2) len f by (simp add: npath_def)
  have rest: "npath ?w m = npath v m" if m: "m \<in> set (nodes v)" "m \<noteq> n" for m
  proof -
    have "the (n_path m) \<noteq> FilePath f" using m same_ref_node [OF v n(1) m(1)] n(2) node_okD(1) [OF vfs_invD(2) [OF v m(1)]] by auto
    then show ?thesis by (cases "the (n_path m)") (auto simp: npath_def)
  qed
  have keep: "rf_used ((ram_files v)[f := (ram_files v ! f)\<lparr>rf_path := new\<rparr>] ! k) = rf_used (ram_files v ! k)" for k
    using len f(4) by (cases "k = f"; simp)+
  have ok: "node_ok ?w m" if m: "m \<in> set (nodes v)" for m
  proof -
    have "canon64 (npath ?w m)" using pn rest [OF m] new(1) node_okD(2) [OF vfs_invD(2) [OF v m]] by (cases "m = n") simp_all
    then show ?thesis
      using vfs_invD(2) [OF v m] by (cases "the (n_path m)") (auto simp: node_ok_def file_ok_def keep)
  qed
  have t: "tables_ok ?w"
    using tables_okD(6) [OF vfs_invD(1) [OF v] f(4)] by (intro tables_set_file vfs_invD [OF v]) (simp add: ram_ok_def)
  have "covered ?w" using vfs_invD(4) [OF v] by (simp add: covered_def keep)
  note r = rename_frame [OF v n(1) new _ pn rest ok t this]
  show "vfs_inv ?w" by (rule r(1)) simp_all
  show "a_names (vabs ?w) = (a_names (vabs v))(new := a_names (vabs v) (npath v n), npath v n := None)" by (rule r(2)) simp_all
qed

lemma set_node_path_same: "i < length (nodes v) \<Longrightarrow> n_path (nodes v ! i) = Some r \<Longrightarrow> set_node_path i r v = v"
proof -
  assume i: "i < length (nodes v)" and r: "n_path (nodes v ! i) = Some r"
  have "(nodes v ! i)\<lparr>n_path := Some r\<rparr> = nodes v ! i" using r by (cases "nodes v ! i") simp
  then show "set_node_path i r v = v" using i by (simp add: set_node_path_def)
qed

lemma not_below_self [simp]: "\<not> path_has_prefix_child p p"
  by (simp add: path_has_prefix_child_def path_equal_def)

lemma a_data_frame [simp]:
  "a_data (vabs (set_ram_link l x v)) = a_data (vabs v)" "a_data (vabs (set_ram_directory d y v)) = a_data (vabs v)"
  "a_data (vabs (v\<lparr>nodes := ns\<rparr>)) = a_data (vabs v)"
  by (simp_all add: vabs_def cong: if_cong)

lemma empty_dir_iff:
  assumes v: "vfs_inv v" and n: "n \<in> set (nodes v)" "n_type n = Directory"
  shows "empty_dir (vabs v) (npath v n) \<longleftrightarrow> (\<forall>m \<in> set (nodes v). \<not> node_below v (npath v n) m)"
proof -
  have "is_dir (vabs v) (npath v n)" using is_dir_iff [OF v] n by blast
  moreover have "a_names (vabs v) q \<noteq> None \<longleftrightarrow> q \<in> npath v ` set (nodes v)" for q by (simp add: a_names_None)
  ultimately show ?thesis
    using node_below_npath [OF vfs_invD(2) [OF v]] by (auto simp: empty_dir_def)
qed

text \<open>The loop acts on the one node that has the old name.\<close>

definition renamed :: "string \<Rightarrow> string \<Rightarrow> vfs \<Rightarrow> bool \<times> vfs \<Rightarrow> bool" where
  "renamed old new v r \<longleftrightarrow> vfs_inv (snd r) \<and>
     (if fst r then vabs (snd r) = (vabs v)\<lparr>a_names := (a_names (vabs v))(new := a_names (vabs v) old, old := None)\<rparr> \<and>
        ((\<exists>f. a_names (vabs v) old = Some (MemoryFile, Some f)) \<or> empty_dir (vabs v) old)
      else vabs (snd r) = vabs v)"

lemma file_ref:
  assumes v: "vfs_inv v" and n: "n \<in> set (nodes v)" "n_ram_file n = Some f"
    and l: "find_idx (\<lambda>l. rl_used l \<and> path_equal (rl_path l) (npath v n)) (ram_links v) = None"
  shows "n_path n = Some (FilePath f)"
proof -
  note ok = node_okD [OF vfs_invD(2) [OF v n(1)]]
  have len: "length (ram_links v) = 8" by (rule tables_okD(4) [OF vfs_invD(1) [OF v]])
  have "the (n_path n) \<noteq> LinkPath k" for k
  proof
    assume k: "the (n_path n) = LinkPath k"
    then have "k < 8" "rl_used (ram_links v ! k)" using ok(4) by simp_all
    moreover have "rl_path (ram_links v ! k) = npath v n" using k by (simp add: npath_def)
    ultimately show False using l len nth_mem [of k "ram_links v"] by (auto simp: find_idx_None path_equal_def)
  qed
  then show ?thesis using ok(1,4) n(2) by (cases "the (n_path n)") auto
qed

lemma rename_at_correct:
  assumes v: "vfs_inv v" and i: "i < length (nodes v)" and new: "canon64 new" "new \<notin> npath v ` set (nodes v)"
    and r: "rename_at old new i v = Some r"
  shows "renamed old new v r"
proof -
  let ?n = "nodes v ! i"
  have n: "?n \<in> set (nodes v)" using i by simp
  have "has_path v old ?n" using r by (simp add: rename_at_def Let_def split: if_splits)
  then have old: "old = npath v ?n" using has_path_npath [OF vfs_invD(2) [OF v n]] by simp
  note len = tables_okD(3,4) [OF vfs_invD(1) [OF v]]
  have cp: "copy_path (Some new) = new" using new by (simp add: copy_path_canon64)
  show ?thesis
  proof (cases "n_ram_file ?n")
    case (Some f)
    note f = ram_file_node [OF v n Some]
    have nm: "a_names (vabs v) old = Some (MemoryFile, Some f)" using a_names_node [OF v n] f Some old by simp
    show ?thesis
    proof (cases "find_idx (\<lambda>l. rl_used l \<and> path_equal (rl_path l) old) (ram_links v)")
      case (Some l)
      then have "l < 8" "rl_used (ram_links v ! l)" "rl_path (ram_links v ! l) = npath v ?n"
        using len old by (auto simp: find_idx_Some path_equal_def)
      then have p: "n_path ?n = Some (LinkPath l)" by (rule link_of_node [OF v n])
      show ?thesis
        using r Some \<open>n_ram_file ?n = Some f\<close> rename_link_correct [OF v n p new] i p f nm old
        by (auto simp: rename_at_def Let_def cp set_node_path_same renamed_def split: if_splits)
    next
      case None
      then have p: "n_path ?n = Some (FilePath f)" using file_ref [OF v n Some] old by simp
      have "a_data (vabs (set_ram_file f ((ram_files v ! f)\<lparr>rf_path := new\<rparr>) v)) = a_data (vabs v)"
        using f tables_okD(2) [OF vfs_invD(1) [OF v]] by (auto simp: vabs_def file_bytes_def nth_list_update)
      then show ?thesis
        using r None Some rename_file_correct [OF v n p new] i p f nm old v
        by (auto simp: rename_at_def Let_def cp set_node_path_same renamed_def split: if_splits)
    qed
  next
    case None
    show ?thesis
    proof (cases "find_idx (\<lambda>d. rd_used d \<and> path_equal (rd_path d) old) (ram_directories v)")
      case (Some d)
      then have "d < 8" "rd_used (ram_directories v ! d)" "rd_path (ram_directories v ! d) = npath v ?n"
        using len old by (auto simp: find_idx_Some path_equal_def)
      then have p: "n_path ?n = Some (DirPath d)" by (rule directory_of_node [OF v n])
      have t: "n_type ?n = Directory" using node_okD(4) [OF vfs_invD(2) [OF v n]] p by simp
      have "\<not> node_below v old ?n" using old node_below_npath [OF vfs_invD(2) [OF v n]] by simp
      then have "empty_dir (vabs v) old" if "\<not> (\<exists>c < length (nodes v). c \<noteq> i \<and> node_below v old (nodes v ! c))"
        using that empty_dir_iff [OF v n t] old by (metis in_set_conv_nth)
      then show ?thesis
        using r Some None rename_directory_correct [OF v n p new] i p old v
        by (auto simp: rename_at_def Let_def cp set_node_path_same renamed_def split: if_splits)
    next
      case no: None
      then show ?thesis using r None v by (auto simp: rename_at_def Let_def renamed_def split: if_splits)
    qed
  qed
qed

lemma rename_scan_correct:
  "vfs_inv v \<Longrightarrow> \<forall>i \<in> set js. i < length (nodes v) \<Longrightarrow> canon64 new \<Longrightarrow> new \<notin> npath v ` set (nodes v) \<Longrightarrow>
   rename_scan old new js v = Some r \<Longrightarrow> renamed old new v r"
  by (induction js) (auto dest: rename_at_correct split: option.splits)

lemma rename_correct:
  assumes v: "vfs_inv v"
  shows "vop_correct (Rename p0 p) v (rename_ram_node p0 p v)"
proof (cases "normalize_path p0 = None \<or> copy_path_checked p = None")
  case True
  then show ?thesis using v by (auto simp: rename_ram_node_def Let_def split: option.split)
next
  case False
  then obtain q0 q where nq: "normalize_path p0 = Some q0" "copy_path_checked p = Some q" by auto
  note q = checked_canon64 [OF nq(2)]
  obtain ns n where par: "parent_path (Some q) = Some (render ns)" "canon64 (render ns)"
    using q parent_canon64 [of q] by metis
  show ?thesis
  proof (cases "find_node v (Some q) = None \<and> dir_exists v (Some (render ns)) \<and> q0 \<noteq> q")
    case False
    then show ?thesis using v nq par by (auto simp: rename_ram_node_def Let_def path_equal_def)
  next
    case True
    note facts = new_name_facts [OF v conjunct1 [OF q] conjunct1 [OF True] par(2)]
    have fresh: "q \<notin> npath v ` set (nodes v)" using facts(1) True by (simp add: a_names_None)
    show ?thesis
    proof (cases "rename_scan q0 q [0..<length (nodes v)] v")
      case None
      then show ?thesis using v nq par True by (simp add: rename_ram_node_def Let_def path_equal_def)
    next
      case (Some r)
      have "renamed q0 q v r" using rename_scan_correct [OF v _ conjunct1 [OF q] fresh Some] by simp
      moreover have "rename_ram_node p0 p v = r" using Some nq par True by (simp add: rename_ram_node_def Let_def path_equal_def)
      moreover have "a_effect (Rename p0 p) (vabs v) ((vabs v)\<lparr>a_names := (a_names (vabs v))(q := a_names (vabs v) q0, q0 := None)\<rparr>)"
        if "(\<exists>f. a_names (vabs v) q0 = Some (MemoryFile, Some f)) \<or> empty_dir (vabs v) q0"
        unfolding a_effect.simps
        using that nq par facts True q by blast
      ultimately show ?thesis by (simp add: vop_correct_def renamed_def split: if_splits)
    qed
  qed
qed


section \<open>Deletion\<close>

lemma set_without: "distinct xs \<Longrightarrow> i < length xs \<Longrightarrow> set (take i xs @ drop (Suc i) xs) = set xs - {xs ! i}"
  using id_take_nth_drop [of i xs] set_drop_subset
  by (metis (no_types, lifting) Diff_insert_absorb Un_insert_right distinct_append distinct.simps(2) list.simps(15) set_append disjoint_insert(1) UnE)

lemma remove_frame:
  assumes v: "vfs_inv v" and i: "i < length (nodes v)" and w: "nodes w = take i (nodes v) @ drop (Suc i) (nodes v)"
    and rest: "\<And>m. m \<in> set (nodes v) \<Longrightarrow> m \<noteq> nodes v ! i \<Longrightarrow> npath w m = npath v m \<and> node_ok w m"
    and t: "tables_ok w" "covered w"
  shows "vfs_inv w" "a_names (vabs w) = (a_names (vabs v))(npath v (nodes v ! i) := None)"
proof -
  let ?n = "nodes v ! i"
  have n: "?n \<in> set (nodes v)" using i by simp
  have dist: "distinct (nodes v)" using vfs_invD(3) [OF v] by (simp add: distinct_map)
  have ns: "set (nodes w) = set (nodes v) - {?n}" unfolding w by (rule set_without [OF dist i])
  have "distinct (nodes w)" using dist id_take_nth_drop [OF i] unfolding w by (metis distinct_append distinct.simps(2) set_ConsD disjoint_insert(1) list.simps(15))
  moreover have "inj_on (npath w) (set (nodes w))"
    using rest npath_inj [OF v] by (simp add: inj_on_def ns)
  ultimately have d: "distinct (map (npath w) (nodes w))" by (simp add: distinct_map)
  then show "vfs_inv w" using rest t by (simp add: vfs_inv_def ns)
  show "a_names (vabs w) = (a_names (vabs v))(npath v ?n := None)"
  proof (rule a_names_eqI [OF d])
    fix m assume "m \<in> set (nodes w)"
    then have m: "m \<in> set (nodes v)" "m \<noteq> ?n" by (simp_all add: ns)
    then have "npath v m \<noteq> npath v ?n" using npath_inj [OF v m(1) n] by blast
    then show "((a_names (vabs v))(npath v ?n := None)) (npath w m) = Some (n_type m, n_ram_file m)"
      using rest [OF m] a_names_node [OF v m(1)] by simp
  next
    fix p assume "((a_names (vabs v))(npath v ?n := None)) p \<noteq> None"
    then obtain m where "m \<in> set (nodes v)" "m \<noteq> ?n" "p = npath v m"
      using a_names_None [of v p] by (auto split: if_splits)
    then show "p \<in> npath w ` set (nodes w)" using rest by (auto simp: ns)
  qed
qed

lemma other_node:
  assumes "vfs_inv v" "i < length (nodes v)" "m \<in> set (nodes v)" "m \<noteq> nodes v ! i"
  shows "n_path m = Some (the (n_path m))" "n_path m \<noteq> n_path (nodes v ! i)"
  using same_ref_node [OF assms(1) nth_mem [OF assms(2)] assms(3)] assms(4) node_okD(1) [OF vfs_invD(2) [OF assms(1,3)]] by auto

lemma removed_directory:
  assumes v: "vfs_inv v" and i: "i < length (nodes v)" and n: "n_ram_file (nodes v ! i) = None"
    and u: "(u = v \<and> (\<forall>d. n_path (nodes v ! i) \<noteq> Some (DirPath d))) \<or>
      (\<exists>d. n_path (nodes v ! i) = Some (DirPath d) \<and> u = set_ram_directory d empty_ram_directory v)"
  shows "vfs_inv (remove_node i u)" "vabs (remove_node i u) = (vabs v)\<lparr>a_names := (a_names (vabs v))(npath v (nodes v ! i) := None)\<rparr>"
proof -
  let ?n = "nodes v ! i" and ?w = "remove_node i u"
  note iv = vfs_invD [OF v]
  have len: "length (ram_directories v) = 8" by (rule tables_okD(3) [OF iv(1)])
  have dist: "distinct (nodes v)" using iv(3) by (simp add: distinct_map)
  have nu: "nodes u = nodes v" "ram_files u = ram_files v" "ram_links u = ram_links v" "tables_ok u" "a_data (vabs u) = a_data (vabs v)"
    using u iv(1) by (auto simp: tables_set_directory)
  have ns: "nodes ?w = take i (nodes v) @ drop (Suc i) (nodes v)" by (simp add: remove_node_def nu)
  have set_ns: "set (nodes ?w) = set (nodes v) - {?n}" unfolding ns by (rule set_without [OF dist i])
  have keep: "ram_directories u ! k = ram_directories v ! k" if "n_path ?n \<noteq> Some (DirPath k)" for k
    using u that by auto
  have gone: "n_path ?n = Some (DirPath k) \<Longrightarrow> \<not> rd_used (ram_directories u ! k)" if "k < 8" for k
    using u that len by (auto simp: empty_ram_directory_def)
  have rest: "npath ?w m = npath v m \<and> node_ok ?w m" if m: "m \<in> set (nodes v)" "m \<noteq> ?n" for m
  proof -
    have "the (n_path m) = DirPath k \<Longrightarrow> n_path ?n \<noteq> Some (DirPath k)" for k using other_node [OF v i m] by auto
    then show ?thesis
      using iv(2) [OF m(1)] keep
      by (cases "the (n_path m)") (auto simp: remove_node_def node_ok_def npath_def file_ok_def nu)
  qed
  have "covered ?w" unfolding covered_def
  proof (intro conjI allI impI)
    fix f assume "f < 32" "rf_used (ram_files ?w ! f)"
    then obtain m where "m \<in> set (nodes v)" "n_ram_file m = Some f"
      using coveredD(1) [OF iv(4), of f] by (auto simp: remove_node_def nu)
    then show "\<exists>m \<in> set (nodes ?w). n_ram_file m = Some f" using n set_ns by auto
  next
    fix l assume "l < 8" "rl_used (ram_links ?w ! l)"
    then obtain m where m: "m \<in> set (nodes v)" "n_path m = Some (LinkPath l)"
      using coveredD(2) [OF iv(4), of l] by (auto simp: remove_node_def nu)
    then have "m \<noteq> ?n" using node_okD(4) [OF iv(2) [OF m(1)]] n by auto
    then show "\<exists>m \<in> set (nodes ?w). n_path m = Some (LinkPath l)" using m set_ns by blast
  next
    fix d assume d: "d < 8" "rd_used (ram_directories ?w ! d)"
    then have nd: "n_path ?n \<noteq> Some (DirPath d)" using gone by (auto simp: remove_node_def)
    then obtain m where "m \<in> set (nodes v)" "n_path m = Some (DirPath d)"
      using coveredD(3) [OF iv(4), of d] d keep by (auto simp: remove_node_def)
    then show "\<exists>m \<in> set (nodes ?w). n_path m = Some (DirPath d)" using nd set_ns by auto
  qed
  moreover have "tables_ok ?w" using nu(1,4) i by (auto simp: tables_ok_def remove_node_def)
  ultimately show "vfs_inv ?w" "vabs ?w = (vabs v)\<lparr>a_names := (a_names (vabs v))(npath v ?n := None)\<rparr>"
    using remove_frame [OF v i ns rest] nu(5) by (simp_all add: remove_node_def)
qed

lemma delete_directory_correct:
  assumes v: "vfs_inv v"
  shows "vop_correct (DeleteDir p) v (delete_ram_directory p v)"
proof (cases "normalize_path p")
  case None
  then show ?thesis using v by (simp add: delete_ram_directory_def)
next
  case (Some q)
  let ?P = "\<lambda>n. has_path v q n \<and> n_type n = Directory \<and> n_writable n"
  show ?thesis
  proof (cases "1 < length q \<and> find_idx ?P (nodes v) \<noteq> None \<and> \<not> (\<exists>n \<in> set (nodes v). node_below v q n)")
    case False
    then show ?thesis using v Some by (auto simp: delete_ram_directory_def Let_def split: option.split)
  next
    case True
    then obtain i where fi: "find_idx ?P (nodes v) = Some i" by auto
    let ?n = "nodes v ! i" and ?d = "find_idx (\<lambda>d. rd_used d \<and> path_equal (rd_path d) q) (ram_directories v)"
    let ?u = "case ?d of Some d \<Rightarrow> set_ram_directory d empty_ram_directory v | None \<Rightarrow> v"
    have i: "i < length (nodes v)" and P: "?P ?n" using fi by (auto simp: find_idx_Some)
    have n: "?n \<in> set (nodes v)" using i by simp
    have q: "q = npath v ?n" using P has_path_npath [OF vfs_invD(2) [OF v n]] by simp
    have len: "length (ram_directories v) = 8" by (rule tables_okD(3) [OF vfs_invD(1) [OF v]])
    have dn: "n_path ?n = Some (DirPath d)" if "?d = Some d" for d
      using that len q directory_of_node [OF v n, of d] by (auto simp: find_idx_Some path_equal_def)
    have nd: "?d \<noteq> None" if "n_path ?n = Some (DirPath d)" for d
    proof -
      have "d < 8" "rd_used (ram_directories v ! d)" "rd_path (ram_directories v ! d) = q"
        using that node_okD(4) [OF vfs_invD(2) [OF v n]] q by (simp_all add: npath_def)
      then show ?thesis using len nth_mem [of d "ram_directories v"] by (auto simp: find_idx_None path_equal_def)
    qed
    have "n_ram_file ?n = None"
      using P node_okD(5) [OF vfs_invD(2) [OF v n]] by (cases "n_ram_file ?n"; simp add: file_ok_def)+
    moreover have "(?u = v \<and> (\<forall>d. n_path ?n \<noteq> Some (DirPath d))) \<or>
        (\<exists>d. n_path ?n = Some (DirPath d) \<and> ?u = set_ram_directory d empty_ram_directory v)"
      using dn nd by (cases ?d) auto
    ultimately have "vfs_inv (remove_node i ?u)" "vabs (remove_node i ?u) = (vabs v)\<lparr>a_names := (a_names (vabs v))(q := None)\<rparr>"
      unfolding q by (rule removed_directory [OF v i])+
    moreover have "empty_dir (vabs v) q" using empty_dir_iff [OF v n] P True q by simp
    ultimately show ?thesis
      using Some True fi by (simp add: delete_ram_directory_def vop_correct_def Let_def)
  qed
qed

lemma removed_file:
  assumes v: "vfs_inv v" and i: "i < length (nodes v)" and n: "n_ram_file (nodes v ! i) = Some f"
    and u: "(u = v \<and> (\<forall>l. n_path (nodes v ! i) \<noteq> Some (LinkPath l))) \<or>
      (\<exists>l. n_path (nodes v ! i) = Some (LinkPath l) \<and> u = set_ram_link l empty_ram_link v)"
    and w: "w = (if \<exists>m \<in> set (nodes (remove_node i u)). n_type m = MemoryFile \<and> n_ram_file m = Some f
      then remove_node i u else set_ram_file f empty_ram_file (remove_node i u))"
  shows "vfs_inv w" "a_names (vabs w) = (a_names (vabs v))(npath v (nodes v ! i) := None)"
    and "a_data (vabs w) = (if \<exists>x y. x \<noteq> npath v (nodes v ! i) \<and> a_names (vabs v) x = Some (y, Some f)
      then a_data (vabs v) else (a_data (vabs v))(f := []))"
proof -
  let ?n = "nodes v ! i" and ?more = "\<exists>m \<in> set (nodes v). m \<noteq> nodes v ! i \<and> n_ram_file m = Some f"
  note iv = vfs_invD [OF v] and f = ram_file_node [OF v nth_mem [OF i] n]
  have len: "length (ram_links v) = 8" "length (ram_files v) = 32" by (rule tables_okD [OF iv(1)])+
  have dist: "distinct (nodes v)" using iv(3) by (simp add: distinct_map)
  have nu: "nodes u = nodes v" "ram_files u = ram_files v" "ram_directories u = ram_directories v" "tables_ok u" "a_data (vabs u) = a_data (vabs v)"
    using u iv(1) by (auto simp: tables_set_link)
  have ns: "nodes w = take i (nodes v) @ drop (Suc i) (nodes v)" by (simp add: w remove_node_def nu)
  have set_ns: "set (nodes w) = set (nodes v) - {?n}" unfolding ns by (rule set_without [OF dist i])
  have "(\<exists>m \<in> set (nodes (remove_node i u)). n_type m = MemoryFile \<and> n_ram_file m = Some f) \<longleftrightarrow> ?more"
    using ram_file_node(1) [OF v] set_without [OF dist i] by (auto simp: remove_node_def nu)
  then have w: "w = (if ?more then remove_node i u else set_ram_file f empty_ram_file (remove_node i u))"
    unfolding w by simp
  have tabs: "ram_links w = ram_links u" "ram_directories w = ram_directories v"
    "ram_files w = (if ?more then ram_files v else (ram_files v)[f := empty_ram_file])"
    by (auto simp: w remove_node_def nu)
  have keep: "ram_links u ! k = ram_links v ! k" if "n_path ?n \<noteq> Some (LinkPath k)" for k
    using u that by auto
  have gone: "n_path ?n = Some (LinkPath k) \<Longrightarrow> \<not> rl_used (ram_links u ! k)" if "k < 8" for k
    using u that len by (auto simp: empty_ram_link_def)
  have keepf: "ram_files w ! g = ram_files v ! g" if "g \<noteq> f \<or> ?more" for g using that by (auto simp: tabs)
  have rest: "npath w m = npath v m \<and> node_ok w m" if m: "m \<in> set (nodes v)" "m \<noteq> ?n" for m
  proof -
    have k: "the (n_path m) = LinkPath k \<Longrightarrow> n_path ?n \<noteq> Some (LinkPath k)" for k using other_node [OF v i m] by auto
    have g: "ram_files w ! g = ram_files v ! g" if "n_ram_file m = Some g" for g using keepf [of g] m that by blast
    show ?thesis
      using iv(2) [OF m(1)] keep k g
      by (cases "the (n_path m)") (auto simp: node_ok_def npath_def file_ok_def tabs(1,2))
  qed
  have c: "covered w" unfolding covered_def
  proof (intro conjI allI impI)
    fix g assume g: "g < 32" "rf_used (ram_files w ! g)"
    then have k: "g \<noteq> f \<or> ?more" using len f(4) by (auto simp: tabs empty_ram_file_def split: if_splits)
    then obtain m where "m \<in> set (nodes v)" "n_ram_file m = Some g"
      using coveredD(1) [OF iv(4), of g] g keepf by auto
    then show "\<exists>m \<in> set (nodes w). n_ram_file m = Some g" using k n set_ns by auto
  next
    fix l assume l: "l < 8" "rl_used (ram_links w ! l)"
    then have nl: "n_path ?n \<noteq> Some (LinkPath l)" using gone by (auto simp: tabs)
    then obtain m where "m \<in> set (nodes v)" "n_path m = Some (LinkPath l)"
      using coveredD(2) [OF iv(4), of l] l keep by (auto simp: tabs)
    then show "\<exists>m \<in> set (nodes w). n_path m = Some (LinkPath l)" using nl set_ns by auto
  next
    fix d assume "d < 8" "rd_used (ram_directories w ! d)"
    then obtain m where m: "m \<in> set (nodes v)" "n_path m = Some (DirPath d)"
      using coveredD(3) [OF iv(4), of d] by (auto simp: tabs)
    then have "m \<noteq> ?n" using node_okD(4) [OF iv(2) [OF m(1)]] n by auto
    then show "\<exists>m \<in> set (nodes w). n_path m = Some (DirPath d)" using m set_ns by blast
  qed
  have "tables_ok (remove_node i u)" using nu(1,4) i by (auto simp: tables_ok_def remove_node_def)
  then have "tables_ok w" by (simp add: w tables_set_file)
  note r = remove_frame [OF v i ns rest this c]
  show "vfs_inv w" "a_names (vabs w) = (a_names (vabs v))(npath v ?n := None)" by (rule r; simp)+
  have "?more \<longleftrightarrow> (\<exists>x y. x \<noteq> npath v ?n \<and> a_names (vabs v) x = Some (y, Some f))"
    using npath_inj [OF v _ nth_mem [OF i]] by (auto simp: a_names_Some [OF iv(3)]) metis
  moreover have "a_data (vabs w) = (if ?more then a_data (vabs v) else (a_data (vabs v))(f := []))"
    using f(4) len by (auto simp: vabs_def tabs fun_eq_iff nth_list_update file_bytes_def empty_ram_file_def)
  ultimately show "a_data (vabs w) = (if \<exists>x y. x \<noteq> npath v ?n \<and> a_names (vabs v) x = Some (y, Some f)
      then a_data (vabs v) else (a_data (vabs v))(f := []))" by simp
qed


lemma delete_file_correct:
  assumes v: "vfs_inv v"
  shows "vop_correct (DeleteFile p) v (delete_ram_file p v)"
proof (cases "normalize_path p")
  case None
  then show ?thesis using v by (simp add: delete_ram_file_def)
next
  case (Some q)
  let ?P = "\<lambda>n. has_path v q n \<and> n_writable n \<and> n_ram_file n \<noteq> None"
  show ?thesis
  proof (cases "find_idx ?P (nodes v)")
    case None
    then show ?thesis using v Some by (simp add: delete_ram_file_def Let_def)
  next
    case fi: (Some i)
    let ?n = "nodes v ! i" and ?l = "find_idx (\<lambda>l. rl_used l \<and> path_equal (rl_path l) q) (ram_links v)"
    let ?u = "case ?l of Some l \<Rightarrow> set_ram_link l empty_ram_link v | None \<Rightarrow> v"
    have i: "i < length (nodes v)" and P: "?P ?n" using fi by (auto simp: find_idx_Some)
    then obtain f where f: "n_ram_file ?n = Some f" by auto
    have n: "?n \<in> set (nodes v)" using i by simp
    have q: "q = npath v ?n" using P has_path_npath [OF vfs_invD(2) [OF v n]] by simp
    have len: "length (ram_links v) = 8" by (rule tables_okD(4) [OF vfs_invD(1) [OF v]])
    have "n_path ?n = Some (LinkPath l)" if "?l = Some l" for l
      using that len q link_of_node [OF v n, of l] by (auto simp: find_idx_Some path_equal_def)
    moreover have "n_path ?n = Some (FilePath f)" if "?l = None" using file_ref [OF v n f] that unfolding q by blast
    ultimately have u: "(?u = v \<and> (\<forall>l. n_path ?n \<noteq> Some (LinkPath l))) \<or>
        (\<exists>l. n_path ?n = Some (LinkPath l) \<and> ?u = set_ram_link l empty_ram_link v)" by (cases ?l) auto
    note r = removed_file [OF v i f u refl, folded q]
    have nm: "a_names (vabs v) q = Some (MemoryFile, Some f)" using a_names_node [OF v n] ram_file_node(1) [OF v n f] f q by simp
    show ?thesis
    proof (cases "\<exists>h \<in> set (handles v). h_open h \<and> h_node h \<noteq> None \<and> n_ram_file (node_at v (the (h_node h))) = Some f")
      case True
      then show ?thesis using v Some fi f by (simp add: delete_ram_file_def Let_def)
    next
      case False
      let ?w = "if \<exists>m \<in> set (nodes (remove_node i ?u)). n_type m = MemoryFile \<and> n_ram_file m = Some f
        then remove_node i ?u else set_ram_file f empty_ram_file (remove_node i ?u)"
      have "delete_ram_file p v = (True, count_stat (\<lambda>s. s\<lparr>ram_file_deletes := ram_file_deletes s + 1\<rparr>) ?w)"
        using Some fi f False by (simp add: delete_ram_file_def Let_def)
      moreover have "a_effect (DeleteFile p) (vabs v) (vabs ?w)"
        unfolding a_effect.simps using Some nm r(2,3)
        by (intro exI [of _ q] exI [of _ f] conjI) simp_all
      ultimately show ?thesis using r(1) by (simp add: vop_correct_def del: a_effect.simps)
    qed
  qed
qed

text \<open>All of them together, and runs of them.\<close>

lemma do_vop_correct: "vfs_inv v \<Longrightarrow> vop_correct op v (do_vop env op v)"
  by (cases op) (simp_all add: create_file_correct create_directory_correct link_correct truncate_correct rename_correct
    delete_file_correct delete_directory_correct)

end
