(* ===== verification/VfsFiles.thy ===== *)
theory VfsFiles
  imports VfsTree
begin

text \<open>
  The files behind the names: registration at start-up, handles, reading and writing, and the theorems on the
  whole interface of the file system.
\<close>

section \<open>Registration\<close>

definition lit_node :: "Node \<Rightarrow> bool" where
  "lit_node n \<longleftrightarrow> (\<exists>p. n_path n = Some (Lit p) \<and> canon64 p) \<and> n_type n \<noteq> EmptyNode \<and> n_ram_file n = None"

lemma add_lit_node:
  assumes v: "vfs_inv v" and n: "lit_node n"
  shows "vfs_inv (snd (add_node n v))"
    and "vabs (snd (add_node n v)) = (if fst (add_node n v) then (vabs v)\<lparr>a_names := (a_names (vabs v))(npath v n \<mapsto> (n_type n, None))\<rparr> else vabs v)"
proof -
  have ok: "node_ok v n" using n by (auto simp: lit_node_def node_ok_def file_ok_def npath_def)
  have s: "same_nodes v v" using vfs_invD(2) [OF v] by (simp add: same_nodes_def)
  have r: "n_ram_file n = None" using n by (simp add: lit_node_def)
  have "vfs_inv (snd (add_node n v)) \<and>
    vabs (snd (add_node n v)) = (if fst (add_node n v) then (vabs v)\<lparr>a_names := (a_names (vabs v))(npath v n \<mapsto> (n_type n, None))\<rparr> else vabs v)"
  proof (cases "find_node v (Some (npath v n)) = None \<and> length (nodes v) < 512")
    case True
    have "covered (v\<lparr>nodes := nodes v @ [n]\<rparr>)" using vfs_invD(4) [OF v] by (auto simp: covered_def)
    from inv_add [OF v s ok conjunct1 [OF True] vfs_invD(1) [OF v] conjunct2 [OF True] this]
    show ?thesis using add_node_new [OF v s ok conjunct1 [OF True]] True r by simp
  next
    case False
    then have "add_node n v = (False, v)"
      using node_path_npath [OF ok] ok by (auto simp: add_node_def kMaxVfsNodes_def node_ok_def)
    then show ?thesis using v by simp
  qed
  then show "vfs_inv (snd (add_node n v))"
    and "vabs (snd (add_node n v)) = (if fst (add_node n v) then (vabs v)\<lparr>a_names := (a_names (vabs v))(npath v n \<mapsto> (n_type n, None))\<rparr> else vabs v)"
    by simp_all
qed

lemma vfs_inv_mounts [simp]: "vfs_inv (v\<lparr>mounts := x\<rparr>) = vfs_inv v" "vabs (v\<lparr>mounts := x\<rparr>) = vabs v"
proof -
  have t: "ref_text (v\<lparr>mounts := x\<rparr>) r = ref_text v r" for r by (cases r) simp_all
  then have np: "npath (v\<lparr>mounts := x\<rparr>) = npath v" by (simp add: npath_def fun_eq_iff)
  have "ref_ok (v\<lparr>mounts := x\<rparr>) n r = ref_ok v n r" for n r by (cases r) simp_all
  then have "node_ok (v\<lparr>mounts := x\<rparr>) n = node_ok v n" for n by (simp add: node_ok_def np file_ok_def)
  then show "vfs_inv (v\<lparr>mounts := x\<rparr>) = vfs_inv v" by (simp add: vfs_inv_def np tables_ok_def covered_def)
  show "vabs (v\<lparr>mounts := x\<rparr>) = vabs v" by (simp add: vabs_def np cong: if_cong)
qed

section \<open>Handles\<close>

lemma set_handle_frame [simp]:
  "vfs_inv v \<Longrightarrow> vfs_inv (set_handle k h v)" "vabs (set_handle k h v) = vabs v"
  by (simp_all add: set_handle_def tables_okD(1) [OF vfs_invD(1)])

lemma advance_frame [simp]: "vfs_inv v \<Longrightarrow> vfs_inv (advance k n v)" "vabs (advance k n v) = vabs v"
  by (simp_all add: advance_def)

text \<open>What a write does to the bytes of a file: \<open>bs\<close> is stored at \<open>off\<close>, and the file grows as far as it has to.\<close>

definition overwrite :: "nat \<Rightarrow> u8 list \<Rightarrow> u8 list \<Rightarrow> u8 list" where
  "overwrite off bs old = take off old @ bs @ drop (off + length bs) old"

lemma store_bytes_length: "off + length bs \<le> length d \<Longrightarrow> length (store_bytes off bs d) = length d"
  by (simp add: store_bytes_def)

definition written :: "u64 \<Rightarrow> u8 list \<Rightarrow> RamFile \<Rightarrow> RamFile" where
  "written off bs x = (let x = x\<lparr>rf_data := store_bytes (unat off) bs (rf_data x)\<rparr>; e = off + of_nat (length bs)
     in if rf_size x < e then x\<lparr>rf_size := e\<rparr> else x)"

lemma written_ok:
  assumes x: "ram_ok x" and bs: "unat off + length bs \<le> 4096"
  shows "ram_ok (written off bs x)" "rf_used (written off bs x) = rf_used x" "rf_path (written off bs x) = rf_path x"
    "unat (rf_size (written off bs x)) = max (unat (rf_size x)) (unat off + length bs)"
    "rf_used x \<Longrightarrow> unat off \<le> unat (rf_size x) \<Longrightarrow> file_bytes (written off bs x) = overwrite (unat off) bs (file_bytes x)"
proof -
  have l: "length bs < 2 ^ 64" "unat off + length bs < 2 ^ 64" using bs by simp_all
  have e: "unat (off + of_nat (length bs)) = unat off + length bs"
    using l by (simp add: unat_word_ariths unat_of_nat)
  show s: "unat (rf_size (written off bs x)) = max (unat (rf_size x)) (unat off + length bs)"
    by (simp add: written_def Let_def word_less_nat_alt e)
  have d: "rf_data (written off bs x) = store_bytes (unat off) bs (rf_data x)" by (simp add: written_def Let_def)
  show "ram_ok (written off bs x)"
    using x bs s d by (simp add: ram_ok_def store_bytes_length)
  show u: "rf_used (written off bs x) = rf_used x" "rf_path (written off bs x) = rf_path x" by (simp_all add: written_def Let_def)
  assume "rf_used x" "unat off \<le> unat (rf_size x)"
  then show "file_bytes (written off bs x) = overwrite (unat off) bs (file_bytes x)"
    using x bs s d u by (simp add: file_bytes_def overwrite_def store_bytes_def ram_ok_def take_drop max_def min_def) (cases bs; auto)
qed


text \<open>The number of bytes of a write that fit the file.\<close>

definition fits :: "u64 \<Rightarrow> u8 list \<Rightarrow> nat" where "fits off buf = min (length buf) (4096 - unat off)"

lemma fits_word:
  assumes b: "length buf < 2 ^ 64" and off: "off < 4096"
  shows "(if (of_nat (length buf) :: u64) < 4096 - off then of_nat (length buf) else 4096 - off) = of_nat (fits off buf)"
    and "unat (of_nat (fits off buf) :: u64) = fits off buf" "unat off + fits off buf \<le> 4096"
proof -
  have o: "unat off < 4096" using off by (simp add: word_less_nat_alt)
  have av: "unat (4096 - off) = 4096 - unat off" using off by (simp add: unat_sub)
  have len: "unat (of_nat (length buf) :: u64) = length buf" using b by (simp add: unat_of_nat)
  show u: "unat (of_nat (fits off buf) :: u64) = fits off buf" by (simp add: unat_of_nat fits_def)
  show "(if (of_nat (length buf) :: u64) < 4096 - off then of_nat (length buf) else 4096 - off) = of_nat (fits off buf)"
    unfolding word_unat_eq_iff u using o by (simp add: word_less_nat_alt av len fits_def)
  show "unat off + fits off buf \<le> 4096" using o by (simp add: fits_def)
qed

lemma write_ram_parts:
  assumes b: "length buf < 2 ^ 64" and off: "off = h_offset (handles v ! k)" "off < 4096"
    and r: "write_ram env k i f buf v = (n, w)"
  shows "n = of_nat (fits off buf)"
    and "ram_files w = (ram_files v)[f := written off (take (fits off buf) buf) (ram_files v ! f)]"
    and "handles w = (handles v)[k := (handles v ! k)\<lparr>h_offset := off + of_nat (fits off buf)\<rparr>]"
    and "nodes w = (nodes v)[i := (nodes v ! i)\<lparr>n_base := data_address env f,
      n_size := rf_size (written off (take (fits off buf) buf) (ram_files v ! f))\<rparr>]"
    and "ram_links w = ram_links v" "ram_directories w = ram_directories v" "mounts w = mounts v" "tty w = tty v" "next_handle_id w = next_handle_id v"
proof -
  note fw = fits_word [OF b off(2)]
  have lt: "min (length buf) (fits off buf) = fits off buf" by (simp add: fits_def)
  have no: "\<not> 4096 \<le> off" using off(2) by simp
  define u where "u = (if (of_nat (fits off buf) :: u64) < of_nat (length buf) then count_stat (\<lambda>s. s\<lparr>ram_write_clipped_bytes :=
    ram_write_clipped_bytes s + (of_nat (length buf) - of_nat (fits off buf))\<rparr>) v else v)"
  have u: "ram_files u = ram_files v" "handles u = handles v" "nodes u = nodes v" "ram_links u = ram_links v"
    "ram_directories u = ram_directories v" "mounts u = mounts v" "tty u = tty v" "next_handle_id u = next_handle_id v"
    by (simp_all add: u_def count_stat_def)
  note d = r [unfolded write_ram_def kMaxRamFileBytes_def off(1) [symmetric] Let_def fw(1,2) if_not_P [OF no], folded u_def]
  show "n = of_nat (fits off buf)" using d by simp
  show "ram_files w = (ram_files v)[f := written off (take (fits off buf) buf) (ram_files v ! f)]"
    using d by (auto simp: written_def Let_def set_handle_def count_stat_def lt u)
  show "handles w = (handles v)[k := (handles v ! k)\<lparr>h_offset := off + of_nat (fits off buf)\<rparr>]"
    using d by (auto simp: set_handle_def count_stat_def u)
  show "nodes w = (nodes v)[i := (nodes v ! i)\<lparr>n_base := data_address env f,
      n_size := rf_size (written off (take (fits off buf) buf) (ram_files v ! f))\<rparr>]"
    using d by (auto simp: written_def Let_def set_handle_def count_stat_def lt u)
  show "ram_links w = ram_links v" "ram_directories w = ram_directories v" "mounts w = mounts v" "tty w = tty v" "next_handle_id w = next_handle_id v"
    using d by (auto simp: set_handle_def count_stat_def set_ram_file_def u)
qed

lemma write_ram_correct:
  assumes v: "vfs_inv v" and i: "i < length (nodes v)" "n_ram_file (nodes v ! i) = Some f"
    and b: "length buf < 2 ^ 64" and off: "off = h_offset (handles v ! k)" "off < 4096"
    and r: "write_ram env k i f buf v = (n, w)"
  shows "vfs_inv w" "vabs w = (vabs v)\<lparr>a_data := (a_data (vabs v))(f := file_bytes (written off (take (fits off buf) buf) (ram_files v ! f)))\<rparr>"
proof -
  note p = write_ram_parts [OF b off r]
  let ?x = "written off (take (fits off buf) buf) (ram_files v ! f)"
  have f: "f < 32" using ram_file_node(4) [OF v nth_mem [OF i(1)] i(2)] .
  have "unat off + length (take (fits off buf) buf) \<le> 4096" using fits_word(3) [OF b off(2)] by simp
  note x = written_ok [OF tables_okD(6) [OF vfs_invD(1) [OF v] f] this]
  let ?u = "(set_ram_file f ?x v)\<lparr>nodes := nodes w\<rparr>"
  have len: "length (handles w) = 32" using tables_okD(1) [OF vfs_invD(1) [OF v]] by (simp add: p)
  have w: "w = ?u\<lparr>handles := handles w, vstats := vstats w\<rparr>" using p by (intro vfs.equality) (simp_all add: set_ram_file_def)
  have ns: "length (nodes w) = length (nodes v)" "j < length (nodes w) \<Longrightarrow> same_shape (nodes w ! j) (nodes v ! j)" for j
    using i by (auto simp: p same_shape_def nth_list_update)
  note c = content_frame [OF v f x(2,3,1) ns]
  show "vfs_inv w" by (subst w) (simp add: c len)
  show "vabs w = (vabs v)\<lparr>a_data := (a_data (vabs v))(f := file_bytes ?x)\<rparr>" by (subst w) (simp add: c)
qed


lemma open_frame: "vfs_inv v \<Longrightarrow> vfs_inv (snd (vfs_open env p v)) \<and> vabs (snd (vfs_open env p v)) = vabs v"
  by (simp add: vfs_open_def take_handle_id_def Let_def split: option.split)

lemma read_frame: "vfs_inv v \<Longrightarrow> vfs_inv (snd (read_handle env h ok sz v)) \<and> vabs (snd (read_handle env h ok sz v)) = vabs v"
  by (simp add: read_handle_def Let_def split: option.split prod.split)

lemma seek_frame: "vfs_inv v \<Longrightarrow> vfs_inv (snd (seek_handle env h off v)) \<and> vabs (snd (seek_handle env h off v)) = vabs v"
  by (simp add: seek_handle_def Let_def split: option.split)

lemma retain_frame: "vfs_inv v \<Longrightarrow> vfs_inv (snd (retain_handle h v)) \<and> vabs (snd (retain_handle h v)) = vabs v"
  by (simp add: retain_handle_def Let_def split: option.split)

lemma close_frame: "vfs_inv v \<Longrightarrow> vfs_inv (snd (vfs_close h v)) \<and> vabs (snd (vfs_close h v)) = vabs v"
  by (simp add: vfs_close_def Let_def split: option.split)

lemma mount_frame: "vfs_inv v \<Longrightarrow> vfs_inv (snd (register_mount p t s fl n b v)) \<and> vabs (snd (register_mount p t s fl n b v)) = vabs v"
  by (simp add: register_mount_def split: option.split)

lemma write_inv:
  assumes v: "vfs_inv v" and b: "length buf < 2 ^ 64"
  shows "vfs_inv (snd (write_handle env h ok buf v))"
proof (cases "handle_for v h")
  case (Some k)
  show ?thesis
  proof (cases "h_node (handles v ! k)")
    case (Some i)
    have ram: "vfs_inv (snd (write_ram env k i f buf v))" if "n_ram_file (node_at v i) = Some f" for f
    proof (cases "h_offset (handles v ! k) < 4096")
      case True
      have "i < length (nodes v)" using that by (rule_tac ccontr) (simp add: node_at_def empty_node_def)
      with that have "n_ram_file (nodes v ! i) = Some f" by (simp add: node_at_def)
      from write_ram_correct(1) [OF v \<open>i < _\<close> this b refl True] show ?thesis by (metis prod.collapse)
    next
      case False
      then show ?thesis using v by (simp add: write_ram_def kMaxRamFileBytes_def not_less)
    qed
    then show ?thesis
      using v \<open>handle_for v h = Some k\<close> Some by (auto simp: write_handle_def Let_def split: option.split prod.split)
  qed (use v Some in \<open>simp add: write_handle_def\<close>)
qed (use v in \<open>simp add: write_handle_def\<close>)

section \<open>The whole interface\<close>

datatype vcall = RegisterDirectory string bool | RegisterMemoryFile string u64 u64 | RegisterDiskFile string u64 u64
  | RegisterCharacterDevice string DeviceKind | RegisterVirtualFile string VirtualFileKind
  | RegisterMount cstr cstr cstr u32 u64 u64 | Change vop | Open cstr | Read u32 bool u64 | Write u32 bool "u8 list"
  | Seek u32 u64 | Retain u32 | Close u32

fun do_vcall :: "vfs_env \<Rightarrow> vcall \<Rightarrow> vfs \<Rightarrow> vfs" where
  "do_vcall env (RegisterDirectory p w) v = snd (register_directory (Some (Lit p)) w v)"
| "do_vcall env (RegisterMemoryFile p b n) v = snd (register_memory_file (Some (Lit p)) b n v)"
| "do_vcall env (RegisterDiskFile p b n) v = snd (register_disk_file (Some (Lit p)) b n v)"
| "do_vcall env (RegisterCharacterDevice p k) v = snd (register_character_device (Some (Lit p)) k v)"
| "do_vcall env (RegisterVirtualFile p k) v = snd (register_virtual_file (Some (Lit p)) k v)"
| "do_vcall env (RegisterMount p t s fl n b) v = snd (register_mount p t s fl n b v)"
| "do_vcall env (Change op) v = snd (do_vop env op v)"
| "do_vcall env (Open p) v = snd (vfs_open env p v)"
| "do_vcall env (Read h ok n) v = snd (read_handle env h ok n v)"
| "do_vcall env (Write h ok bs) v = snd (write_handle env h ok bs v)"
| "do_vcall env (Seek h off) v = snd (seek_handle env h off v)"
| "do_vcall env (Retain h) v = snd (retain_handle h v)"
| "do_vcall env (Close h) v = snd (vfs_close h v)"

text \<open>Nodes are registered under canonical names (they are constants of the kernel), and a buffer has fewer than
  $2^{64}$ bytes.\<close>

fun legal :: "vcall \<Rightarrow> bool" where
  "legal (RegisterDirectory p w) = canon64 p"
| "legal (RegisterMemoryFile p b n) = canon64 p"
| "legal (RegisterDiskFile p b n) = canon64 p"
| "legal (RegisterCharacterDevice p k) = canon64 p"
| "legal (RegisterVirtualFile p k) = canon64 p"
| "legal (Write h ok bs) = (length bs < 2 ^ 64)"
| "legal c = True"

definition empty_vfs :: "terminal \<Rightarrow> vfs" where
  "empty_vfs t = \<lparr>nodes = [], handles = replicate 32 empty_handle, ram_files = replicate 32 empty_ram_file,
     ram_directories = replicate 8 empty_ram_directory, ram_links = replicate 8 empty_ram_link, mounts = replicate 8 empty_mount,
     next_handle_id = 1, vstats = empty_vstats, tty = t\<rparr>"

lemma empty_vfs_inv: "vfs_inv (empty_vfs t)"
  by (simp add: vfs_inv_def tables_ok_def covered_def empty_vfs_def empty_ram_file_def ram_ok_def empty_ram_link_def empty_ram_directory_def)

lemma do_vcall_inv: "legal c \<Longrightarrow> vfs_inv v \<Longrightarrow> vfs_inv (do_vcall env c v)"
  using do_vop_correct [of v _ env]
  by (cases c) (simp_all add: register_directory_def register_memory_file_def register_disk_file_def register_character_device_def
    register_virtual_file_def add_lit_node(1) lit_node_def open_frame read_frame seek_frame retain_frame close_frame mount_frame
    write_inv vop_correct_def)

section \<open>The names form a tree\<close>

definition tree :: "afs \<Rightarrow> bool" where
  "tree a \<longleftrightarrow> is_dir a ''/'' \<and> (\<forall>p. a_names a p \<noteq> None \<longrightarrow> canon64 p) \<and>
     (\<forall>p. a_names a p \<noteq> None \<longrightarrow> p \<noteq> ''/'' \<longrightarrow> (\<exists>d. parent_path (Some p) = Some d \<and> is_dir a d))"

lemma root_render [simp]: "render [] = ''/''"
  by (simp add: render_def)

lemma parent_above: "canon64 p \<Longrightarrow> parent_path (Some p) = Some d \<Longrightarrow> canon64 d \<and> path_has_prefix_child p d \<and> p \<noteq> d \<and> p \<noteq> ''/''"
proof -
  assume p: "canon64 p" and d: "parent_path (Some p) = Some d"
  have "1 < length p"
    using d canon64_normalize [OF p] p by (auto simp: parent_path_def canon64_def split: if_splits)
  then obtain ns n where "p = render (ns @ [n])" "\<forall>m \<in> set (ns @ [n]). proper m" "d = render ns" "canon64 (render ns)"
    using parent_canon64 [OF p] d by (metis option.inject)
  then show ?thesis using prefix_child_render [of "ns @ [n]" ns] \<open>1 < length p\<close> by auto
qed

text \<open>A change that only adds a name below a directory, or only takes away a name with nothing below it.\<close>

lemma tree_add:
  assumes "tree a" "canon64 p" "parent_path (Some p) = Some d" "is_dir a d" "a_names a p = None" "a_names b = (a_names a)(p \<mapsto> x)"
  shows "tree b"
proof -
  have "is_dir b q" if "is_dir a q" for q using that assms(5,6) by (auto simp: is_dir_def)
  then show ?thesis using assms(1-4) unfolding tree_def assms(6) by (metis fun_upd_apply)
qed

lemma tree_remove:
  assumes "tree a" "p \<noteq> ''/''" "\<forall>q. a_names a q \<noteq> None \<longrightarrow> parent_path (Some q) \<noteq> Some p" "a_names b = (a_names a)(p := None)"
  shows "tree b"
proof -
  have "is_dir b q" if "is_dir a q" "q \<noteq> p" for q using that assms(4) by (simp add: is_dir_def)
  then show ?thesis using assms unfolding tree_def by (metis fun_upd_apply)
qed

lemma empty_dir_no_child: "tree a \<Longrightarrow> empty_dir a p \<Longrightarrow> a_names a q \<noteq> None \<Longrightarrow> parent_path (Some q) \<noteq> Some p"
  using parent_above unfolding tree_def empty_dir_def by blast

lemma file_no_child: "tree a \<Longrightarrow> a_names a p = Some (MemoryFile, f) \<Longrightarrow> a_names a q \<noteq> None \<Longrightarrow> parent_path (Some q) \<noteq> Some p"
  using parent_above unfolding tree_def is_dir_def by (metis NodeType.distinct(9) Pair_inject option.inject)


lemma below_root: "canon64 q \<Longrightarrow> q \<noteq> ''/'' \<Longrightarrow> path_has_prefix_child q ''/''"
  using prefix_child_render [of "names q" "[]"] canonical_names [of q] by (auto simp: canon64_def)

fun keeps_tree :: "vop \<Rightarrow> bool" where
  "keeps_tree (Rename p0 p) \<longleftrightarrow> (\<forall>q0 q. normalize_path p0 = Some q0 \<longrightarrow> normalize_path p = Some q \<longrightarrow> \<not> path_has_prefix_child q q0)"
| "keeps_tree _ \<longleftrightarrow> True"

lemma tree_rename:
  assumes a: "tree a" and q: "canon64 q" "a_names a q = None" "parent_path (Some q) = Some d" "is_dir a d"
    and q0: "(\<exists>f. a_names a q0 = Some (MemoryFile, Some f)) \<or> empty_dir a q0" "\<not> path_has_prefix_child q q0"
    and b: "a_names b = (a_names a)(q := a_names a q0, q0 := None)"
  shows "tree b"
proof -
  obtain x where x: "a_names a q0 = Some x" using q0(1) by (auto simp: empty_dir_def is_dir_def)
  let ?c = "a\<lparr>a_names := (a_names a)(q \<mapsto> x)\<rparr>"
  have c: "tree ?c" by (rule tree_add [OF a q(1,3,4,2)]) simp
  have "q \<noteq> ''/''" "path_has_prefix_child q d" using parent_above [OF q(1,3)] by simp_all
  then have "q0 \<noteq> ''/''" "d \<noteq> q0" using below_root [OF q(1)] q0(2) by auto
  moreover have "parent_path (Some p) \<noteq> Some q0" if "a_names ?c p \<noteq> None" for p
    using that q0(1) empty_dir_no_child [OF a, of q0 p] file_no_child [OF a, of q0 _ p] q(3) \<open>d \<noteq> q0\<close>
    by (cases "p = q") auto
  ultimately show ?thesis using b x by (intro tree_remove [OF c]) auto
qed

lemma tree_effect:
  assumes a: "tree a" and e: "a_effect op a b" and k: "keeps_tree op"
  shows "tree b"
proof (cases op)
  case (CreateFile p)
  then show ?thesis using e normalize_canon64 by (auto intro!: tree_add [OF a])
next
  case (CreateDir p)
  then show ?thesis using e normalize_canon64 by (auto intro!: tree_add [OF a])
next
  case (LinkFile p0 p)
  then obtain q d x where "normalize_path p = Some q" "parent_path (Some q) = Some d" "is_dir a d" "a_names a q = None"
    "a_names b = (a_names a)(q \<mapsto> x)" using e by auto
  then show ?thesis using tree_add [OF a] normalize_canon64 by blast
next
  case (Truncate p n)
  then show ?thesis using e a by (auto simp: tree_def is_dir_def)
next
  case (Rename p0 p)
  then obtain q0 q d where "normalize_path p0 = Some q0" "normalize_path p = Some q" "a_names a q = None" "parent_path (Some q) = Some d"
    "is_dir a d" "(\<exists>f. a_names a q0 = Some (MemoryFile, Some f)) \<or> empty_dir a q0" "a_names b = (a_names a)(q := a_names a q0, q0 := None)"
    using e by auto
  moreover from this have "\<not> path_has_prefix_child q q0" using k Rename by simp
  ultimately show ?thesis using normalize_canon64 by (blast intro: tree_rename [OF a])
next
  case (DeleteFile p)
  then obtain q f where "a_names a q = Some (MemoryFile, Some f)" "a_names b = (a_names a)(q := None)" using e by auto
  moreover from this a have "q \<noteq> ''/''" by (auto simp: tree_def is_dir_def)
  ultimately show ?thesis using file_no_child [OF a] by (intro tree_remove [OF a]) auto
next
  case (DeleteDir p)
  then obtain q where "1 < length q" "empty_dir a q" "a_names b = (a_names a)(q := None)" using e by auto
  moreover from this have "q \<noteq> ''/''" by auto
  ultimately show ?thesis using empty_dir_no_child [OF a] by (intro tree_remove [OF a]) auto
qed


section \<open>Reading back what was written\<close>

lemma handle_for_idx: "handle_for v h = Some k \<Longrightarrow> k < length (handles v) \<and> h_open (handles v ! k) \<and> h_id (handles v ! k) = h"
  by (auto simp: handle_for_def find_idx_Some split: if_splits)

lemma handle_for_frame:
  assumes "handles w = (handles v)[k := x]" "h_open x = h_open (handles v ! k)" "h_id x = h_id (handles v ! k)"
  shows "handle_for w h = handle_for v h"
proof -
  have "find_idx (\<lambda>y. h_open y \<and> h_id y = h) ((handles v)[k := x]) = find_idx (\<lambda>y. h_open y \<and> h_id y = h) (handles v)"
  proof (rule find_idx_cong)
    show "length ((handles v)[k := x]) = length (handles v)" by simp
    show "(h_open ((handles v)[k := x] ! j) \<and> h_id ((handles v)[k := x] ! j) = h) = (h_open (handles v ! j) \<and> h_id (handles v ! j) = h)"
      if "j < length ((handles v)[k := x])" for j
      using that assms by (cases "j = k") simp_all
  qed
  then show ?thesis using assms by (simp add: handle_for_def)
qed

text \<open>What a read at \<open>off\<close> returns is the part of the file there.\<close>

lemma memory_window_file:
  assumes v: "vfs_inv v" and n: "n \<in> set (nodes v)" "n_ram_file n = Some f"
  shows "memory_window env v n off sz = take (unat sz) (drop (unat off) (a_data (vabs v) f))"
proof -
  note f = ram_file_node [OF v n]
  let ?x = "ram_files v ! f"
  have x: "length (rf_data ?x) = 4096" "unat (rf_size ?x) \<le> 4096"
    using tables_okD(6) [OF vfs_invD(1) [OF v] f(4)] by (simp_all add: ram_ok_def)
  have sz: "node_size_for env v n = rf_size ?x" using n f by (simp add: node_size_for_def)
  have d: "a_data (vabs v) f = take (unat (rf_size ?x)) (rf_data ?x)" using f by (simp add: vabs_def file_bytes_def)
  show ?thesis
  proof (cases "rf_size ?x \<le> off")
    case True
    then show ?thesis using x by (simp add: memory_window_def sz d word_le_nat_alt)
  next
    case False
    then have "unat (rf_size ?x - off) = unat (rf_size ?x) - unat off" by (simp add: unat_sub)
    then show ?thesis
      using False n x by (simp add: memory_window_def sz d Let_def word_less_nat_alt drop_take min_def)
  qed
qed

lemma write_handle_ram:
  assumes "handle_for v h = Some k" "h_node (handles v ! k) = Some i" "n_ram_file (node_at v i) = Some f" "vfs_inv v" "buf \<noteq> []"
  shows "write_handle env h True buf v = write_ram env k i f buf v" "i < length (nodes v)" "node_at v i \<in> set (nodes v)"
proof -
  show i: "i < length (nodes v)" using assms(3) by (rule_tac ccontr) (simp add: node_at_def empty_node_def)
  then show n: "node_at v i \<in> set (nodes v)" by (simp add: node_at_def)
  show "write_handle env h True buf v = write_ram env k i f buf v"
    using assms ram_file_node [OF assms(4) n assms(3)] by (simp add: write_handle_def Let_def)
qed

lemma same_file_after:
  assumes "vfs_inv v" "vfs_inv w" "a_names (vabs w) = a_names (vabs v)" "a_names (vabs v) p = Some (t, Some f)" "normalize_path q = Some p"
  obtains i where "find_node w q = Some i" "nodes w ! i \<in> set (nodes w)" "n_ram_file (nodes w ! i) = Some f" "n_type (nodes w ! i) = MemoryFile"
proof -
  have c: "canon64 p" by (rule normalize_canon64 [OF assms(5)])
  obtain n where n: "n \<in> set (nodes w)" "npath w n = p" "n_ram_file n = Some f"
    using assms(3,4) a_names_Some [OF vfs_invD(3) [OF assms(2)]] by metis
  then obtain i where "i < length (nodes w)" "nodes w ! i = n" by (meson in_set_conv_nth)
  moreover from this have "find_node w (Some p) = Some i" using find_node_Some [OF assms(2) c] n by blast
  moreover have "find_node w q = find_node w (Some p)" using assms(5) canon64_normalize [OF c] by (simp add: find_node_def)
  ultimately show thesis using that n ram_file_node(1) [OF assms(2) n(1,3)] by simp
qed

lemma seek_read:
  assumes v: "vfs_inv v" and h: "handle_for v h = Some k" "h_node (handles v ! k) = Some i" "\<not> h_dynamic_virtual (handles v ! k)"
    and f: "n_ram_file (node_at v i) = Some f" and off: "unat off \<le> length (a_data (vabs v) f)" and n: "n \<noteq> 0"
    and r: "seek_handle env h off v = (ok, v2)" "read_handle env h True n v2 = (bs, v3)"
  shows "ok" "bs = take (unat n) (drop (unat off) (a_data (vabs v) f))" "handle_offset v3 h = off + of_nat (length bs)"
    "vfs_inv v3" "vabs v3 = vabs v"
proof -
  have i: "i < length (nodes v)" using f by (rule_tac ccontr) (simp add: node_at_def empty_node_def)
  then have ni: "node_at v i = nodes v ! i" "nodes v ! i \<in> set (nodes v)" "n_ram_file (nodes v ! i) = Some f"
    using f by (simp_all add: node_at_def)
  note ff = ram_file_node [OF v ni(2,3)]
  have "length (a_data (vabs v) f) = unat (rf_size (ram_files v ! f))"
    using ff tables_okD(6) [OF vfs_invD(1) [OF v] ff(4)] by (simp add: vabs_def file_bytes_def ram_ok_def)
  then have "\<not> node_size_for env v (nodes v ! i) < off" using off ni ff by (simp add: node_size_for_def word_less_nat_alt)
  then have r2: "ok \<and> v2 = set_handle k ((handles v ! k)\<lparr>h_offset := off\<rparr>) v"
    using r(1) h ni(1) by (simp add: seek_handle_def Let_def)
  then show ok by simp
  have v2: "vfs_inv v2" "vabs v2 = vabs v" "nodes v2 = nodes v" using r2 v by (simp_all add: set_handle_def tables_okD(1) [OF vfs_invD(1)])
  have hs2: "handles v2 = (handles v)[k := (handles v ! k)\<lparr>h_offset := off\<rparr>]" using r2 by (simp add: set_handle_def)
  have hf2: "handle_for v2 h = Some k" using handle_for_frame [OF hs2] h by simp
  have k: "k < length (handles v)" using handle_for_idx [OF h(1)] by simp
  have at2: "node_at v2 i = nodes v ! i" using i v2(3) by (simp add: node_at_def)
  have mw: "memory_window env v2 (nodes v ! i) off n = take (unat n) (drop (unat off) (a_data (vabs v) f))"
    using memory_window_file [OF v2(1), of "nodes v ! i" f] ni v2 by simp
  have r3: "bs = memory_window env v2 (nodes v ! i) off n \<and> v3 = advance k (length bs) v2"
    using r(2) hf2 h hs2 k n ni ff(1) at2 by (auto simp: read_handle_def Let_def)
  then show "bs = take (unat n) (drop (unat off) (a_data (vabs v) f))" "vfs_inv v3" "vabs v3 = vabs v" using mw v2 by simp_all
  have hs3: "handles v3 = (handles v2)[k := (handles v2 ! k)\<lparr>h_offset := h_offset (handles v2 ! k) + of_nat (length bs)\<rparr>]"
    using r3 by (simp add: advance_def set_handle_def)
  have "handle_for v3 h = Some k" using handle_for_frame [OF hs3] hf2 by simp
  then show "handle_offset v3 h = off + of_nat (length bs)" using hs3 hs2 k by (simp add: handle_offset_def)
qed

lemma write_file:
  assumes v: "vfs_inv v" and h: "handle_for v h = Some k" "h_node (handles v ! k) = Some i"
    and f: "n_ram_file (node_at v i) = Some f"
    and off: "off = h_offset (handles v ! k)" "unat off \<le> length (a_data (vabs v) f)"
    and buf: "buf \<noteq> []" "unat off + length buf \<le> 4096" and r: "write_handle env h True buf v = (n, w)"
  shows "n = of_nat (length buf)" "unat n = length buf" "vfs_inv w"
    "vabs w = (vabs v)\<lparr>a_data := (a_data (vabs v))(f := overwrite (unat off) buf (a_data (vabs v) f))\<rparr>"
    "handle_for w h = Some k" "h_node (handles w ! k) = Some i" "h_dynamic_virtual (handles w ! k) = h_dynamic_virtual (handles v ! k)"
    "n_ram_file (node_at w i) = Some f"
proof -
  note w = write_handle_ram [OF h(1,2) f v buf(1)]
  have fi: "n_ram_file (nodes v ! i) = Some f" using f w(2) by (simp add: node_at_def)
  note ff = ram_file_node [OF v w(3) f]
  have "0 < length buf" using buf(1) by simp
  then have "unat off < 4096" using buf(2) by linarith
  then have o: "off < 4096" by (simp add: word_less_nat_alt)
  have b: "length buf < 2 ^ 64" using buf(2) by simp
  have fit: "fits off buf = length buf" using buf(2) by (simp add: fits_def)
  have r1: "write_ram env k i f buf v = (n, w)" using r w(1) by simp
  note p = write_ram_parts [OF b off(1) o r1, unfolded fit] and c = write_ram_correct [OF v w(2) fi b off(1) o r1, unfolded fit]
  have bu: "unat off + length (take (length buf) buf) \<le> 4096" using buf(2) by simp
  note x = written_ok [OF tables_okD(6) [OF vfs_invD(1) [OF v] ff(4)] bu]
  have "length (a_data (vabs v) f) = unat (rf_size (ram_files v ! f))"
    using ff tables_okD(6) [OF vfs_invD(1) [OF v] ff(4)] by (simp add: vabs_def file_bytes_def ram_ok_def)
  then show "vabs w = (vabs v)\<lparr>a_data := (a_data (vabs v))(f := overwrite (unat off) buf (a_data (vabs v) f))\<rparr>"
    using c(2) x(5) [OF ff(5)] off(2) ff by (simp add: vabs_def)
  show n: "n = of_nat (length buf)" by (rule p(1))
  then show "unat n = length buf" using b by (simp add: unat_of_nat)
  show "vfs_inv w" by (rule c(1))
  have k: "k < length (handles v)" using handle_for_idx [OF h(1)] by simp
  show "handle_for w h = Some k" using handle_for_frame [OF p(3)] h(1) by simp
  show "h_node (handles w ! k) = Some i" "h_dynamic_virtual (handles w ! k) = h_dynamic_virtual (handles v ! k)"
    using p(3) k h by simp_all
  show "n_ram_file (node_at w i) = Some f" using p(4) w(2) fi by (simp add: node_at_def)
qed

text \<open>C17. What is written to a file in memory is what is read back. A write of bytes that fit the 4096 bytes of
  a file, at an offset inside it, takes all of them; seeking back and reading returns them and leaves the
  handle behind them; no name changes and of the contents of all files only this one changes, by the bytes
  written; and every other name of the file, in particular every link, reads the same bytes.\<close>

theorem write_read_roundtrip:
  assumes "vfs_inv v" "handle_for v h = Some k" "h_node (handles v ! k) = Some i" "\<not> h_dynamic_virtual (handles v ! k)"
    and "n_ram_file (node_at v i) = Some f" "off = h_offset (handles v ! k)" "unat off \<le> length (a_data (vabs v) f)"
    and "buf \<noteq> []" "unat off + length buf \<le> 4096"
    and "write_handle env h True buf v = (n, v1)" "seek_handle env h off v1 = (ok, v2)" "read_handle env h True n v2 = (bs, v3)"
    and "normalize_path p = Some q" "a_names (vabs v) q = Some (t, Some f)" "render_dynamic_proc_file env q kVirtualFileScratchBytes = []"
  shows "unat n = length buf \<and> ok \<and> bs = buf \<and> handle_offset v3 h = off + n \<and>
    vabs v3 = (vabs v)\<lparr>a_data := (a_data (vabs v))(f := overwrite (unat off) buf (a_data (vabs v) f))\<rparr> \<and>
    vfs_read env p off True n v3 = buf"
proof -
  note w = write_file [OF assms(1-3,5-10)]
  have len: "unat off \<le> length (a_data (vabs v1) f)" using assms(7) w(4) by (simp add: overwrite_def)
  have n0: "n \<noteq> 0" using w(2) assms(8) by auto
  have "\<not> h_dynamic_virtual (handles v1 ! k)" using w(7) assms(4) by simp
  note s = seek_read [OF w(3,5,6) this w(8) len n0 assms(11,12)]
  have bs: "bs = buf" using s(2) w(2,4) assms(7) by (simp add: overwrite_def)
  have names: "a_names (vabs v3) = a_names (vabs v)" using s(5) w(4) by simp
  obtain j where j: "find_node v3 p = Some j" "nodes v3 ! j \<in> set (nodes v3)" "n_ram_file (nodes v3 ! j) = Some f" "n_type (nodes v3 ! j) = MemoryFile"
    by (rule same_file_after [OF assms(1) s(4) names assms(14,13)])
  have "vfs_read env p off True n v3 = take (unat n) (drop (unat off) (a_data (vabs v3) f))"
    using memory_window_file [OF s(4) j(2,3)] j n0 assms(13,15) by (simp add: vfs_read_def Let_def)
  then have "vfs_read env p off True n v3 = buf" using s(2,5) bs by simp
  then show ?thesis using s bs w(1,2,4) by simp
qed


text \<open>A small file system for the examples: a root with a directory \<open>/d\<close> and a file \<open>/f\<close>, which is open.\<close>

definition demo_env :: vfs_env where
  "demo_env = \<lparr>render_virtual_file = \<lambda>_ _. [], render_dynamic_proc_file = \<lambda>_ _. [], phys_byte = \<lambda>_. 0, data_address = of_nat\<rparr>"

definition demo_root :: Node where
  "demo_root = \<lparr>n_path = Some (Lit ''/''), n_type = Directory, n_base = 0, n_size = 0, n_writable = True,
     n_disk_backed = False, n_ram_file = None, n_device_kind = NoDevice, n_virtual_kind = NoVirtual\<rparr>"

definition demo_vfs :: vfs where
  "demo_vfs = (empty_vfs initial_terminal)\<lparr>nodes := [demo_root, dir_node 0, ram_node (FilePath 0) 0 0 0],
     ram_files := (replicate 32 empty_ram_file)[0 := \<lparr>rf_used = True, rf_path = ''/f'', rf_data = replicate 4096 0, rf_size = 0\<rparr>],
     ram_directories := (replicate 8 empty_ram_directory)[0 := \<lparr>rd_used = True, rd_path = ''/d''\<rparr>],
     handles := (replicate 32 empty_handle)[0 := \<lparr>h_id = 1, h_node = Some 2, h_offset = 0, h_ref_count = 1, h_open = True,
       h_dynamic_virtual = False, h_path = ''/f''\<rparr>]\<rparr>"

lemma demo_paths:
  "normalize_path (Some ''/'') = Some ''/''" "normalize_path (Some ''/d'') = Some ''/d''" "normalize_path (Some ''/f'') = Some ''/f''"
  "normalize_path (Some ''/d/e'') = Some ''/d/e''"
  "copy_path_checked (Some ''/d'') = Some ''/d''" "copy_path_checked (Some ''/f'') = Some ''/f''" "copy_path_checked (Some ''/d/e'') = Some ''/d/e''"
  "parent_path (Some ''/d'') = Some ''/''" "parent_path (Some ''/f'') = Some ''/''" "parent_path (Some ''/d/e'') = Some ''/d''"
  by code_simp+

lemma demo_canon: "canon64 ''/''" "canon64 ''/d''" "canon64 ''/f''" "canon64 ''/d/e''"
  using demo_paths normalize_canon64 by blast+

lemma demo_fields:
  "nodes demo_vfs = [demo_root, dir_node 0, ram_node (FilePath 0) 0 0 0]"
  "npath demo_vfs demo_root = ''/''" "npath demo_vfs (dir_node 0) = ''/d''" "npath demo_vfs (ram_node (FilePath 0) 0 0 0) = ''/f''"
  by (simp_all add: demo_vfs_def npath_def demo_root_def dir_node_def ram_node_def)

lemma demo_vfs_inv: "vfs_inv demo_vfs"
proof -
  have "tables_ok demo_vfs"
    by (auto simp: tables_ok_def demo_vfs_def empty_vfs_def ram_ok_def empty_ram_file_def dest!: set_update_subset_insert [THEN subsetD])
  moreover have "\<forall>n \<in> set (nodes demo_vfs). node_ok demo_vfs n"
    using demo_canon by (simp add: demo_fields node_ok_def file_ok_def)
      (simp add: demo_root_def dir_node_def ram_node_def demo_vfs_def)
  moreover have "covered demo_vfs"
    by (auto simp: covered_def demo_fields demo_root_def dir_node_def ram_node_def)
      (auto simp: demo_vfs_def empty_vfs_def nth_list_update empty_ram_file_def empty_ram_link_def empty_ram_directory_def split: if_splits)
  ultimately show ?thesis by (simp add: vfs_inv_def demo_fields)
qed

lemma demo_names:
  "a_names (vabs demo_vfs) ''/'' = Some (Directory, None)" "a_names (vabs demo_vfs) ''/d'' = Some (Directory, None)"
  "a_names (vabs demo_vfs) ''/f'' = Some (MemoryFile, Some 0)" "a_data (vabs demo_vfs) 0 = []"
  by (simp_all add: vabs_def demo_fields)
    (simp_all add: demo_root_def dir_node_def ram_node_def demo_vfs_def file_bytes_def)

theorem write_read_roundtrip_witness:
  "let (n, v1) = write_handle demo_env 1 True [104, 105] demo_vfs; (ok, v2) = seek_handle demo_env 1 0 v1;
       (bs, v3) = read_handle demo_env 1 True n v2
   in bs = [104, 105] \<and> vfs_read demo_env (Some ''/f'') 0 True n v3 = [104, 105]"
proof -
  have h: "handle_for demo_vfs 1 = Some 0" "h_node (handles demo_vfs ! 0) = Some 2" "\<not> h_dynamic_virtual (handles demo_vfs ! 0)"
    "n_ram_file (node_at demo_vfs 2) = Some 0" "0 = h_offset (handles demo_vfs ! 0)"
    by (simp_all add: handle_for_def demo_vfs_def find_idx_Some node_at_def ram_node_def)
  show ?thesis
    using write_read_roundtrip [OF demo_vfs_inv h, of "[104, 105]" demo_env _ _ _ _ _ _ "Some ''/f''" "''/f''"] demo_paths(3) demo_names
    by (simp add: demo_env_def split: prod.split)
qed

section \<open>When an operation is carried out\<close>

text \<open>A new name: canonical, not in use, below an existing directory.\<close>

definition new_name :: "afs \<Rightarrow> cstr \<Rightarrow> bool" where
  "new_name a p \<longleftrightarrow> (\<exists>q d. normalize_path p = Some q \<and> a_names a q = None \<and> parent_path (Some q) = Some d \<and> is_dir a d)"

fun accepts :: "vop \<Rightarrow> vfs \<Rightarrow> bool" where
  "accepts (CreateFile p) v \<longleftrightarrow> new_name (vabs v) p \<and> (\<exists>x \<in> set (ram_files v). \<not> rf_used x) \<and> length (nodes v) < 512"
| "accepts (CreateDir p) v \<longleftrightarrow> new_name (vabs v) p \<and> (\<exists>x \<in> set (ram_directories v). \<not> rd_used x) \<and> length (nodes v) < 512"
| "accepts (LinkFile p0 p) v \<longleftrightarrow> new_name (vabs v) p \<and> (\<exists>q0 f. normalize_path p0 = Some q0 \<and> a_names (vabs v) q0 = Some (MemoryFile, Some f)) \<and>
     (\<exists>x \<in> set (ram_links v). \<not> rl_used x) \<and> length (nodes v) < 512"
| "accepts (Truncate p n) v \<longleftrightarrow> (\<exists>q f. normalize_path p = Some q \<and> a_names (vabs v) q = Some (MemoryFile, Some f)) \<and> n \<le> 4096"
| "accepts (Rename p0 p) v \<longleftrightarrow> new_name (vabs v) p \<and> (\<exists>q0. normalize_path p0 = Some q0 \<and>
     ((\<exists>f. a_names (vabs v) q0 = Some (MemoryFile, Some f)) \<or>
      (empty_dir (vabs v) q0 \<and> (\<exists>x \<in> set (ram_directories v). rd_used x \<and> rd_path x = q0))))"
| "accepts (DeleteFile p) v \<longleftrightarrow> (\<exists>q f. normalize_path p = Some q \<and> a_names (vabs v) q = Some (MemoryFile, Some f) \<and>
     \<not> (\<exists>h \<in> set (handles v). h_open h \<and> h_node h \<noteq> None \<and> n_ram_file (node_at v (the (h_node h))) = Some f))"
| "accepts (DeleteDir p) v \<longleftrightarrow> (\<exists>q. normalize_path p = Some q \<and> 1 < length q \<and> empty_dir (vabs v) q \<and>
     (\<exists>n \<in> set (nodes v). npath v n = q \<and> n_writable n))"

lemma checked_iff: "copy_path_checked p = Some q \<longleftrightarrow> normalize_path p = Some q \<and> 1 < length q"
  by (auto simp: copy_path_checked_def split: option.splits)

lemma parent_long: "canon64 q \<Longrightarrow> parent_path (Some q) = Some d \<Longrightarrow> 1 < length q"
  using canon64_normalize [of q] by (auto simp: parent_path_def canon64_def split: if_splits)

lemma new_name_iff:
  assumes v: "vfs_inv v"
  shows "new_name (vabs v) p \<longleftrightarrow> (\<exists>q d. copy_path_checked p = Some q \<and> find_node v (Some q) = None \<and> parent_path (Some q) = Some d \<and> dir_exists v (Some d))"
proof
  assume "new_name (vabs v) p"
  then obtain q d where q: "normalize_path p = Some q" "a_names (vabs v) q = None" "parent_path (Some q) = Some d" "is_dir (vabs v) d"
    by (auto simp: new_name_def)
  note c = normalize_canon64 [OF q(1)]
  have "canon64 d" using parent_above [OF c q(3)] by simp
  then show "\<exists>q d. copy_path_checked p = Some q \<and> find_node v (Some q) = None \<and> parent_path (Some q) = Some d \<and> dir_exists v (Some d)"
    using q c parent_long [OF c q(3)] find_node_None [of v q] vfs_invD(2) [OF v] dir_exists_iff [OF v] is_dir_iff [OF v]
    by (auto simp: checked_iff a_names_None)
next
  assume "\<exists>q d. copy_path_checked p = Some q \<and> find_node v (Some q) = None \<and> parent_path (Some q) = Some d \<and> dir_exists v (Some d)"
  then obtain q d where q: "copy_path_checked p = Some q" "find_node v (Some q) = None" "parent_path (Some q) = Some d" "dir_exists v (Some d)"
    by blast
  note c = checked_canon64 [OF q(1)]
  have "canon64 d" using parent_above q(3) c by blast
  then show "new_name (vabs v) p"
    using new_name_facts [OF v conjunct1 [OF c] q(2) _ q(4)] c q(3) by (auto simp: new_name_def)
qed

text \<open>The node a new entry gets is added when there is room in the table.\<close>

lemma add_fresh:
  assumes v: "vfs_inv v" and q: "canon64 q" "find_node v (Some q) = None" and w: "same_nodes v w" "node_ok w n" "npath w n = q"
  shows "fst (add_node n w) \<longleftrightarrow> length (nodes v) < 512"
  using add_node_new [OF v w(1,2)] q w(3) by simp

lemma some_index: "(\<exists>x \<in> set xs. P x) \<longleftrightarrow> find_idx P xs \<noteq> None"
  by (auto simp: find_idx_None)

lemma accepts_create_file:
  assumes v: "vfs_inv v"
  shows "fst (create_ram_file env p v) \<longleftrightarrow> accepts (CreateFile p) v"
proof (cases "new_name (vabs v) p \<and> find_idx (\<lambda>f. \<not> rf_used f) (ram_files v) \<noteq> None")
  case False
  then show ?thesis
    using new_name_iff [OF v, of p] unfolding accepts.simps some_index
    by (auto simp: create_ram_file_def Let_def split: option.split)
next
  case True
  then obtain q d f where q: "copy_path_checked p = Some q" "find_node v (Some q) = None" "parent_path (Some q) = Some d" "dir_exists v (Some d)"
    and fi: "find_idx (\<lambda>f. \<not> rf_used f) (ram_files v) = Some f"
    using new_name_iff [OF v] by blast
  have len: "length (ram_files v) = 32" by (rule tables_okD(2) [OF vfs_invD(1) [OF v]])
  have f: "f < 32" "\<not> rf_used (ram_files v ! f)" using fi len by (auto simp: find_idx_Some)
  let ?w = "set_ram_file f \<lparr>rf_used = True, rf_path = q, rf_data = replicate 4096 0, rf_size = 0\<rparr> v" and ?n = "ram_node (FilePath f) (data_address env f) 0 f"
  have np: "npath ?w ?n = q" using len f by (simp add: npath_def ram_node_def)
  have "fst (add_node ?n ?w) \<longleftrightarrow> length (nodes v) < 512"
  proof (rule add_fresh [OF v _ q(2) _ _ np])
    show "canon64 q" using checked_canon64 [OF q(1)] by simp
    show "same_nodes v ?w" using unused_file_frame [OF v f] by (simp add: same_nodes_def)
    show "node_ok ?w ?n" using np checked_canon64 [OF q(1)] len f by (simp add: node_ok_def file_ok_def ram_node_def)
  qed
  then show ?thesis
    using True q fi checked_again [OF q(1)] unfolding accepts.simps some_index
    by (auto simp: create_ram_file_def Let_def split: prod.split)
qed

lemma accepts_create_directory:
  assumes v: "vfs_inv v"
  shows "fst (create_ram_directory p v) \<longleftrightarrow> accepts (CreateDir p) v"
proof (cases "new_name (vabs v) p \<and> find_idx (\<lambda>d. \<not> rd_used d) (ram_directories v) \<noteq> None")
  case False
  then show ?thesis
    using new_name_iff [OF v, of p] unfolding accepts.simps some_index
    by (auto simp: create_ram_directory_def Let_def split: option.split)
next
  case True
  then obtain q e d where q: "copy_path_checked p = Some q" "find_node v (Some q) = None" "parent_path (Some q) = Some e" "dir_exists v (Some e)"
    and fi: "find_idx (\<lambda>d. \<not> rd_used d) (ram_directories v) = Some d"
    using new_name_iff [OF v] by blast
  have len: "length (ram_directories v) = 8" by (rule tables_okD(3) [OF vfs_invD(1) [OF v]])
  have d: "d < 8" "\<not> rd_used (ram_directories v ! d)" using fi len by (auto simp: find_idx_Some)
  let ?w = "set_ram_directory d \<lparr>rd_used = True, rd_path = q\<rparr> v"
  have np: "npath ?w (dir_node d) = q" using len d by (simp add: npath_def dir_node_def)
  have "fst (add_node (dir_node d) ?w) \<longleftrightarrow> length (nodes v) < 512"
  proof (rule add_fresh [OF v _ q(2) _ _ np])
    show "canon64 q" using checked_canon64 [OF q(1)] by simp
    show "same_nodes v ?w" using unused_directory_frame [OF v d] by (simp add: same_nodes_def)
    show "node_ok ?w (dir_node d)" using np checked_canon64 [OF q(1)] len d by (simp add: node_ok_def file_ok_def dir_node_def)
  qed
  then show ?thesis
    using True q fi checked_again [OF q(1)] unfolding accepts.simps some_index
    by (auto simp: create_ram_directory_def dir_node_def Let_def split: prod.split)
qed

lemma file_named_iff:
  assumes "vfs_inv v" "normalize_path p = Some q"
  shows "(\<exists>q0 f. normalize_path p = Some q0 \<and> a_names (vabs v) q0 = Some (MemoryFile, Some f)) \<longleftrightarrow> ram_target v (Some q) \<noteq> None"
  using ram_target_iff [OF assms(1) normalize_canon64 [OF assms(2)]] assms(2) by auto

lemma accepts_link:
  assumes v: "vfs_inv v"
  shows "fst (link_ram_file env p0 p v) \<longleftrightarrow> accepts (LinkFile p0 p) v"
proof (cases "new_name (vabs v) p \<and> (\<exists>q0. normalize_path p0 = Some q0 \<and> ram_target v (Some q0) \<noteq> None) \<and> find_idx (\<lambda>l. \<not> rl_used l) (ram_links v) \<noteq> None")
  case False
  then show ?thesis
    using new_name_iff [OF v, of p] file_named_iff [OF v, of p0] unfolding accepts.simps some_index
    by (auto simp: link_ram_file_def Let_def split: option.split)
next
  case True
  then obtain q0 q d f l where q: "copy_path_checked p = Some q" "find_node v (Some q) = None" "parent_path (Some q) = Some d" "dir_exists v (Some d)"
    and fi: "find_idx (\<lambda>l. \<not> rl_used l) (ram_links v) = Some l" and q0: "normalize_path p0 = Some q0" and tg: "ram_target v (Some q0) = Some f"
    using new_name_iff [OF v] by blast
  have len: "length (ram_links v) = 8" by (rule tables_okD(4) [OF vfs_invD(1) [OF v]])
  have l: "l < 8" "\<not> rl_used (ram_links v ! l)" using fi len by (auto simp: find_idx_Some)
  have nm: "a_names (vabs v) q0 = Some (MemoryFile, Some f)" using tg ram_target_iff [OF v normalize_canon64 [OF q0]] by simp
  then obtain m where "m \<in> set (nodes v)" "n_ram_file m = Some f" using a_names_Some [OF vfs_invD(3) [OF v]] by blast
  note f = ram_file_node [OF v this]
  have cp: "copy_path (Some q) = q" using checked_canon64 [OF q(1)] by (simp add: copy_path_canon64)
  let ?w = "set_ram_link l \<lparr>rl_used = True, rl_path = q, rl_target = Some f\<rparr> v"
  let ?n = "ram_node (LinkPath l) (data_address env f) (rf_size (ram_files v ! f)) f"
  have np: "npath ?w ?n = q" using len l by (simp add: npath_def ram_node_def)
  have "fst (add_node ?n ?w) \<longleftrightarrow> length (nodes v) < 512"
  proof (rule add_fresh [OF v _ q(2) _ _ np])
    show "canon64 q" using checked_canon64 [OF q(1)] by simp
    show "same_nodes v ?w" using unused_link_frame [OF v l] by (simp add: same_nodes_def)
    show "node_ok ?w ?n" using np checked_canon64 [OF q(1)] len l f by (simp add: node_ok_def file_ok_def ram_node_def)
  qed
  then show ?thesis
    using True q fi q0 tg nm cp unfolding accepts.simps some_index
    by (auto simp: link_ram_file_def Let_def split: prod.split)
qed

lemma accepts_truncate:
  assumes v: "vfs_inv v"
  shows "fst (truncate_ram_file env p n v) \<longleftrightarrow> accepts (Truncate p n) v"
  using file_named_iff [OF v, of p] by (auto simp: truncate_ram_file_def kMaxRamFileBytes_def Let_def not_less split: option.split)

lemma delete_directory_iff:
  "normalize_path p = Some q \<Longrightarrow> fst (delete_ram_directory p v) \<longleftrightarrow>
    1 < length q \<and> find_idx (\<lambda>n. has_path v q n \<and> n_type n = Directory \<and> n_writable n) (nodes v) \<noteq> None \<and>
    \<not> (\<exists>n \<in> set (nodes v). node_below v q n)"
  by (auto simp: delete_ram_directory_def Let_def split: option.split)

lemma accepts_delete_directory:
  assumes v: "vfs_inv v"
  shows "fst (delete_ram_directory p v) \<longleftrightarrow> accepts (DeleteDir p) v"
proof (cases "normalize_path p")
  case (Some q)
  let ?P = "\<lambda>n. has_path v q n \<and> n_type n = Directory \<and> n_writable n"
  have "(empty_dir (vabs v) q \<and> (\<exists>n \<in> set (nodes v). npath v n = q \<and> n_writable n)) \<longleftrightarrow>
      (\<exists>n \<in> set (nodes v). ?P n) \<and> \<not> (\<exists>n \<in> set (nodes v). node_below v q n)"
  proof (cases "\<exists>n \<in> set (nodes v). npath v n = q \<and> n_type n = Directory")
    case True
    then obtain n where n: "n \<in> set (nodes v)" "npath v n = q" "n_type n = Directory" by blast
    have "m = n" if "m \<in> set (nodes v)" "npath v m = q" for m using npath_inj [OF v that(1) n(1)] that(2) n(2) by simp
    then show ?thesis using empty_dir_iff [OF v n(1,3)] n has_path_npath [OF vfs_invD(2) [OF v]] by blast
  next
    case False
    then show ?thesis using has_path_npath [OF vfs_invD(2) [OF v]] by (simp add: empty_dir_def is_dir_iff [OF v]) blast
  qed
  moreover note delete_directory_iff [OF Some, of v]
  moreover have "find_idx ?P (nodes v) \<noteq> None \<longleftrightarrow> (\<exists>n \<in> set (nodes v). ?P n)" by (rule some_index [symmetric])
  ultimately show ?thesis using Some by (simp only: accepts.simps option.inject ex_simps simp_thms)
qed (simp add: delete_ram_directory_def)


lemma accepts_delete_file:
  assumes v: "vfs_inv v"
  shows "fst (delete_ram_file p v) \<longleftrightarrow> accepts (DeleteFile p) v"
proof (cases "normalize_path p")
  case (Some q)
  let ?P = "\<lambda>n. has_path v q n \<and> n_writable n \<and> n_ram_file n \<noteq> None"
  show ?thesis
  proof (cases "find_idx ?P (nodes v)")
    case None
    then have "\<forall>n \<in> set (nodes v). npath v n = q \<longrightarrow> n_ram_file n = None"
      using has_path_npath [OF vfs_invD(2) [OF v]] ram_file_node(2) [OF v] by (fastforce simp: find_idx_None)
    then have "a_names (vabs v) q \<noteq> Some (MemoryFile, Some f)" for f by (auto simp: a_names_Some [OF vfs_invD(3) [OF v]])
    then show ?thesis using None Some by (simp add: delete_ram_file_def Let_def)
  next
    case fi: (Some i)
    then have i: "nodes v ! i \<in> set (nodes v)" "npath v (nodes v ! i) = q" "n_ram_file (nodes v ! i) \<noteq> None"
      using has_path_npath [OF vfs_invD(2) [OF v]] nth_mem by (auto simp: find_idx_Some)
    then obtain f where f: "n_ram_file (nodes v ! i) = Some f" by auto
    have "a_names (vabs v) q = Some (MemoryFile, Some f)" using a_names_node [OF v i(1)] i(2) f ram_file_node(1) [OF v i(1) f] by simp
    then show ?thesis using fi Some f by (simp add: delete_ram_file_def Let_def)
  qed
qed (simp add: delete_ram_file_def)

lemma rename_scan_only:
  "\<forall>j \<in> set js. j \<noteq> i \<longrightarrow> rename_at old new j v = None \<Longrightarrow> i \<in> set js \<Longrightarrow> rename_scan old new js v = rename_at old new i v"
proof (induction js)
  case (Cons j js)
  show ?case
  proof (cases "i \<in> set js")
    case True
    then show ?thesis using Cons by (cases "j = i") (auto split: option.split)
  next
    case False
    then have "j = i" using Cons.prems by auto
    have "rename_scan old new js v = None" using Cons.prems False by (induction js) auto
    then show ?thesis using \<open>j = i\<close> by (simp split: option.split)
  qed
qed simp

lemma rename_scan_none: "\<forall>j \<in> set js. rename_at old new j v = None \<Longrightarrow> rename_scan old new js v = None"
  by (induction js) auto

lemma rename_at_accepts:
  assumes v: "vfs_inv v" and i: "i < length (nodes v)" and old: "old = npath v (nodes v ! i)"
  shows "(\<exists>w. rename_at old new i v = Some (True, w)) \<longleftrightarrow> (\<exists>f. a_names (vabs v) old = Some (MemoryFile, Some f)) \<or>
      (empty_dir (vabs v) old \<and> (\<exists>x \<in> set (ram_directories v). rd_used x \<and> rd_path x = old))"
proof -
  let ?n = "nodes v ! i"
  have n: "?n \<in> set (nodes v)" using i by simp
  have hp: "has_path v old ?n" using has_path_npath [OF vfs_invD(2) [OF v n]] old by simp
  have nm: "a_names (vabs v) old = Some (n_type ?n, n_ram_file ?n)" using a_names_node [OF v n] old by simp
  show ?thesis
  proof (cases "n_ram_file ?n")
    case (Some f)
    note f = ram_file_node [OF v n Some]
    have "path_equal (rf_path (ram_files v ! f)) old" if "find_idx (\<lambda>l. rl_used l \<and> path_equal (rl_path l) old) (ram_links v) = None"
      using file_ref [OF v n Some] that old by (simp add: npath_def path_equal_def)
    then show ?thesis using Some f nm hp by (auto simp: rename_at_def Let_def split: option.split)
  next
    case None
    let ?d = "find_idx (\<lambda>d. rd_used d \<and> path_equal (rd_path d) old) (ram_directories v)"
    have de: "(\<exists>x \<in> set (ram_directories v). rd_used x \<and> rd_path x = old) \<longleftrightarrow> ?d \<noteq> None"
      by (auto simp: find_idx_None path_equal_def)
    show ?thesis
    proof (cases ?d)
      case no: None
      then show ?thesis using None nm by (simp add: de) (auto simp: rename_at_def Let_def)
    next
      case (Some d)
      then have "n_path ?n = Some (DirPath d)"
        using directory_of_node [OF v n, of d] tables_okD(3) [OF vfs_invD(1) [OF v]] old by (auto simp: find_idx_Some path_equal_def)
      then have t: "n_type ?n = Directory" "n_writable ?n" "\<not> n_disk_backed ?n" using node_okD(4) [OF vfs_invD(2) [OF v n]] by simp_all
      have "\<not> node_below v old ?n" using old node_below_npath [OF vfs_invD(2) [OF v n]] by simp
      then have "empty_dir (vabs v) old \<longleftrightarrow> \<not> (\<exists>c < length (nodes v). c \<noteq> i \<and> node_below v old (nodes v ! c))"
        using empty_dir_iff [OF v n t(1)] old by (metis in_set_conv_nth)
      then show ?thesis using Some None t nm hp unfolding de by (simp add: rename_at_def Let_def)
    qed
  qed
qed

lemma accepts_rename:
  assumes v: "vfs_inv v"
  shows "fst (rename_ram_node p0 p v) \<longleftrightarrow> accepts (Rename p0 p) v"
proof (cases "new_name (vabs v) p \<and> normalize_path p0 \<noteq> None")
  case False
  then show ?thesis
    using new_name_iff [OF v, of p] by (auto simp: rename_ram_node_def Let_def split: option.split)
next
  case True
  then obtain q0 q d where q: "copy_path_checked p = Some q" "find_node v (Some q) = None" "parent_path (Some q) = Some d" "dir_exists v (Some d)"
    and q0: "normalize_path p0 = Some q0" using new_name_iff [OF v] by blast
  have noq: "a_names (vabs v) q = None"
    using find_node_None [of v q] checked_canon64 [OF q(1)] q(2) vfs_invD(2) [OF v] by (simp add: a_names_None)
  let ?c = "(\<exists>f. a_names (vabs v) q0 = Some (MemoryFile, Some f)) \<or> (empty_dir (vabs v) q0 \<and> (\<exists>x \<in> set (ram_directories v). rd_used x \<and> rd_path x = q0))"
  have other: "rename_at q0 q j v = None" if "j < length (nodes v)" "npath v (nodes v ! j) \<noteq> q0" for j
    using has_path_npath [OF vfs_invD(2) [OF v nth_mem [OF that(1)]]] that(2) by (simp add: rename_at_def Let_def)
  have scan: "(\<exists>w. rename_scan q0 q [0..<length (nodes v)] v = Some (True, w)) \<longleftrightarrow> ?c"
  proof (cases "\<exists>i < length (nodes v). npath v (nodes v ! i) = q0")
    case True
    then obtain i where i: "i < length (nodes v)" "q0 = npath v (nodes v ! i)" by blast
    have "rename_scan q0 q [0..<length (nodes v)] v = rename_at q0 q i v"
    proof (rule rename_scan_only)
      show "\<forall>j \<in> set [0..<length (nodes v)]. j \<noteq> i \<longrightarrow> rename_at q0 q j v = None"
        using other npath_idx_inj [OF v _ i(1)] i(2) by (metis atLeastLessThan_iff set_upt)
    qed (use i in simp)
    then show ?thesis using rename_at_accepts [OF v i] by simp
  next
    case False
    then have "a_names (vabs v) q0 = None" by (auto simp: a_names_None in_set_conv_nth)
    moreover have "rename_scan q0 q [0..<length (nodes v)] v = None" using False other by (intro rename_scan_none) auto
    ultimately show ?thesis by (simp add: empty_dir_def is_dir_def)
  qed
  have "rename_ram_node p0 p v = (if q0 = q then (False, count_stat (\<lambda>s. s\<lparr>ram_rename_rejects := ram_rename_rejects s + 1\<rparr>) v)
      else case rename_scan q0 q [0..<length (nodes v)] v of Some r \<Rightarrow> r
        | None \<Rightarrow> (False, count_stat (\<lambda>s. s\<lparr>ram_rename_rejects := ram_rename_rejects s + 1\<rparr>) v))"
    using q q0 by (simp add: rename_ram_node_def Let_def path_equal_def)
  moreover have "\<not> ?c" if "q0 = q" using noq that by (simp add: empty_dir_def is_dir_def)
  ultimately have "fst (rename_ram_node p0 p v) \<longleftrightarrow> ?c" using scan by (auto split: option.splits)
  then show ?thesis using True q0 by simp
qed

section \<open>Theorems\<close>

text \<open>C15. The operations on files, directories and links in memory are those of an abstract file system. In a
  consistent file system each of the seven operations leaves a consistent one; an operation that reports
  success has the effect its contract names on the names and on the contents of the files, and nothing else;
  one that reports failure changes no name and no contents.\<close>

theorem vfs_operations_refine:
  assumes "vfs_inv v" "do_vop env op v = (ok, w)"
  shows "vfs_inv w \<and> (if ok then a_effect op (vabs v) (vabs w) else vabs w = vabs v)"
  using do_vop_correct [OF assms(1), of op env] assms(2) by (simp add: vop_correct_def cong: if_cong)

theorem vfs_operations_refine_witness:
  "a_effect (CreateDir (Some ''/d/e'')) (vabs demo_vfs) (vabs (snd (do_vop demo_env (CreateDir (Some ''/d/e'')) demo_vfs)))"
proof -
  have "find_idx (\<lambda>d. \<not> rd_used d) (ram_directories demo_vfs) = Some 1"
    by (auto simp: find_idx_Some demo_vfs_def empty_ram_directory_def)
  then have "\<exists>x \<in> set (ram_directories demo_vfs). \<not> rd_used x" unfolding some_index by simp
  moreover have "a_names (vabs demo_vfs) ''/d/e'' = None" by (simp add: a_names_None demo_fields)
  ultimately have "accepts (CreateDir (Some ''/d/e'')) demo_vfs"
    using demo_paths demo_names by (simp add: new_name_def is_dir_def demo_fields)
  then have "fst (do_vop demo_env (CreateDir (Some ''/d/e'')) demo_vfs)" using accepts_create_directory [OF demo_vfs_inv] by simp
  then show ?thesis
    using vfs_operations_refine [OF demo_vfs_inv surjective_pairing, of demo_env "CreateDir (Some ''/d/e'')"] by argo
qed

text \<open>C16. An operation of the file system fails exactly for the reasons it should: creating, linking and renaming
  need a canonical new name below an existing directory that is not yet in use, and room in the tables;
  linking, truncating and deleting need a file in memory, which must not be open to be deleted; a directory
  must be empty to be renamed or deleted, the root is never deleted, and no file is longer than 4096 bytes.\<close>

theorem vfs_fails_exactly:
  assumes "vfs_inv v"
  shows "fst (do_vop env op v) \<longleftrightarrow> accepts op v"
  using assms by (cases op) (simp_all only: do_vop.simps accepts_create_file accepts_create_directory accepts_link accepts_truncate
    accepts_rename accepts_delete_file accepts_delete_directory)

theorem vfs_fails_exactly_witness: "\<not> fst (do_vop demo_env (DeleteFile (Some ''/f'')) demo_vfs)"
proof -
  have "handles demo_vfs ! 0 \<in> set (handles demo_vfs)" by (rule nth_mem) (simp add: demo_vfs_def)
  then have "\<exists>h \<in> set (handles demo_vfs). h_open h \<and> h_node h \<noteq> None \<and> n_ram_file (node_at demo_vfs (the (h_node h))) = Some 0"
    by (intro bexI [of _ "handles demo_vfs ! 0"]) (simp_all add: demo_vfs_def node_at_def ram_node_def)
  then show ?thesis unfolding vfs_fails_exactly [OF demo_vfs_inv] using demo_paths demo_names by simp
qed

text \<open>C19. The names of the file system form a tree with the root at the top: every name but the root lies
  in a directory that exists. Every operation keeps that, except a rename that moves a directory below itself.\<close>

theorem names_stay_tree:
  assumes "vfs_inv v" "tree (vabs v)" "keeps_tree op"
  shows "tree (vabs (snd (do_vop env op v)))"
  using do_vop_correct [OF assms(1), of op env] tree_effect [OF assms(2) _ assms(3)] assms(2)
  by (cases "fst (do_vop env op v)") (simp_all add: vop_correct_def)

lemma demo_tree: "tree (vabs demo_vfs)"
proof -
  have "p \<in> {''/'', ''/d'', ''/f''}" if "a_names (vabs demo_vfs) p \<noteq> None" for p
    using that by (simp add: a_names_None demo_fields)
  then show ?thesis using demo_names demo_paths demo_canon unfolding tree_def is_dir_def by (metis empty_iff insert_iff)
qed

theorem names_stay_tree_witness: "tree (vabs (snd (do_vop demo_env (Rename (Some ''/f'') (Some ''/d/e'')) demo_vfs)))"
proof -
  have "\<not> path_has_prefix_child ''/d/e'' ''/f''" by code_simp
  then show ?thesis
    using names_stay_tree [OF demo_vfs_inv demo_tree, of "Rename (Some ''/f'') (Some ''/d/e'')"] demo_paths by simp
qed



lemma abi_flags_typed:
  assumes "n_type n \<noteq> EmptyNode"
  shows "abi_type (n_type n) \<in> {1, 2, 3, 4} \<and> (abi_flags n AND VfsNodeDirectory \<noteq> 0 \<longleftrightarrow> abi_type (n_type n) = 1) \<and>
    (abi_flags n AND VfsNodeCharacterDevice \<noteq> 0 \<longleftrightarrow> abi_type (n_type n) = 3) \<and>
    (abi_flags n AND VfsNodeVirtual \<noteq> 0 \<longleftrightarrow> abi_type (n_type n) = 4) \<and>
    (abi_type (n_type n) \<in> {2, 4} \<longrightarrow> abi_flags n AND VfsNodeReadable \<noteq> 0)"
  using assms
  by (cases "n_type n"; cases "n_device_kind n"; cases "n_writable n"; cases "n_disk_backed n")
    (simp_all add: abi_type_def abi_flags_def Let_def VfsNodeReadable_def VfsNodeWritable_def VfsNodeDirectory_def
      VfsNodeMemoryBacked_def VfsNodeDiskBacked_def VfsNodeCharacterDevice_def VfsNodeVirtual_def)

lemma link_count_nonzero:
  assumes "vfs_inv v"
  shows "link_count_for v n \<noteq> 0"
proof -
  have small: "(of_nat (count_if P (nodes v)) :: u64) \<noteq> 0" if "0 < count_if P (nodes v)" for P
  proof -
    have "count_if P (nodes v) \<le> 512"
      using tables_okD(5) [OF vfs_invD(1) [OF assms]] count_if_le [of P "nodes v"] by linarith
    then have "\<not> 2 ^ 64 dvd count_if P (nodes v)" using that by (intro nat_dvd_not_less) simp_all
    then show ?thesis by (simp add: word_of_nat_eq_0_iff)
  qed
  then show ?thesis by (simp add: link_count_for_def Let_def split: option.split)
qed

text \<open>C38. What a program is told about a node is well typed: the kind is one of the four kinds of node, the
  directory, device and virtual file bits of the flags agree with the kind, everything else is readable,
  the path is the canonical path of the node, and there is at least one link.\<close>

theorem node_info_typed:
  assumes "vfs_inv v" "copy_node_info env i v = Some info"
  shows "i_type info \<in> {1, 2, 3, 4} \<and> (i_flags info AND VfsNodeDirectory \<noteq> 0 \<longleftrightarrow> i_type info = 1) \<and>
    (i_flags info AND VfsNodeCharacterDevice \<noteq> 0 \<longleftrightarrow> i_type info = 3) \<and> (i_flags info AND VfsNodeVirtual \<noteq> 0 \<longleftrightarrow> i_type info = 4) \<and>
    (i_type info \<in> {2, 4} \<longrightarrow> i_flags info AND VfsNodeReadable \<noteq> 0) \<and>
    i_path info = npath v (nodes v ! i) \<and> canon64 (i_path info) \<and> i_links info \<noteq> 0"
proof -
  let ?n = "nodes v ! i"
  have i: "i < length (nodes v)"
    and info: "i_type info = abi_type (n_type ?n)" "i_flags info = abi_flags ?n" "i_links info = link_count_for v ?n" "i_path info = copy_path (node_path v ?n)"
    using assms(2) by (auto simp: copy_node_info_def Let_def split: if_splits)
  note ok = vfs_invD(2) [OF assms(1) nth_mem [OF i]]
  have "i_path info = npath v ?n" using info(4) node_path_npath [OF ok] copy_path_canon64 [OF node_okD(2) [OF ok]] by simp
  moreover have "i_links info \<noteq> 0" using info(3) link_count_nonzero [OF assms(1)] by simp
  ultimately show ?thesis
    using abi_flags_typed [OF node_okD(3) [OF ok]] node_okD(2) [OF ok] info(1,2) by simp
qed

theorem node_info_typed_witness:
  "\<exists>info. copy_node_info demo_env 1 demo_vfs = Some info \<and> i_type info = 1 \<and> i_flags info AND VfsNodeDirectory \<noteq> 0 \<and> i_path info = ''/d''"
proof -
  obtain info where info: "copy_node_info demo_env 1 demo_vfs = Some info" "i_type info = 1"
    by (simp add: copy_node_info_def demo_fields Let_def dir_node_def abi_type_def)
  from node_info_typed [OF demo_vfs_inv info(1)] info show ?thesis by (auto simp: demo_fields)
qed


text \<open>C39. The exception is real: an empty directory in memory can be renamed to a name below itself. The call
  succeeds and leaves a directory whose parent does not exist.\<close>

theorem rename_below_itself:
  assumes "vfs_inv v" "empty_dir (vabs v) q" "canon64 q" "\<exists>x \<in> set (ram_directories v). rd_used x \<and> rd_path x = q"
    and "canon64 p" "parent_path (Some p) = Some q" "rename_ram_node (Some q) (Some p) v = (ok, w)"
  shows "ok \<and> is_dir (vabs w) p \<and> a_names (vabs w) q = None \<and> \<not> tree (vabs w)"
proof -
  have n: "normalize_path (Some q) = Some q" "normalize_path (Some p) = Some p" using assms(3,5) canon64_normalize by blast+
  note pq = parent_above [OF assms(5,6)]
  have new: "a_names (vabs v) p = None" using assms(2) pq unfolding empty_dir_def by blast
  have dir: "is_dir (vabs v) q" using assms(2) by (simp add: empty_dir_def)
  have "accepts (Rename (Some q) (Some p)) v" using n new dir assms(2,4,6) by (auto simp: new_name_def)
  then have ok: "ok" using accepts_rename [OF assms(1), of "Some q" "Some p"] assms(7) by simp
  have "a_effect (Rename (Some q) (Some p)) (vabs v) (vabs w)"
    using rename_correct [OF assms(1), of "Some q" "Some p"] assms(7) ok by (simp only: vop_correct_def fst_conv snd_conv if_True)
  then have w: "a_names (vabs w) = (a_names (vabs v))(p := a_names (vabs v) q, q := None)" using n by auto
  then have d: "is_dir (vabs w) p" "a_names (vabs w) q = None" using dir pq by (simp_all add: is_dir_def)
  have "\<not> tree (vabs w)" using d pq assms(6) unfolding tree_def is_dir_def by (metis option.distinct(1) option.inject)
  then show ?thesis using ok d by blast
qed

theorem rename_below_itself_witness:
  "let (ok, w) = rename_ram_node (Some ''/d'') (Some ''/d/e'') demo_vfs in ok \<and> is_dir (vabs w) ''/d/e'' \<and> \<not> tree (vabs w)"
proof -
  have "dir_node 0 \<in> set (nodes demo_vfs)" "n_type (dir_node 0) = Directory" by (simp_all add: demo_fields dir_node_def)
  from empty_dir_iff [OF demo_vfs_inv this] have "empty_dir (vabs demo_vfs) ''/d''"
    using node_below_npath [OF vfs_invD(2) [OF demo_vfs_inv]] by (simp add: demo_fields path_has_prefix_child_def path_equal_def)
  moreover have "ram_directories demo_vfs ! 0 \<in> set (ram_directories demo_vfs)" by (rule nth_mem) (simp add: demo_vfs_def)
  then have "\<exists>x \<in> set (ram_directories demo_vfs). rd_used x \<and> rd_path x = ''/d''"
    by (rule rev_bexI) (simp add: demo_vfs_def)
  ultimately show ?thesis
    using rename_below_itself [OF demo_vfs_inv _ demo_canon(2) _ demo_canon(4) demo_paths(10)] by (auto split: prod.split)
qed

lemma nth_without: "i \<le> j \<Longrightarrow> Suc j < length xs \<Longrightarrow> (take i xs @ drop (Suc i) xs) ! j = xs ! Suc j"
  by (simp add: nth_append)

text \<open>C40. Deleting a directory moves the nodes behind it down by one and leaves the handles as they are: a handle
  that was open on one of those nodes then stands for the node behind it, another file, or for no node.\<close>

theorem delete_shifts_handles:
  assumes "vfs_inv v" "delete_ram_directory p v = (True, w)" "find_node v p = Some i"
    and "i < j" "h_node (handles v ! k) = Some j"
  shows "handles w ! k = handles v ! k \<and> node_at w j = node_at v (Suc j)"
proof -
  obtain q where q: "normalize_path p = Some q" using assms(3) by (auto simp: find_node_def split: option.splits)
  let ?P = "\<lambda>n. has_path v q n \<and> n_type n = Directory \<and> n_writable n"
  have acc: "1 < length q" "find_idx ?P (nodes v) \<noteq> None" "\<not> (\<exists>n \<in> set (nodes v). node_below v q n)"
    using delete_directory_iff [OF q, of v] assms(2) by simp_all
  then obtain m where fi: "find_idx ?P (nodes v) = Some m" by auto
  have c: "canon64 q" by (rule normalize_canon64 [OF q])
  have "find_node v (Some q) = Some i" using assms(3) q canon64_normalize [OF c] by (simp add: find_node_def)
  then have i: "i < length (nodes v)" "npath v (nodes v ! i) = q" using find_node_Some [OF assms(1) c] by blast+
  have m: "m < length (nodes v)" "has_path v q (nodes v ! m)" using fi by (simp_all add: find_idx_Some)
  then have "npath v (nodes v ! m) = npath v (nodes v ! i)" using has_path_npath [OF vfs_invD(2) [OF assms(1) nth_mem [OF m(1)]]] i(2) by simp
  then have "m = i" by (rule npath_idx_inj [OF assms(1) m(1) i(1)])
  let ?d = "find_idx (\<lambda>d. rd_used d \<and> path_equal (rd_path d) q) (ram_directories v)"
  have "delete_ram_directory p v = (True, count_stat (\<lambda>s. s\<lparr>ram_directory_deletes := ram_directory_deletes s + 1\<rparr>)
      (remove_node i (case ?d of Some d \<Rightarrow> set_ram_directory d empty_ram_directory v | None \<Rightarrow> v)))"
    using acc fi q \<open>m = i\<close> by (simp add: delete_ram_directory_def Let_def)
  then have w: "handles w = handles v \<and> nodes w = take i (nodes v) @ drop (Suc i) (nodes v)"
    using assms(2) by (cases ?d) (auto simp: count_stat_def remove_node_def)
  have "node_at w j = node_at v (Suc j)"
    using nth_without [of i j "nodes v"] i(1) assms(4) unfolding node_at_def conjunct2 [OF w] by simp
  then show ?thesis using w by simp
qed

theorem delete_shifts_handles_witness:
  "\<exists>w. delete_ram_directory (Some ''/d'') demo_vfs = (True, w) \<and> h_node (handles w ! 0) = Some 2 \<and> node_at w 2 = empty_node \<and>
     a_names (vabs w) ''/f'' = Some (MemoryFile, Some 0)"
proof -
  have n: "dir_node 0 \<in> set (nodes demo_vfs)" "n_type (dir_node 0) = Directory" "n_writable (dir_node 0)" by (simp_all add: demo_fields dir_node_def)
  from empty_dir_iff [OF demo_vfs_inv n(1,2)] have "empty_dir (vabs demo_vfs) ''/d''"
    using node_below_npath [OF vfs_invD(2) [OF demo_vfs_inv]] by (simp add: demo_fields path_has_prefix_child_def path_equal_def)
  then have "accepts (DeleteDir (Some ''/d'')) demo_vfs" using n demo_paths by (auto simp: demo_fields)
  then have ok: "fst (delete_ram_directory (Some ''/d'') demo_vfs)" using accepts_delete_directory [OF demo_vfs_inv] by simp
  then obtain w where d: "delete_ram_directory (Some ''/d'') demo_vfs = (True, w)"
    by (cases "delete_ram_directory (Some ''/d'') demo_vfs") auto
  have "find_node demo_vfs (Some ''/d'') = Some 1" using find_node_Some [OF demo_vfs_inv demo_canon(2), of 1] by (simp add: demo_fields)
  moreover have h: "h_node (handles demo_vfs ! 0) = Some 2" by (simp add: demo_vfs_def)
  ultimately have "handles w ! 0 = handles demo_vfs ! 0 \<and> node_at w 2 = node_at demo_vfs 3"
    using delete_shifts_handles [OF demo_vfs_inv d, of 1 2 0] by simp
  moreover have "node_at demo_vfs 3 = empty_node" by (simp add: node_at_def demo_fields)
  moreover have "a_effect (DeleteDir (Some ''/d'')) (vabs demo_vfs) (vabs w)"
    using delete_directory_correct [OF demo_vfs_inv, of "Some ''/d''"] unfolding d vop_correct_def fst_conv snd_conv if_True by blast
  then have "a_names (vabs w) = (a_names (vabs demo_vfs))(''/d'' := None)" using demo_paths(2) by auto
  then have "a_names (vabs w) ''/f'' = Some (MemoryFile, Some 0)" using demo_names(3) by simp
  ultimately show ?thesis using d h by (intro exI [of _ w] conjI) simp_all
qed

end
