(* ===== verification/Userspace.thy ===== *)
theory Userspace
  imports Vfs Paging
begin

text \<open>
  Processes and their threads, file descriptors and pipes: \<open>UserspaceManager\<close> of
  \<open>kernel/src/userspace/userspace.cpp\<close>. The manager holds the tables, the file system the descriptors refer to and
  the machine with the address spaces; a pointer to a table entry is its index. The first \<open>count_\<close> entries of the
  process table and the first \<open>thread_count_\<close> of the thread table are the lists, an argument or environment array is
  the list of its entries in use. A message to the kernel log is an entry of \<open>u_log\<close>.
\<close>

section \<open>Types\<close>

datatype ProcessState = PEmpty | PCreated | PRunnable | PStopped | PExited
datatype UserThreadState = TEmpty | TCreated | TRunnable | TRunning | TBlocked | TExited
datatype UserBlockReason = NoBlock | PipeReadBlock | PipeWriteBlock | ProcessWaitBlock | SleepBlock
datatype FileDescriptorKind = EmptyFd | VfsFd | PipeReadFd | PipeWriteFd
datatype ProcessTerminationReason = NotTerminated | ReasonExited | SigTerm | SigKill

definition kDefaultUserStackTop :: u64 where "kDefaultUserStackTop = 0x0000007ffffff000"
definition kDefaultUserStackPages :: u64 where "kDefaultUserStackPages = 4"
definition kMaxUserProcesses :: nat where "kMaxUserProcesses = 16"
definition kMaxUserThreads :: nat where "kMaxUserThreads = 32"
definition kMaxProcessFileDescriptors :: nat where "kMaxProcessFileDescriptors = 8"
definition kMaxOwnedUserPages :: nat where "kMaxOwnedUserPages = 64"
definition kMaxProcessArguments :: nat where "kMaxProcessArguments = 8"
definition kMaxArgumentLength :: nat where "kMaxArgumentLength = 64"
definition kMaxEnvironmentEntries :: nat where "kMaxEnvironmentEntries = 4"
definition kMaxEnvironmentKeyLength :: nat where "kMaxEnvironmentKeyLength = 24"
definition kMaxEnvironmentValueLength :: nat where "kMaxEnvironmentValueLength = 80"
definition kMaxPipes :: nat where "kMaxPipes = 8"
definition kPipeCapacity :: u64 where "kPipeCapacity = 1024"
definition kUserTimesliceQuantum :: u64 where "kUserTimesliceQuantum = 4"
definition kStdinFd :: u32 where "kStdinFd = 0"
definition kStdoutFd :: u32 where "kStdoutFd = 1"
definition kStderrFd :: u32 where "kStderrFd = 2"
definition kSyscallErrorNone :: u64 where "kSyscallErrorNone = 0"
definition kSyscallErrorNotFound :: u64 where "kSyscallErrorNotFound = 3"

record FileDescriptor =
  fd_number :: u32
  fd_handle :: u32
  fd_pipe :: u32
  fd_offset :: u64
  fd_kind :: FileDescriptorKind
  fd_open :: bool
  fd_path :: string

record Pipe =
  pp_id :: u32
  pp_open :: bool
  pp_size :: u64
  pp_read_offset :: u64
  pp_data :: "u8 list"

text \<open>The counters of a process are a record of their own.\<close>

record ProcessCounters =
  c_syscalls :: u64
  c_last_syscall :: u64
  c_read_syscalls :: u64
  c_write_syscalls :: u64
  c_read_bytes :: u64
  c_write_bytes :: u64
  c_run_ticks :: u64
  c_switches :: u64
  c_preempts :: u64

record Process =
  p_pid :: u64
  p_parent :: u64
  p_state :: ProcessState
  p_name :: cstr
  p_entry :: u64
  p_root :: u64
  p_stack_top :: u64
  p_stack_pages :: u64
  p_image_base :: u64
  p_image_pages :: u64
  p_main_thread :: u64
  p_exit_code :: u64
  p_reason :: ProcessTerminationReason
  p_next_fd :: u32
  p_fds :: "FileDescriptor list"
  p_owned :: "(u64 \<times> u64) list"
  p_cwd :: string
  p_args :: "string list"
  p_env :: "(string \<times> string) list"
  p_owns_space :: bool
  p_group :: u64
  p_counters :: ProcessCounters

text \<open>The registers of a thread that this code does not touch (\<open>r15\<close> to \<open>rbp\<close>, \<open>rcx\<close>, \<open>rbx\<close>) are \<open>t_saved\<close>.\<close>

record UserThread =
  t_tid :: u64
  t_pid :: u64
  t_state :: UserThreadState
  t_block :: UserBlockReason
  t_wait_pipe :: u32
  t_wait_process :: u64
  t_wait_tick :: u64
  t_wait_fd :: u32
  t_wait_buffer :: u64
  t_wait_size :: u64
  t_syscalls :: u64
  t_last_syscall :: u64
  t_run_ticks :: u64
  t_switches :: u64
  t_preempts :: u64
  t_entry :: u64
  t_sp :: u64
  t_root :: u64
  t_saved :: "u64 list"
  t_rdi :: u64
  t_rsi :: u64
  t_rdx :: u64
  t_rax :: u64
  t_rflags :: u64

record UserLaunchContext =
  l_tid :: u64
  l_pid :: u64
  l_rip :: u64
  l_rsp :: u64
  l_cr3 :: u64
  l_cs :: u16
  l_ss :: u16
  l_rflags :: u64

record UserExecutionContext =
  x_tid :: u64
  x_pid :: u64
  x_cr3 :: u64
  x_valid :: bool

record UserspaceDiagnostics =
  pipe_read_blocks :: u64
  pipe_write_blocks :: u64
  pipe_read_wakes :: u64
  pipe_write_wakes :: u64
  process_wait_blocks :: u64
  process_wait_any_blocks :: u64
  process_wait_wakes :: u64
  sleep_blocks :: u64
  sleep_wakes :: u64
  preemption_gate_enables :: u64
  preemption_gate_disables :: u64
  preempt_switches :: u64

record users =
  u_enabled :: bool
  processes :: "Process list"
  uthreads :: "UserThread list"
  pipes :: "Pipe list"
  next_pid :: u64
  next_tid :: u64
  active_pid :: u64
  active_tid :: u64
  last_selected_tid :: u64
  last_user_pick_index :: u64
  current_slice_ticks :: u64
  expired_slices :: u64
  foreground_group :: u64
  udiag :: UserspaceDiagnostics
  next_pipe_id :: u32
  user_preemption :: bool
  u_fs :: vfs
  u_machine :: machine
  u_log :: "(string \<times> u64 option) list"

text \<open>What the manager is given: the parameters of the file system, the frame buffer of the boot information and
  whether the local APIC accepts the timer configuration.\<close>

record user_env =
  e_vfs :: vfs_env
  e_framebuffer :: FramebufferInfo
  e_configure_timer :: bool

definition empty_fd :: FileDescriptor where
  "empty_fd = \<lparr>fd_number = 0, fd_handle = 0, fd_pipe = 0, fd_offset = 0, fd_kind = EmptyFd, fd_open = False, fd_path = []\<rparr>"

definition empty_pipe :: Pipe where
  "empty_pipe = \<lparr>pp_id = 0, pp_open = False, pp_size = 0, pp_read_offset = 0, pp_data = replicate 1024 0\<rparr>"

definition zero_counters :: ProcessCounters where
  "zero_counters = \<lparr>c_syscalls = 0, c_last_syscall = 0, c_read_syscalls = 0, c_write_syscalls = 0, c_read_bytes = 0,
     c_write_bytes = 0, c_run_ticks = 0, c_switches = 0, c_preempts = 0\<rparr>"

definition empty_process :: Process where
  "empty_process = \<lparr>p_pid = 0, p_parent = 0, p_state = PEmpty, p_name = None, p_entry = 0, p_root = 0, p_stack_top = 0,
     p_stack_pages = 0, p_image_base = 0, p_image_pages = 0, p_main_thread = 0, p_exit_code = 0, p_reason = NotTerminated,
     p_next_fd = 0, p_fds = replicate 8 empty_fd, p_owned = [], p_cwd = [], p_args = [], p_env = [], p_owns_space = False,
     p_group = 0, p_counters = zero_counters\<rparr>"

definition empty_thread :: UserThread where
  "empty_thread = \<lparr>t_tid = 0, t_pid = 0, t_state = TEmpty, t_block = NoBlock, t_wait_pipe = 0, t_wait_process = 0,
     t_wait_tick = 0, t_wait_fd = 0, t_wait_buffer = 0, t_wait_size = 0, t_syscalls = 0, t_last_syscall = 0, t_run_ticks = 0,
     t_switches = 0, t_preempts = 0, t_entry = 0, t_sp = 0, t_root = 0, t_saved = replicate 11 0, t_rdi = 0, t_rsi = 0,
     t_rdx = 0, t_rax = 0, t_rflags = 0\<rparr>"

definition zero_udiag :: UserspaceDiagnostics where
  "zero_udiag = \<lparr>pipe_read_blocks = 0, pipe_write_blocks = 0, pipe_read_wakes = 0, pipe_write_wakes = 0,
     process_wait_blocks = 0, process_wait_any_blocks = 0, process_wait_wakes = 0, sleep_blocks = 0, sleep_wakes = 0,
     preemption_gate_enables = 0, preemption_gate_disables = 0, preempt_switches = 0\<rparr>"

definition log_text :: "string \<Rightarrow> users \<Rightarrow> users" where
  "log_text m u = u\<lparr>u_log := u_log u @ [(m, None)]\<rparr>"

definition log_number :: "string \<Rightarrow> u64 \<Rightarrow> users \<Rightarrow> users" where
  "log_number m x u = u\<lparr>u_log := u_log u @ [(m, Some x)]\<rparr>"

definition with_udiag :: "(UserspaceDiagnostics \<Rightarrow> UserspaceDiagnostics) \<Rightarrow> users \<Rightarrow> users" where
  "with_udiag f u = u\<lparr>udiag := f (udiag u)\<rparr>"

definition upd_process :: "nat \<Rightarrow> (Process \<Rightarrow> Process) \<Rightarrow> users \<Rightarrow> users" where
  "upd_process i f u = u\<lparr>processes := (processes u)[i := f (processes u ! i)]\<rparr>"

definition upd_uthread :: "nat \<Rightarrow> (UserThread \<Rightarrow> UserThread) \<Rightarrow> users \<Rightarrow> users" where
  "upd_uthread i f u = u\<lparr>uthreads := (uthreads u)[i := f (uthreads u ! i)]\<rparr>"

definition upd_pipe :: "nat \<Rightarrow> (Pipe \<Rightarrow> Pipe) \<Rightarrow> users \<Rightarrow> users" where
  "upd_pipe i f u = u\<lparr>pipes := (pipes u)[i := f (pipes u ! i)]\<rparr>"

definition live :: "Process \<Rightarrow> bool" where
  "live p \<longleftrightarrow> p_state p \<noteq> PEmpty \<and> p_state p \<noteq> PExited"

section \<open>Tables\<close>

definition users_initialize :: "users \<Rightarrow> users" where
  "users_initialize u = u\<lparr>u_enabled := False, processes := [], uthreads := [], next_pid := 1, next_tid := 1, active_pid := 0,
     active_tid := 0, last_selected_tid := 0, last_user_pick_index := 0, current_slice_ticks := 0, expired_slices := 0,
     foreground_group := 0, udiag := zero_udiag, pipes := replicate 8 empty_pipe\<rparr>"

definition allocate_process_slot :: "users \<Rightarrow> (nat \<times> users) option" where
  "allocate_process_slot u =
     (case find_idx (\<lambda>p. p_state p = PEmpty) (processes u) of
        Some i \<Rightarrow> Some (i, u)
      | None \<Rightarrow> if kMaxUserProcesses \<le> length (processes u) then None
               else Some (length (processes u), u\<lparr>processes := processes u @ [empty_process]\<rparr>))"

definition allocate_thread_slot :: "users \<Rightarrow> (nat \<times> users) option" where
  "allocate_thread_slot u =
     (case find_idx (\<lambda>t. t_state t = TEmpty) (uthreads u) of
        Some i \<Rightarrow> Some (i, u)
      | None \<Rightarrow> if kMaxUserThreads \<le> length (uthreads u) then None
               else Some (length (uthreads u), u\<lparr>uthreads := uthreads u @ [empty_thread]\<rparr>))"

definition find_process :: "users \<Rightarrow> u64 \<Rightarrow> nat option" where
  "find_process u pid = find_idx (\<lambda>p. p_pid p = pid \<and> p_state p \<noteq> PEmpty) (processes u)"

definition find_thread :: "users \<Rightarrow> u64 \<Rightarrow> nat option" where
  "find_thread u tid = find_idx (\<lambda>t. t_tid t = tid \<and> t_state t \<noteq> TEmpty) (uthreads u)"

definition find_pipe :: "users \<Rightarrow> u32 \<Rightarrow> nat option" where
  "find_pipe u pipe = (if pipe = 0 then None else find_idx (\<lambda>p. pp_open p \<and> pp_id p = pipe) (pipes u))"

text \<open>The process most operations work on: one that has not exited.\<close>

definition find_live :: "users \<Rightarrow> u64 \<Rightarrow> nat option" where
  "find_live u pid = (case find_process u pid of None \<Rightarrow> None
     | Some i \<Rightarrow> if p_state (processes u ! i) = PEmpty \<or> p_state (processes u ! i) = PExited then None else Some i)"

definition current_tid :: "users \<Rightarrow> u64" where
  "current_tid u = (if active_tid u = 0 then 0
     else case find_idx (\<lambda>t. t_tid t = active_tid u \<and> t_state t \<noteq> TEmpty \<and> t_state t \<noteq> TExited) (uthreads u) of
       Some _ \<Rightarrow> active_tid u | None \<Rightarrow> 0)"

definition current_pid :: "users \<Rightarrow> u64" where
  "current_pid u =
     (let tid = current_tid u;
          fallback = (if active_pid u = 0 then 0
            else case find_idx (\<lambda>p. p_pid p = active_pid u \<and> live p) (processes u) of Some _ \<Rightarrow> active_pid u | None \<Rightarrow> 0) in
      if tid = 0 then fallback
      else case find_idx (\<lambda>t. t_tid t = tid) (uthreads u) of
        None \<Rightarrow> fallback
      | Some i \<Rightarrow> let pid = t_pid (uthreads u ! i) in
          (case find_idx (\<lambda>p. p_pid p = pid \<and> live p) (processes u) of Some _ \<Rightarrow> pid | None \<Rightarrow> 0))"

definition current_process :: "users \<Rightarrow> nat option" where
  "current_process u = (let pid = current_pid u in if pid = 0 then None else find_process u pid)"

definition current_thread :: "users \<Rightarrow> nat option" where
  "current_thread u = (let tid = current_tid u in if tid = 0 then None else find_thread u tid)"

section \<open>Preemption\<close>

definition schedulable :: "users \<Rightarrow> UserThread \<Rightarrow> bool" where
  "schedulable u t \<longleftrightarrow> (t_state t = TRunnable \<or> t_state t = TRunning) \<and>
     (\<exists>p \<in> set (processes u). p_pid p = t_pid t \<and> p_state p = PRunnable)"

definition schedulable_thread_count :: "users \<Rightarrow> nat" where
  "schedulable_thread_count u = count_if (schedulable u) (uthreads u)"

text \<open>\<open>hk::timer::start_lapic_system_tick\<close>: the timer runs once the local APIC has taken the configuration.\<close>

definition start_lapic_system_tick :: "user_env \<Rightarrow> users \<Rightarrow> bool \<times> users" where
  "start_lapic_system_tick e u =
     (if \<not> e_configure_timer e then (False, log_text ''Local APIC system tick enable failed'' u)
      else (True, log_text ''Local APIC system tick enabled'' (u\<lparr>u_machine := (u_machine u)\<lparr>m_lapic_timer := True\<rparr>\<rparr>)))"

definition update_user_preemption_gate :: "user_env \<Rightarrow> users \<Rightarrow> bool \<times> users" where
  "update_user_preemption_gate e u =
     (if 1 < schedulable_thread_count u then
        let (ok, u) = (if m_lapic_timer (u_machine u) then (True, u) else start_lapic_system_tick e u) in
        if \<not> ok then (False, u)
        else if user_preemption u then (True, u)
        else let u = u\<lparr>user_preemption := True\<rparr>;
                 u = with_udiag (\<lambda>d. d\<lparr>preemption_gate_enables := preemption_gate_enables d + 1\<rparr>) u;
                 u = log_number ''Userspace preemption gate enable count'' (preemption_gate_enables (udiag u)) u;
                 u = log_text ''Userspace auto preemption enabled'' u;
                 u = log_text ''Userspace scheduler preemption gate enabled'' u
          in (True, u)
      else if user_preemption u then
        let u = u\<lparr>user_preemption := False\<rparr>;
            u = with_udiag (\<lambda>d. d\<lparr>preemption_gate_disables := preemption_gate_disables d + 1\<rparr>) u;
            u = log_number ''Userspace preemption gate disable count'' (preemption_gate_disables (udiag u)) u;
            u = log_text ''Userspace scheduler preemption gate disabled'' u
        in (True, u)
      else (True, u))"

section \<open>Threads\<close>

text \<open>The fields a thread waits with, all cleared.\<close>

definition clear_wait :: "UserThread \<Rightarrow> UserThread" where
  "clear_wait t = t\<lparr>t_block := NoBlock, t_wait_pipe := 0, t_wait_process := 0, t_wait_tick := 0, t_wait_fd := 0,
     t_wait_buffer := 0, t_wait_size := 0\<rparr>"

definition create_main_thread :: "nat \<Rightarrow> users \<Rightarrow> bool \<times> users" where
  "create_main_thread i u =
     (let p = processes u ! i in
      if p_entry p = 0 \<or> p_root p = 0 \<or> p_stack_top p = 0 then (False, u)
      else case allocate_thread_slot u of None \<Rightarrow> (False, u)
      | Some (k, u) \<Rightarrow>
        let tid = next_tid u;
            u = u\<lparr>next_tid := next_tid u + 1\<rparr>;
            u = upd_uthread k (\<lambda>_. empty_thread\<lparr>t_tid := tid, t_pid := p_pid p, t_state := TCreated, t_entry := p_entry p,
                  t_sp := p_stack_top p - 16, t_root := p_root p, t_rflags := 0x202\<rparr>) u
        in (True, upd_process i (\<lambda>p. p\<lparr>p_main_thread := tid\<rparr>) u))"

definition mark_runnable :: "user_env \<Rightarrow> u64 \<Rightarrow> users \<Rightarrow> bool \<times> users" where
  "mark_runnable e pid u =
     (case find_process u pid of None \<Rightarrow> (False, u)
      | Some i \<Rightarrow>
        if p_state (processes u ! i) \<noteq> PCreated then (False, u)
        else
          let u = upd_process i (\<lambda>p. p\<lparr>p_state := PRunnable\<rparr>) u;
              u = (if active_pid u = 0 then u\<lparr>active_pid := p_pid (processes u ! i)\<rparr> else u);
              u = (case find_thread u (p_main_thread (processes u ! i)) of None \<Rightarrow> u
                   | Some k \<Rightarrow> if t_state (uthreads u ! k) = TCreated then upd_uthread k (\<lambda>t. t\<lparr>t_state := TRunnable\<rparr>) u else u)
          in update_user_preemption_gate e u)"

definition pause_active :: "u64 \<Rightarrow> users \<Rightarrow> users" where
  "pause_active tid u =
     (if active_tid u \<noteq> 0 \<and> active_tid u \<noteq> tid then
        case find_thread u (active_tid u) of None \<Rightarrow> u
        | Some c \<Rightarrow> if t_state (uthreads u ! c) = TRunning then upd_uthread c (\<lambda>t. t\<lparr>t_state := TRunnable\<rparr>) u else u
      else u)"

definition activate_thread :: "u64 \<Rightarrow> users \<Rightarrow> bool \<times> users" where
  "activate_thread tid u =
     (case find_thread u tid of None \<Rightarrow> (False, u)
      | Some k \<Rightarrow>
        if t_state (uthreads u ! k) \<noteq> TRunnable \<and> t_state (uthreads u ! k) \<noteq> TRunning then (False, u)
        else case find_process u (t_pid (uthreads u ! k)) of None \<Rightarrow> (False, u)
        | Some i \<Rightarrow>
          if p_state (processes u ! i) \<noteq> PRunnable then (False, u)
          else
            let u = pause_active tid u;
                u = upd_uthread k (\<lambda>t. t\<lparr>t_state := TRunning, t_switches := t_switches t + 1\<rparr>) u;
                u = upd_process i (\<lambda>p. p\<lparr>p_counters := (p_counters p)\<lparr>c_switches := c_switches (p_counters p) + 1\<rparr>\<rparr>) u;
                u = u\<lparr>active_tid := t_tid (uthreads u ! k), active_pid := t_pid (uthreads u ! k),
                      last_selected_tid := t_tid (uthreads u ! k), current_slice_ticks := 0\<rparr>;
                u = (case find_idx (\<lambda>t. t_tid t = tid) (uthreads u) of None \<Rightarrow> u
                     | Some j \<Rightarrow> u\<lparr>last_user_pick_index := of_nat j\<rparr>)
            in (True, u))"

definition save_active_thread_frame :: "u64 \<Rightarrow> u64 \<Rightarrow> users \<Rightarrow> bool \<times> users" where
  "save_active_thread_frame rip rsp u =
     (case current_thread u of None \<Rightarrow> (False, u)
      | Some k \<Rightarrow>
        let t = uthreads u ! k in
        if t_state t = TEmpty \<or> t_state t = TExited \<or> rip = 0 \<or> rsp = 0 then (False, u)
        else case find_process u (t_pid t) of None \<Rightarrow> (False, u)
        | Some i \<Rightarrow>
          if p_state (processes u ! i) \<noteq> PRunnable \<or> as_translate (u_machine u) (t_root t) rip = 0 \<or>
             as_translate (u_machine u) (t_root t) rsp = 0 then (False, u)
          else (True, upd_uthread k (\<lambda>t. t\<lparr>t_entry := rip, t_sp := rsp\<rparr>) u))"

definition mark_active_thread_runnable :: "users \<Rightarrow> bool \<times> users" where
  "mark_active_thread_runnable u =
     (case current_thread u of None \<Rightarrow> (False, u)
      | Some k \<Rightarrow> if t_state (uthreads u ! k) \<noteq> TRunning then (False, u)
          else (True, upd_uthread k (\<lambda>t. clear_wait (t\<lparr>t_state := TRunnable\<rparr>)) u))"

section \<open>Blocking\<close>

definition block_active_thread_on_pipe :: "u32 \<Rightarrow> bool \<Rightarrow> u32 \<Rightarrow> u64 \<Rightarrow> u64 \<Rightarrow> users \<Rightarrow> bool \<times> users" where
  "block_active_thread_on_pipe pipe write_end fd buffer sz u =
     (case current_thread u of None \<Rightarrow> (False, u)
      | Some k \<Rightarrow>
        if t_state (uthreads u ! k) \<noteq> TRunning \<or> pipe = 0 \<or> find_pipe u pipe = None then (False, u)
        else
          let u = upd_uthread k (\<lambda>t. t\<lparr>t_state := TBlocked, t_block := (if write_end then PipeWriteBlock else PipeReadBlock),
                    t_wait_pipe := pipe, t_wait_process := 0, t_wait_tick := 0, t_wait_fd := fd, t_wait_buffer := buffer,
                    t_wait_size := sz\<rparr>) u
          in if write_end then
               let u = with_udiag (\<lambda>d. d\<lparr>pipe_write_blocks := pipe_write_blocks d + 1\<rparr>) u
               in (True, log_number ''Userspace pipe write block count'' (pipe_write_blocks (udiag u)) u)
             else
               let u = with_udiag (\<lambda>d. d\<lparr>pipe_read_blocks := pipe_read_blocks d + 1\<rparr>) u
               in (True, log_number ''Userspace pipe read block count'' (pipe_read_blocks (udiag u)) u))"

definition block_active_thread_on_process :: "u64 \<Rightarrow> users \<Rightarrow> bool \<times> users" where
  "block_active_thread_on_process target u =
     (case current_thread u of None \<Rightarrow> (False, u)
      | Some k \<Rightarrow>
        if t_state (uthreads u ! k) \<noteq> TRunning \<or> target = 0 \<or> find_live u target = None then (False, u)
        else
          let u = upd_uthread k (\<lambda>t. (clear_wait t)\<lparr>t_state := TBlocked, t_block := ProcessWaitBlock, t_wait_process := target\<rparr>) u;
              u = with_udiag (\<lambda>d. d\<lparr>process_wait_blocks := process_wait_blocks d + 1\<rparr>) u
          in (True, log_number ''Userspace wait block count'' (process_wait_blocks (udiag u)) u))"

definition process_wait_any_would_block :: "users \<Rightarrow> u64 \<Rightarrow> bool" where
  "process_wait_any_would_block u waiter \<longleftrightarrow> waiter \<noteq> 0 \<and> (\<exists>p \<in> set (processes u). p_parent p = waiter \<and> live p)"

definition block_active_thread_on_any_process :: "users \<Rightarrow> bool \<times> users" where
  "block_active_thread_on_any_process u =
     (case current_thread u of None \<Rightarrow> (False, u)
      | Some k \<Rightarrow>
        if t_state (uthreads u ! k) \<noteq> TRunning \<or> \<not> process_wait_any_would_block u (t_pid (uthreads u ! k)) then (False, u)
        else
          let u = upd_uthread k (\<lambda>t. (clear_wait t)\<lparr>t_state := TBlocked, t_block := ProcessWaitBlock\<rparr>) u;
              u = with_udiag (\<lambda>d. d\<lparr>process_wait_any_blocks := process_wait_any_blocks d + 1\<rparr>) u
          in (True, log_number ''Userspace wait-any block count'' (process_wait_any_blocks (udiag u)) u))"

definition block_active_thread_until :: "u64 \<Rightarrow> users \<Rightarrow> bool \<times> users" where
  "block_active_thread_until wake_tick u =
     (case current_thread u of None \<Rightarrow> (False, u)
      | Some k \<Rightarrow>
        if t_state (uthreads u ! k) \<noteq> TRunning \<or> wake_tick = 0 then (False, u)
        else
          let u = upd_uthread k (\<lambda>t. (clear_wait t)\<lparr>t_state := TBlocked, t_block := SleepBlock, t_wait_tick := wake_tick\<rparr>) u;
              u = with_udiag (\<lambda>d. d\<lparr>sleep_blocks := sleep_blocks d + 1\<rparr>) u
          in (True, log_number ''Userspace sleep block count'' (sleep_blocks (udiag u)) u))"

section \<open>Pipes\<close>

definition with_mem :: "(mem \<Rightarrow> mem) \<Rightarrow> users \<Rightarrow> users" where
  "with_mem f u = u\<lparr>u_machine := (u_machine u)\<lparr>m_mem := f (m_mem (u_machine u))\<rparr>\<rparr>"

text \<open>Taking \<open>n\<close> bytes out of a pipe moves the rest to the front.\<close>

definition pipe_take :: "u64 \<Rightarrow> Pipe \<Rightarrow> u8 list \<times> Pipe" where
  "pipe_take n p =
     (let bs = take (unat n) (drop (unat (pp_read_offset p)) (pp_data p));
          p = p\<lparr>pp_read_offset := pp_read_offset p + n\<rparr>
      in (bs, if pp_read_offset p \<noteq> 0 then
            let remaining = pp_size p - pp_read_offset p;
                p = (if remaining \<noteq> 0 then p\<lparr>pp_data := take (unat remaining) (drop (unat (pp_read_offset p)) (pp_data p)) @
                       drop (unat remaining) (pp_data p)\<rparr> else p)
            in p\<lparr>pp_size := remaining, pp_read_offset := 0\<rparr> else p))"

definition pipe_put :: "u8 list \<Rightarrow> Pipe \<Rightarrow> Pipe" where
  "pipe_put bs p = p\<lparr>pp_data := store_bytes (unat (pp_size p)) bs (pp_data p), pp_size := pp_size p + of_nat (length bs)\<rparr>"

definition fd_on :: "FileDescriptorKind \<Rightarrow> u32 \<Rightarrow> FileDescriptor \<Rightarrow> bool" where
  "fd_on kind pipe d \<longleftrightarrow> fd_open d \<and> fd_pipe d = pipe \<and> fd_kind d = kind"

definition pipe_has_live_writer :: "users \<Rightarrow> u32 \<Rightarrow> bool" where
  "pipe_has_live_writer u pipe \<longleftrightarrow> pipe \<noteq> 0 \<and> (\<exists>p \<in> set (processes u). live p \<and> (\<exists>d \<in> set (p_fds p). fd_on PipeWriteFd pipe d))"

definition pipe_has_live_reader :: "users \<Rightarrow> u32 \<Rightarrow> bool" where
  "pipe_has_live_reader u pipe \<longleftrightarrow> pipe \<noteq> 0 \<and> (\<exists>p \<in> set (processes u). live p \<and> (\<exists>d \<in> set (p_fds p). fd_on PipeReadFd pipe d))"

text \<open>What \<open>wake_pipe_waiters\<close> does for one thread: a read that goes on with some bytes or ends, a write that goes on with
  some bytes or finds no reader any more. Its result is the number of these events.\<close>

datatype wake_event = ReadResumed u64 "u8 list" | ReadEof u64 | WriteResumed u64 "u8 list" | WriteBroken u64

fun is_read :: "wake_event \<Rightarrow> bool" where
  "is_read (ReadResumed t bs) = True" | "is_read (ReadEof t) = True" | "is_read (WriteResumed t bs) = False" | "is_read (WriteBroken t) = False"

definition set_result :: "nat \<Rightarrow> u64 \<Rightarrow> u64 \<Rightarrow> users \<Rightarrow> users" where
  "set_result k rax rdx u = upd_uthread k (\<lambda>t. t\<lparr>t_rax := rax, t_rdx := rdx\<rparr>) u"

text \<open>The bytes one copy moves: what was asked for, what there is, and what is left of the page.\<close>

definition copy_size :: "u64 \<Rightarrow> u64 \<Rightarrow> u64 \<Rightarrow> u64" where
  "copy_size wanted available phys =
     (let page_remaining = kPageSize - (phys AND (kPageSize - 1));
          to_copy = (if wanted < available then wanted else available)
      in if page_remaining < to_copy then page_remaining else to_copy)"

definition serve_reader :: "u32 \<Rightarrow> nat option \<Rightarrow> nat \<Rightarrow> users \<Rightarrow> wake_event option \<times> users" where
  "serve_reader pipe ps k u =
     (let t = uthreads u ! k in
      if ps \<noteq> None \<and> t_wait_buffer t \<noteq> 0 \<and> t_wait_size t \<noteq> 0 \<and>
         pp_read_offset (pipes u ! the ps) < pp_size (pipes u ! the ps) then
        let dest = as_translate (u_machine u) (t_root t) (t_wait_buffer t) in
        if dest = 0 then (None, u)
        else
          let p = pipes u ! the ps;
              to_copy = copy_size (t_wait_size t) (pp_size p - pp_read_offset p) dest in
          if to_copy = 0 then (None, u)
          else
            let (bs, p) = pipe_take to_copy p;
                u = with_mem (put_bytes dest bs) u;
                u = upd_pipe (the ps) (\<lambda>_. p) u;
                u = set_result k to_copy kSyscallErrorNone u
            in (Some (ReadResumed (t_tid t) bs), log_number ''Userspace pipe read resumed bytes'' to_copy u)
      else if \<not> pipe_has_live_writer u pipe then
        (Some (ReadEof (t_tid t)), log_number ''Userspace pipe read eof TID'' (t_tid t) (set_result k 0 kSyscallErrorNone u))
      else (None, u))"

definition serve_writer :: "u32 \<Rightarrow> nat option \<Rightarrow> nat \<Rightarrow> users \<Rightarrow> wake_event option \<times> users" where
  "serve_writer pipe ps k u =
     (let t = uthreads u ! k in
      if \<not> pipe_has_live_reader u pipe then
        (Some (WriteBroken (t_tid t)), log_number ''Userspace pipe write broken TID'' (t_tid t) (set_result k 0 kSyscallErrorNotFound u))
      else if ps \<noteq> None \<and> t_wait_buffer t \<noteq> 0 \<and> t_wait_size t \<noteq> 0 \<and> pp_size (pipes u ! the ps) < kPipeCapacity then
        let source = as_translate (u_machine u) (t_root t) (t_wait_buffer t) in
        if source = 0 then (None, u)
        else
          let p = pipes u ! the ps;
              to_copy = copy_size (t_wait_size t) (kPipeCapacity - pp_size p) source in
          if to_copy = 0 then (None, u)
          else
            let bs = get_bytes (m_mem (u_machine u)) source to_copy;
                u = upd_pipe (the ps) (pipe_put bs) u;
                u = set_result k to_copy kSyscallErrorNone u
            in (Some (WriteResumed (t_tid t) bs), log_number ''Userspace pipe write resumed bytes'' to_copy u)
      else (None, u))"

text \<open>A thread whose call has been completed runs again.\<close>

definition resume_waiter :: "wake_event \<Rightarrow> nat \<Rightarrow> users \<Rightarrow> users" where
  "resume_waiter ev k u =
     (let u = upd_uthread k (\<lambda>t. clear_wait (t\<lparr>t_state := TRunnable\<rparr>)) u;
          tid = t_tid (uthreads u ! k);
          u = (case ev of WriteBroken _ \<Rightarrow> u
               | WriteResumed _ _ \<Rightarrow> log_number ''Userspace pipe write resumed TID'' tid u
               | _ \<Rightarrow> log_number ''Userspace pipe read resumed TID'' tid u)
      in if is_read ev then
           let u = with_udiag (\<lambda>d. d\<lparr>pipe_read_wakes := pipe_read_wakes d + 1\<rparr>) u
           in log_number ''Userspace pipe read wake count'' (pipe_read_wakes (udiag u)) u
         else
           let u = with_udiag (\<lambda>d. d\<lparr>pipe_write_wakes := pipe_write_wakes d + 1\<rparr>) u
           in log_number ''Userspace pipe write wake count'' (pipe_write_wakes (udiag u)) u)"

definition waits_on :: "u32 \<Rightarrow> bool \<Rightarrow> bool \<Rightarrow> users \<Rightarrow> UserThread \<Rightarrow> bool" where
  "waits_on pipe readers writers u t \<longleftrightarrow> t_state t = TBlocked \<and> t_wait_pipe t = pipe \<and>
     ((readers \<and> t_block t = PipeReadBlock) \<or> (writers \<and> t_block t = PipeWriteBlock)) \<and>
     (case find_process u (t_pid t) of None \<Rightarrow> False | Some i \<Rightarrow> p_state (processes u ! i) = PRunnable)"

definition serve_waiter :: "u32 \<Rightarrow> nat option \<Rightarrow> bool \<Rightarrow> bool \<Rightarrow> nat \<Rightarrow> users \<Rightarrow> wake_event option \<times> users" where
  "serve_waiter pipe ps readers writers k u =
     (if \<not> waits_on pipe readers writers u (uthreads u ! k) then (None, u)
      else
        let (ev, u) = (if t_block (uthreads u ! k) = PipeReadBlock then serve_reader pipe ps k u else serve_writer pipe ps k u)
        in case ev of None \<Rightarrow> (None, u) | Some x \<Rightarrow> (Some x, resume_waiter x k u))"

fun wake_round :: "u32 \<Rightarrow> nat option \<Rightarrow> bool \<Rightarrow> bool \<Rightarrow> nat list \<Rightarrow> users \<Rightarrow> wake_event list \<times> users" where
  "wake_round pipe ps readers writers [] u = ([], u)"
| "wake_round pipe ps readers writers (k # ks) u =
     (let (ev, u) = serve_waiter pipe ps readers writers k u;
          (evs, u) = wake_round pipe ps readers writers ks u
      in ((case ev of None \<Rightarrow> evs | Some x \<Rightarrow> x # evs), u))"

text \<open>A completed read makes room for writers and a completed write feeds readers, so both are tried from then on, until
  a round completes nothing.\<close>

fun wake_rounds :: "u32 \<Rightarrow> nat option \<Rightarrow> nat \<Rightarrow> bool \<Rightarrow> bool \<Rightarrow> users \<Rightarrow> wake_event list \<times> users" where
  "wake_rounds pipe ps 0 readers writers u = ([], u)"
| "wake_rounds pipe ps (Suc n) readers writers u =
     (let (evs, u) = wake_round pipe ps readers writers [0..<length (uthreads u)] u;
          writers = (writers \<or> list_ex is_read evs);
          readers = (readers \<or> list_ex (\<lambda>x. \<not> is_read x) evs)
      in if evs = [] then ([], u)
         else let (more, u) = wake_rounds pipe ps n readers writers u in (evs @ more, u))"

definition wake_pipe_waiters :: "u32 \<Rightarrow> bool \<Rightarrow> bool \<Rightarrow> users \<Rightarrow> wake_event list \<times> users" where
  "wake_pipe_waiters pipe readers writers u =
     (if pipe = 0 then ([], u)
      else wake_rounds pipe (find_pipe u pipe) (length (uthreads u) * 2 + 1) readers writers u)"

section \<open>Waiting for processes and for the clock\<close>

text \<open>One thread that waits for the end of \<open>target\<close>; the result goes to the memory the thread has named.\<close>

definition wake_waiter :: "u64 \<Rightarrow> u64 \<Rightarrow> nat \<Rightarrow> nat \<times> users \<Rightarrow> nat \<times> users" where
  "wake_waiter target code k = (\<lambda>(woken, u).
     (let t = uthreads u ! k; skip = (woken, u) in
      if t_state t \<noteq> TBlocked \<or> t_block t \<noteq> ProcessWaitBlock then skip
      else case find_process u (t_pid t) of None \<Rightarrow> skip
      | Some w \<Rightarrow>
        if p_state (processes u ! w) \<noteq> PRunnable then skip
        else case find_process u target of None \<Rightarrow> skip
        | Some g \<Rightarrow>
          if p_parent (processes u ! g) \<noteq> p_pid (processes u ! w) then skip
          else
            let any = (t_wait_process t = 0) in
            if \<not> any \<and> t_wait_process t \<noteq> target then skip
            else
              let pointer = (if any then t_rdi t else t_rsi t);
                  sz = (if any then 16 else 8);
                  phys = as_translate (u_machine u) (t_root t) pointer in
              if pointer = 0 \<or> pointer AND 7 \<noteq> 0 \<or> phys = 0 \<or> kPageSize - sz < phys AND (kPageSize - 1) then skip
              else
                let u = (if any then with_mem (\<lambda>m. store64 (store64 m phys target) (phys + 8) code) u
                         else with_mem (\<lambda>m. store64 m phys code) u);
                    u = upd_uthread k (\<lambda>t. clear_wait (t\<lparr>t_rax := 1, t_rdx := kSyscallErrorNone, t_state := TRunnable\<rparr>)) u;
                    u = with_udiag (\<lambda>d. d\<lparr>process_wait_wakes := process_wait_wakes d + 1\<rparr>) u;
                    u = log_number ''Userspace wait wake count'' (process_wait_wakes (udiag u)) u
                in (Suc woken, u)))"

definition wake_process_waiters :: "u64 \<Rightarrow> u64 \<Rightarrow> users \<Rightarrow> nat \<times> users" where
  "wake_process_waiters target code u =
     (if target = 0 then (0, u) else fold (wake_waiter target code) [0..<length (uthreads u)] (0, u))"

definition wake_sleeper :: "u64 \<Rightarrow> nat \<Rightarrow> nat \<times> users \<Rightarrow> nat \<times> users" where
  "wake_sleeper now k = (\<lambda>(woken, u).
     (let t = uthreads u ! k in
      if t_state t \<noteq> TBlocked \<or> t_block t \<noteq> SleepBlock \<or> t_wait_tick t = 0 \<or> now < t_wait_tick t then (woken, u)
      else case find_process u (t_pid t) of None \<Rightarrow> (woken, u)
      | Some i \<Rightarrow>
        if p_state (processes u ! i) \<noteq> PRunnable then (woken, u)
        else
          let u = upd_uthread k (\<lambda>t. clear_wait (t\<lparr>t_rax := 0, t_rdx := kSyscallErrorNone, t_state := TRunnable\<rparr>)) u;
              u = with_udiag (\<lambda>d. d\<lparr>sleep_wakes := sleep_wakes d + 1\<rparr>) u;
              u = log_number ''Userspace sleep wake count'' (sleep_wakes (udiag u)) u
          in (Suc woken, u)))"

definition wake_user_sleepers :: "u64 \<Rightarrow> users \<Rightarrow> nat \<times> users" where
  "wake_user_sleepers now u = (if now = 0 then (0, u) else fold (wake_sleeper now) [0..<length (uthreads u)] (0, u))"

section \<open>Descriptors\<close>

definition upd_fd :: "nat \<Rightarrow> nat \<Rightarrow> (FileDescriptor \<Rightarrow> FileDescriptor) \<Rightarrow> users \<Rightarrow> users" where
  "upd_fd i d f u = upd_process i (\<lambda>p. p\<lparr>p_fds := (p_fds p)[d := f (p_fds p ! d)]\<rparr>) u"

definition with_fs :: "(vfs \<Rightarrow> vfs) \<Rightarrow> users \<Rightarrow> users" where
  "with_fs f u = u\<lparr>u_fs := f (u_fs u)\<rparr>"

definition close_process_descriptor :: "nat \<Rightarrow> nat \<Rightarrow> users \<Rightarrow> users" where
  "close_process_descriptor i d u =
     (let x = p_fds (processes u ! i) ! d in
      if \<not> fd_open x then u
      else let u = (if fd_kind x = VfsFd \<and> fd_handle x \<noteq> 0 then with_fs (\<lambda>v. snd (vfs_close (fd_handle x) v)) u else u)
        in upd_fd i d (\<lambda>_. empty_fd) u)"

definition sync_descriptor_offsets :: "nat \<Rightarrow> u32 \<Rightarrow> u64 \<Rightarrow> users \<Rightarrow> users" where
  "sync_descriptor_offsets i handle off u =
     (if handle = 0 then u
      else upd_process i (\<lambda>p. p\<lparr>p_fds := map (\<lambda>x. if fd_open x \<and> fd_kind x = VfsFd \<and> fd_handle x = handle
             then x\<lparr>fd_offset := off\<rparr> else x) (p_fds p)\<rparr>) u)"

definition copy_descriptor_path :: "cstr \<Rightarrow> string" where
  "copy_descriptor_path path = (case path of None \<Rightarrow> [] | Some p \<Rightarrow> take 63 p)"

definition make_vfs_descriptor :: "u32 \<Rightarrow> u32 \<Rightarrow> cstr \<Rightarrow> u64 \<Rightarrow> FileDescriptor" where
  "make_vfs_descriptor number handle path off = \<lparr>fd_number = number, fd_handle = handle, fd_pipe = 0, fd_offset = off,
     fd_kind = VfsFd, fd_open = True, fd_path = copy_descriptor_path path\<rparr>"

definition make_pipe_descriptor :: "u32 \<Rightarrow> u32 \<Rightarrow> bool \<Rightarrow> FileDescriptor" where
  "make_pipe_descriptor number pipe write_end = \<lparr>fd_number = number, fd_handle = 0, fd_pipe = pipe, fd_offset = 0,
     fd_kind = (if write_end then PipeWriteFd else PipeReadFd), fd_open = True, fd_path = []\<rparr>"

text \<open>The loop that closes every descriptor with a given number.\<close>

definition close_number :: "nat \<Rightarrow> u32 \<Rightarrow> users \<Rightarrow> users" where
  "close_number i number u =
     fold (\<lambda>d u. let x = p_fds (processes u ! i) ! d in
             if fd_open x \<and> fd_number x = number then close_process_descriptor i d u else u)
          [0..<length (p_fds (processes u ! i))] u"

definition free_fd :: "users \<Rightarrow> nat \<Rightarrow> nat option" where
  "free_fd u i = find_idx (\<lambda>x. \<not> fd_open x) (p_fds (processes u ! i))"

definition fd_index :: "users \<Rightarrow> nat \<Rightarrow> u32 \<Rightarrow> nat option" where
  "fd_index u i number = find_idx (\<lambda>x. fd_open x \<and> fd_number x = number) (p_fds (processes u ! i))"

definition open_handle :: "user_env \<Rightarrow> cstr \<Rightarrow> users \<Rightarrow> u32 \<times> users" where
  "open_handle e path u = (let (h, v) = vfs_open (e_vfs e) path (u_fs u) in (h, u\<lparr>u_fs := v\<rparr>))"

definition install_vfs_descriptor :: "user_env \<Rightarrow> nat \<Rightarrow> u32 \<Rightarrow> cstr \<Rightarrow> users \<Rightarrow> bool \<times> users" where
  "install_vfs_descriptor e i number path u =
     (let (handle, u) = open_handle e path u in
      if handle = 0 then (False, u)
      else let u = close_number i number u in
        case free_fd u i of
          Some d \<Rightarrow> (True, upd_fd i d (\<lambda>_. make_vfs_descriptor number handle path 0) u)
        | None \<Rightarrow> (False, with_fs (\<lambda>v. snd (vfs_close handle v)) u))"

definition install_default_standard_fds :: "user_env \<Rightarrow> nat \<Rightarrow> users \<Rightarrow> bool \<times> users" where
  "install_default_standard_fds e i u =
     (let (ok, u) = install_vfs_descriptor e i kStdinFd (Some ''/dev/tty'') u in
      if \<not> ok then (False, u)
      else let (ok, u) = install_vfs_descriptor e i kStdoutFd (Some ''/dev/tty'') u in
        if \<not> ok then (False, u) else install_vfs_descriptor e i kStderrFd (Some ''/dev/tty'') u)"

text \<open>The number of a new descriptor: the standard numbers are skipped when the counter wraps.\<close>

definition take_fd_number :: "nat \<Rightarrow> users \<Rightarrow> u32 \<times> users" where
  "take_fd_number i u =
     (let n = p_next_fd (processes u ! i);
          u = upd_process i (\<lambda>p. p\<lparr>p_next_fd := p_next_fd p + 1\<rparr>) u
      in if n < 3 then (p_next_fd (processes u ! i), upd_process i (\<lambda>p. p\<lparr>p_next_fd := p_next_fd p + 1\<rparr>) u) else (n, u))"

section \<open>Pipes between processes\<close>

definition cleanup_pipe_if_unreferenced :: "u32 \<Rightarrow> users \<Rightarrow> bool \<times> users" where
  "cleanup_pipe_if_unreferenced pipe u =
     (case find_pipe u pipe of None \<Rightarrow> (False, u)
      | Some k \<Rightarrow>
        let has_reader = pipe_has_live_reader u pipe; has_writer = pipe_has_live_writer u pipe in
        if has_reader \<or> has_writer then
          let u = (if \<not> has_reader then snd (wake_pipe_waiters pipe False True u) else u);
              u = (if \<not> has_writer then snd (wake_pipe_waiters pipe True False u) else u)
          in (True, u)
        else (True, upd_pipe k (\<lambda>_. empty_pipe) (snd (wake_pipe_waiters pipe True True u))))"

text \<open>The counter \<open>next_pipe_id\<close> is a static variable of \<open>create_pipe\<close>; zero is skipped when it wraps.\<close>

definition create_pipe :: "users \<Rightarrow> u32 \<times> users" where
  "create_pipe u =
     (case find_idx (\<lambda>p. \<not> pp_open p) (pipes u) of None \<Rightarrow> (0, u)
      | Some k \<Rightarrow>
        let n = next_pipe_id u;
            u = u\<lparr>next_pipe_id := next_pipe_id u + 1\<rparr>;
            (n, u) = (if n = 0 then (next_pipe_id u, u\<lparr>next_pipe_id := next_pipe_id u + 1\<rparr>) else (n, u))
        in (n, upd_pipe k (\<lambda>_. empty_pipe\<lparr>pp_id := n, pp_open := True\<rparr>) u))"

text \<open>The loop of \<open>attach_pipe_fd\<close> that makes room remembers the last pipe it closed.\<close>

definition close_replaced :: "nat \<Rightarrow> u32 \<Rightarrow> users \<Rightarrow> u32 \<times> users" where
  "close_replaced i number u =
     fold (\<lambda>d (replaced, u). let x = p_fds (processes u ! i) ! d in
             if fd_open x \<and> fd_number x = number
             then (if fd_kind x = PipeReadFd \<or> fd_kind x = PipeWriteFd then fd_pipe x else replaced, close_process_descriptor i d u)
             else (replaced, u))
          [0..<length (p_fds (processes u ! i))] (0, u)"

definition attach_pipe_fd :: "u64 \<Rightarrow> u32 \<Rightarrow> u32 \<Rightarrow> bool \<Rightarrow> users \<Rightarrow> bool \<times> users" where
  "attach_pipe_fd pid target_fd pipe write_end u =
     (if (if write_end then target_fd \<noteq> kStdoutFd \<and> target_fd \<noteq> kStderrFd else target_fd \<noteq> kStdinFd) then (False, u)
      else case find_live u pid of None \<Rightarrow> (False, u)
      | Some i \<Rightarrow>
        if find_pipe u pipe = None then (False, u)
        else
          let (replaced, u) = close_replaced i target_fd u;
              u = (if replaced \<noteq> 0 then snd (cleanup_pipe_if_unreferenced replaced u) else u)
          in case free_fd u i of None \<Rightarrow> (False, u)
             | Some d \<Rightarrow> (True, upd_fd i d (\<lambda>_. make_pipe_descriptor target_fd pipe write_end) u))"

definition close_pipe :: "u32 \<Rightarrow> users \<Rightarrow> bool \<times> users" where
  "close_pipe pipe u = cleanup_pipe_if_unreferenced pipe u"

text \<open>The lookups of the query functions: the first live process with the identifier.\<close>

definition live_entry :: "users \<Rightarrow> u64 \<Rightarrow> nat option" where
  "live_entry u pid = find_idx (\<lambda>p. p_pid p = pid \<and> live p) (processes u)"

definition has_open_file :: "users \<Rightarrow> u64 \<Rightarrow> u32 \<Rightarrow> bool" where
  "has_open_file u pid fd = (case live_entry u pid of None \<Rightarrow> False | Some i \<Rightarrow> fd_index u i fd \<noteq> None)"

definition is_pipe_fd :: "users \<Rightarrow> u64 \<Rightarrow> u32 \<Rightarrow> bool" where
  "is_pipe_fd u pid fd = (case live_entry u pid of None \<Rightarrow> False
     | Some i \<Rightarrow> (case fd_index u i fd of None \<Rightarrow> False
       | Some d \<Rightarrow> let x = p_fds (processes u ! i) ! d in fd_kind x = PipeReadFd \<or> fd_kind x = PipeWriteFd))"

definition pipe_read_would_block :: "users \<Rightarrow> u64 \<Rightarrow> u32 \<Rightarrow> bool" where
  "pipe_read_would_block u pid fd = (case live_entry u pid of None \<Rightarrow> False
     | Some i \<Rightarrow> (case find_idx (\<lambda>x. fd_open x \<and> fd_number x = fd \<and> fd_kind x = PipeReadFd) (p_fds (processes u ! i)) of
         None \<Rightarrow> False
       | Some d \<Rightarrow> let pipe = fd_pipe (p_fds (processes u ! i) ! d) in
           (case find_pipe u pipe of None \<Rightarrow> False
            | Some k \<Rightarrow> pp_size (pipes u ! k) \<le> pp_read_offset (pipes u ! k) \<and> pipe_has_live_writer u pipe)))"

definition pipe_write_would_block :: "users \<Rightarrow> u64 \<Rightarrow> u32 \<Rightarrow> bool" where
  "pipe_write_would_block u pid fd = (case live_entry u pid of None \<Rightarrow> False
     | Some i \<Rightarrow> (case find_idx (\<lambda>x. fd_open x \<and> fd_number x = fd \<and> fd_kind x = PipeWriteFd) (p_fds (processes u ! i)) of
         None \<Rightarrow> False
       | Some d \<Rightarrow> let pipe = fd_pipe (p_fds (processes u ! i) ! d) in
           (case find_pipe u pipe of None \<Rightarrow> False
            | Some k \<Rightarrow> kPipeCapacity \<le> pp_size (pipes u ! k) \<and> pipe_has_live_reader u pipe)))"

definition resolve_pipe_fd :: "users \<Rightarrow> u64 \<Rightarrow> u32 \<Rightarrow> bool \<Rightarrow> u32 option" where
  "resolve_pipe_fd u pid fd write_end = (case live_entry u pid of None \<Rightarrow> None
     | Some i \<Rightarrow> (case fd_index u i fd of None \<Rightarrow> None
       | Some d \<Rightarrow> let x = p_fds (processes u ! i) ! d; expected = (if write_end then PipeWriteFd else PipeReadFd) in
           if fd_kind x \<noteq> expected \<or> find_pipe u (fd_pipe x) = None then None else Some (fd_pipe x)))"

section \<open>Files\<close>

definition open_file :: "user_env \<Rightarrow> u64 \<Rightarrow> cstr \<Rightarrow> users \<Rightarrow> u32 \<times> users" where
  "open_file e pid path u =
     (case find_live u pid of None \<Rightarrow> (0, u)
      | Some i \<Rightarrow> (case resolve_process_path (p_cwd (processes u ! i)) path of None \<Rightarrow> (0, u)
        | Some resolved \<Rightarrow>
          let (handle, u) = open_handle e (Some resolved) u in
          if handle = 0 then (0, u)
          else case free_fd u i of
            Some d \<Rightarrow> let (n, u) = take_fd_number i u in (n, upd_fd i d (\<lambda>_. make_vfs_descriptor n handle (Some resolved) 0) u)
          | None \<Rightarrow> (0, with_fs (\<lambda>v. snd (vfs_close handle v)) u)))"

definition redirect_file :: "user_env \<Rightarrow> u64 \<Rightarrow> u32 \<Rightarrow> cstr \<Rightarrow> users \<Rightarrow> bool \<times> users" where
  "redirect_file e pid target_fd path u =
     (if target_fd \<noteq> kStdinFd \<and> target_fd \<noteq> kStdoutFd \<and> target_fd \<noteq> kStderrFd then (False, u)
      else case find_live u pid of None \<Rightarrow> (False, u)
      | Some i \<Rightarrow> (case resolve_process_path (p_cwd (processes u ! i)) path of None \<Rightarrow> (False, u)
        | Some resolved \<Rightarrow> install_vfs_descriptor e i target_fd (Some resolved) u))"

definition seek_file :: "user_env \<Rightarrow> u64 \<Rightarrow> u32 \<Rightarrow> u64 \<Rightarrow> users \<Rightarrow> bool \<times> users" where
  "seek_file e pid fd off u =
     (case find_live u pid of None \<Rightarrow> (False, u)
      | Some i \<Rightarrow> (case fd_index u i fd of None \<Rightarrow> (False, u)
        | Some d \<Rightarrow>
          let x = p_fds (processes u ! i) ! d in
          if fd_kind x \<noteq> VfsFd then (False, u)
          else let (ok, v) = seek_handle (e_vfs e) (fd_handle x) off (u_fs u); u = u\<lparr>u_fs := v\<rparr> in
            if \<not> ok then (False, u) else (True, sync_descriptor_offsets i (fd_handle x) off u)))"

definition redirect_file_append :: "user_env \<Rightarrow> u64 \<Rightarrow> u32 \<Rightarrow> cstr \<Rightarrow> users \<Rightarrow> bool \<times> users" where
  "redirect_file_append e pid target_fd path u =
     (if target_fd \<noteq> kStdoutFd \<and> target_fd \<noteq> kStderrFd then (False, u)
      else case find_live u pid of None \<Rightarrow> (False, u)
      | Some i \<Rightarrow> (case resolve_process_path (p_cwd (processes u ! i)) path of None \<Rightarrow> (False, u)
        | Some resolved \<Rightarrow>
          let end_offset = (case find_node (u_fs u) (Some resolved) of None \<Rightarrow> 0
                | Some n \<Rightarrow> (case n_ram_file (nodes (u_fs u) ! n) of Some f \<Rightarrow> rf_size (ram_files (u_fs u) ! f)
                            | None \<Rightarrow> n_size (nodes (u_fs u) ! n)));
              (ok, u) = redirect_file e pid target_fd path u
          in if \<not> ok then (False, u) else seek_file e pid target_fd end_offset u))"

text \<open>An operation on one or two paths of a process is the operation of the file system on the resolved paths.\<close>

definition on_path :: "u64 \<Rightarrow> cstr \<Rightarrow> (cstr \<Rightarrow> vfs \<Rightarrow> bool \<times> vfs) \<Rightarrow> users \<Rightarrow> bool \<times> users" where
  "on_path pid path f u =
     (case find_live u pid of None \<Rightarrow> (False, u)
      | Some i \<Rightarrow> (case resolve_process_path (p_cwd (processes u ! i)) path of None \<Rightarrow> (False, u)
        | Some p \<Rightarrow> let (ok, v) = f (Some p) (u_fs u) in (ok, u\<lparr>u_fs := v\<rparr>)))"

definition on_paths :: "u64 \<Rightarrow> cstr \<Rightarrow> cstr \<Rightarrow> (cstr \<Rightarrow> cstr \<Rightarrow> vfs \<Rightarrow> bool \<times> vfs) \<Rightarrow> users \<Rightarrow> bool \<times> users" where
  "on_paths pid path1 path2 f u =
     (case find_live u pid of None \<Rightarrow> (False, u)
      | Some i \<Rightarrow> (case (resolve_process_path (p_cwd (processes u ! i)) path1, resolve_process_path (p_cwd (processes u ! i)) path2) of
          (Some p, Some q) \<Rightarrow> let (ok, v) = f (Some p) (Some q) (u_fs u) in (ok, u\<lparr>u_fs := v\<rparr>)
        | _ \<Rightarrow> (False, u)))"

definition create_file :: "user_env \<Rightarrow> u64 \<Rightarrow> cstr \<Rightarrow> users \<Rightarrow> bool \<times> users" where
  "create_file e pid path = on_path pid path (create_ram_file (e_vfs e))"

definition create_directory :: "u64 \<Rightarrow> cstr \<Rightarrow> users \<Rightarrow> bool \<times> users" where
  "create_directory pid path = on_path pid path create_ram_directory"

definition link_file :: "user_env \<Rightarrow> u64 \<Rightarrow> cstr \<Rightarrow> cstr \<Rightarrow> users \<Rightarrow> bool \<times> users" where
  "link_file e pid existing_path new_path = on_paths pid existing_path new_path (link_ram_file (e_vfs e))"

definition truncate_file :: "user_env \<Rightarrow> u64 \<Rightarrow> cstr \<Rightarrow> u64 \<Rightarrow> users \<Rightarrow> bool \<times> users" where
  "truncate_file e pid path sz = on_path pid path (\<lambda>p. truncate_ram_file (e_vfs e) p sz)"

definition rename_path :: "u64 \<Rightarrow> cstr \<Rightarrow> cstr \<Rightarrow> users \<Rightarrow> bool \<times> users" where
  "rename_path pid old_path new_path = on_paths pid old_path new_path rename_ram_node"

definition delete_file :: "u64 \<Rightarrow> cstr \<Rightarrow> users \<Rightarrow> bool \<times> users" where
  "delete_file pid path = on_path pid path delete_ram_file"

definition delete_directory :: "u64 \<Rightarrow> cstr \<Rightarrow> users \<Rightarrow> bool \<times> users" where
  "delete_directory pid path = on_path pid path delete_ram_directory"

definition count_read :: "nat \<Rightarrow> u64 \<Rightarrow> users \<Rightarrow> users" where
  "count_read i n u = upd_process i (\<lambda>p. p\<lparr>p_counters := (p_counters p)\<lparr>c_read_syscalls := c_read_syscalls (p_counters p) + 1,
     c_read_bytes := c_read_bytes (p_counters p) + n\<rparr>\<rparr>) u"

definition count_write :: "nat \<Rightarrow> u64 \<Rightarrow> users \<Rightarrow> users" where
  "count_write i n u = upd_process i (\<lambda>p. p\<lparr>p_counters := (p_counters p)\<lparr>c_write_syscalls := c_write_syscalls (p_counters p) + 1,
     c_write_bytes := c_write_bytes (p_counters p) + n\<rparr>\<rparr>) u"

text \<open>The result of a read is the bytes copied to the buffer; \<open>evs\<close> are the calls of other threads that a pipe operation
  completes.\<close>

definition read_pipe :: "nat \<Rightarrow> u32 \<Rightarrow> u64 \<Rightarrow> users \<Rightarrow> (u8 list \<times> wake_event list) \<times> users" where
  "read_pipe i pipe sz u =
     (case find_pipe u pipe of None \<Rightarrow> (([], []), u)
      | Some k \<Rightarrow>
        let p = pipes u ! k in
        if pp_size p \<le> pp_read_offset p then (([], []), u)
        else
          let available = pp_size p - pp_read_offset p;
              to_copy = (if sz < available then sz else available);
              (bs, p) = pipe_take to_copy p;
              (evs, u) = wake_pipe_waiters pipe False True (upd_pipe k (\<lambda>_. p) u)
          in ((bs, evs), count_read i to_copy u))"

definition read_file :: "user_env \<Rightarrow> u64 \<Rightarrow> u32 \<Rightarrow> bool \<Rightarrow> u64 \<Rightarrow> users \<Rightarrow> (u8 list \<times> wake_event list) \<times> users" where
  "read_file e pid fd ok sz u =
     (case find_live u pid of None \<Rightarrow> (([], []), u)
      | Some i \<Rightarrow>
        if \<not> ok \<or> sz = 0 then (([], []), u)
        else case fd_index u i fd of None \<Rightarrow> (([], []), u)
        | Some d \<Rightarrow>
          let x = p_fds (processes u ! i) ! d in
          if fd_kind x = VfsFd then
            let (bs, v) = read_handle (e_vfs e) (fd_handle x) True sz (u_fs u);
                u = u\<lparr>u_fs := v\<rparr>;
                u = sync_descriptor_offsets i (fd_handle x) (handle_offset (u_fs u) (fd_handle x)) u
            in ((bs, []), count_read i (of_nat (length bs)) u)
          else if fd_kind x = PipeReadFd then read_pipe i (fd_pipe x) sz u
          else (([], []), u))"

definition write_pipe :: "nat \<Rightarrow> u32 \<Rightarrow> u8 list \<Rightarrow> users \<Rightarrow> (u64 \<times> wake_event list) \<times> users" where
  "write_pipe i pipe buf u =
     (if \<not> pipe_has_live_reader u pipe then ((0, []), u)
      else case find_pipe u pipe of None \<Rightarrow> ((0, []), u)
      | Some k \<Rightarrow>
        if kPipeCapacity \<le> pp_size (pipes u ! k) then ((0, []), u)
        else
          let available = kPipeCapacity - pp_size (pipes u ! k);
              sz = of_nat (length buf);
              to_copy = (if sz < available then sz else available);
              (evs, u) = wake_pipe_waiters pipe True False (upd_pipe k (pipe_put (take (unat to_copy) buf)) u)
          in ((to_copy, evs), count_write i to_copy u))"

definition write_file :: "user_env \<Rightarrow> u64 \<Rightarrow> u32 \<Rightarrow> bool \<Rightarrow> u8 list \<Rightarrow> users \<Rightarrow> (u64 \<times> wake_event list) \<times> users" where
  "write_file e pid fd ok buf u =
     (case find_live u pid of None \<Rightarrow> ((0, []), u)
      | Some i \<Rightarrow>
        if \<not> ok \<or> buf = [] then ((0, []), u)
        else case fd_index u i fd of None \<Rightarrow> ((0, []), u)
        | Some d \<Rightarrow>
          let x = p_fds (processes u ! i) ! d in
          if fd_kind x = VfsFd then
            let (n, v) = write_handle (e_vfs e) (fd_handle x) True buf (u_fs u);
                u = u\<lparr>u_fs := v\<rparr>;
                u = sync_descriptor_offsets i (fd_handle x) (handle_offset (u_fs u) (fd_handle x)) u
            in ((n, []), count_write i n u)
          else if fd_kind x = PipeWriteFd then write_pipe i (fd_pipe x) buf u
          else ((0, []), u))"

definition close_file :: "u64 \<Rightarrow> u32 \<Rightarrow> users \<Rightarrow> bool \<times> users" where
  "close_file pid fd u =
     (case find_process u pid of None \<Rightarrow> (False, u)
      | Some i \<Rightarrow> (case fd_index u i fd of None \<Rightarrow> (False, u)
        | Some d \<Rightarrow>
          let x = p_fds (processes u ! i) ! d;
              pipe = (if fd_kind x = PipeReadFd \<or> fd_kind x = PipeWriteFd then fd_pipe x else 0);
              u = close_process_descriptor i d u
          in (True, if pipe \<noteq> 0 then snd (cleanup_pipe_if_unreferenced pipe u) else u)))"

definition retain_source :: "FileDescriptor \<Rightarrow> users \<Rightarrow> bool \<times> users" where
  "retain_source x u =
     (if fd_kind x = VfsFd \<and> fd_handle x \<noteq> 0
      then let (ok, v) = retain_handle (fd_handle x) (u_fs u) in (ok, u\<lparr>u_fs := v\<rparr>) else (True, u))"

definition duplicate_file :: "u64 \<Rightarrow> u32 \<Rightarrow> users \<Rightarrow> u32 \<times> users" where
  "duplicate_file pid source_fd u =
     (case find_live u pid of None \<Rightarrow> (0, u)
      | Some i \<Rightarrow> (case fd_index u i source_fd of None \<Rightarrow> (0, u)
        | Some s \<Rightarrow> (case free_fd u i of None \<Rightarrow> (0, u)
          | Some d \<Rightarrow>
            let (n, u) = take_fd_number i u;
                x = p_fds (processes u ! i) ! s;
                (ok, u) = retain_source x u
            in if \<not> ok then (0, u) else (n, upd_fd i d (\<lambda>_. x\<lparr>fd_number := n\<rparr>) u))))"

definition duplicate_file_to :: "u64 \<Rightarrow> u32 \<Rightarrow> u32 \<Rightarrow> users \<Rightarrow> bool \<times> users" where
  "duplicate_file_to pid source_fd target_fd u =
     (if of_nat kMaxProcessFileDescriptors \<le> target_fd then (False, u)
      else case find_live u pid of None \<Rightarrow> (False, u)
      | Some i \<Rightarrow> (case fd_index u i source_fd of None \<Rightarrow> (False, u)
        | Some s \<Rightarrow>
          if source_fd = target_fd then (True, u)
          else
            let u = close_number i target_fd u in
            case free_fd u i of None \<Rightarrow> (False, u)
            | Some d \<Rightarrow>
              let x = p_fds (processes u ! i) ! s; (ok, u) = retain_source x u in
              if \<not> ok then (False, u)
              else
                let u = upd_fd i d (\<lambda>_. x\<lparr>fd_number := target_fd\<rparr>) u
                in (True, upd_process i (\<lambda>p. if p_next_fd p \<le> target_fd then p\<lparr>p_next_fd := target_fd + 1\<rparr> else p) u)))"

definition set_current_directory :: "u64 \<Rightarrow> cstr \<Rightarrow> users \<Rightarrow> bool \<times> users" where
  "set_current_directory pid path u =
     (case find_live u pid of None \<Rightarrow> (False, u)
      | Some i \<Rightarrow> (case resolve_process_path (p_cwd (processes u ! i)) path of None \<Rightarrow> (False, u)
        | Some p \<Rightarrow> if \<not> dir_exists (u_fs u) (Some p) then (False, u)
            else (True, upd_process i (\<lambda>q. q\<lparr>p_cwd := p\<rparr>) u)))"

definition copy_current_directory :: "users \<Rightarrow> u64 \<Rightarrow> string option" where
  "copy_current_directory u pid = (case live_entry u pid of None \<Rightarrow> None
     | Some i \<Rightarrow> let p = p_cwd (processes u ! i) in if p \<noteq> [] \<and> hd p = slash then Some p else None)"

section \<open>Arguments and environment\<close>

text \<open>A bounded copy fails when the text does not fit; \<open>copy_argument_bounded\<close> is the copy into 64 bytes. The bytes that fit
  are written first, in front of a terminating zero that is already there: \<open>truncated\<close> is what a failed copy leaves.\<close>

definition copy_text_bounded :: "nat \<Rightarrow> cstr \<Rightarrow> string option" where
  "copy_text_bounded n value = (case value of None \<Rightarrow> None | Some v \<Rightarrow> if v = [] \<or> n \<le> length v then None else Some v)"

definition truncated :: "nat \<Rightarrow> string \<Rightarrow> string" where "truncated n v = take (n - 1) v"

definition copy_argument_bounded :: "cstr \<Rightarrow> string option" where
  "copy_argument_bounded = copy_text_bounded kMaxArgumentLength"

definition valid_environment_key :: "cstr \<Rightarrow> bool" where
  "valid_environment_key key = (case key of None \<Rightarrow> False
     | Some k \<Rightarrow> k \<noteq> [] \<and> list_all (\<lambda>c. c \<noteq> CHR ''='' \<and>
         (let n = of_char c :: nat in (65 \<le> n \<and> n \<le> 90) \<or> (97 \<le> n \<and> n \<le> 122) \<or> (48 \<le> n \<and> n \<le> 57) \<or> c = CHR ''_'')) k)"

definition clear_arguments :: "Process \<Rightarrow> Process" where "clear_arguments p = p\<lparr>p_args := []\<rparr>"
definition clear_environment :: "Process \<Rightarrow> Process" where "clear_environment p = p\<lparr>p_env := []\<rparr>"

text \<open>\<open>args\<close> is the array of pointers, of which \<open>count\<close> are read, or null.\<close>

definition set_arguments :: "u64 \<Rightarrow> cstr list option \<Rightarrow> nat \<Rightarrow> users \<Rightarrow> bool \<times> users" where
  "set_arguments pid args count u =
     (case find_live u pid of None \<Rightarrow> (False, u)
      | Some i \<Rightarrow>
        if kMaxProcessArguments < count \<or> (0 < count \<and> args = None) then (False, u)
        else
          let copies = map (\<lambda>j. copy_argument_bounded (the args ! j)) [0..<count] in
          if None \<in> set copies then (False, upd_process i clear_arguments u)
          else (True, upd_process i (\<lambda>p. p\<lparr>p_args := map the copies\<rparr>) u))"

definition argument_count :: "users \<Rightarrow> u64 \<Rightarrow> nat" where
  "argument_count u pid = (case live_entry u pid of None \<Rightarrow> 0 | Some i \<Rightarrow> length (p_args (processes u ! i)))"

definition copy_argument :: "users \<Rightarrow> u64 \<Rightarrow> nat \<Rightarrow> string option" where
  "copy_argument u pid index = (case live_entry u pid of None \<Rightarrow> None
     | Some i \<Rightarrow> let xs = p_args (processes u ! i) in
         if length xs \<le> index then None else if xs ! index \<noteq> [] then Some (xs ! index) else None)"

definition copy_entry_bounded :: "cstr \<times> cstr \<Rightarrow> (string \<times> string) option" where
  "copy_entry_bounded = (\<lambda>(key, value).
     case (copy_text_bounded kMaxEnvironmentKeyLength key, copy_text_bounded kMaxEnvironmentValueLength value) of
       (Some k, Some v) \<Rightarrow> Some (k, v) | _ \<Rightarrow> None)"

definition set_environment :: "u64 \<Rightarrow> cstr list option \<Rightarrow> cstr list option \<Rightarrow> nat \<Rightarrow> users \<Rightarrow> bool \<times> users" where
  "set_environment pid ks vs count u =
     (case find_live u pid of None \<Rightarrow> (False, u)
      | Some i \<Rightarrow>
        if kMaxEnvironmentEntries < count \<or> (0 < count \<and> (ks = None \<or> vs = None)) then (False, u)
        else
          let copies = map (\<lambda>j. if valid_environment_key (the ks ! j) then copy_entry_bounded (the ks ! j, the vs ! j) else None) [0..<count] in
          if None \<in> set copies then (False, upd_process i clear_environment u)
          else (True, upd_process i (\<lambda>p. p\<lparr>p_env := map the copies\<rparr>) u))"

definition set_environment_variable :: "u64 \<Rightarrow> cstr \<Rightarrow> cstr \<Rightarrow> users \<Rightarrow> bool \<times> users" where
  "set_environment_variable pid key value u =
     (case find_live u pid of None \<Rightarrow> (False, u)
      | Some i \<Rightarrow>
        if \<not> valid_environment_key key \<or> value = None \<or> value = Some [] then (False, u)
        else
          (case find_idx (\<lambda>x. fst x = the key) (p_env (processes u ! i)) of
             Some k \<Rightarrow> (case copy_text_bounded kMaxEnvironmentValueLength value of
                 Some v \<Rightarrow> (True, upd_process i (\<lambda>p. p\<lparr>p_env := (p_env p)[k := (fst (p_env p ! k), v)]\<rparr>) u)
               | None \<Rightarrow> (False, upd_process i (\<lambda>p. p\<lparr>p_env := (p_env p)[k := (fst (p_env p ! k), truncated kMaxEnvironmentValueLength (the value))]\<rparr>) u))
           | None \<Rightarrow>
               if kMaxEnvironmentEntries \<le> length (p_env (processes u ! i)) then (False, u)
               else case copy_entry_bounded (key, value) of None \<Rightarrow> (False, u)
               | Some x \<Rightarrow> (True, upd_process i (\<lambda>p. p\<lparr>p_env := p_env p @ [x]\<rparr>) u)))"

definition unset_environment_variable :: "u64 \<Rightarrow> cstr \<Rightarrow> users \<Rightarrow> bool \<times> users" where
  "unset_environment_variable pid key u =
     (case find_live u pid of None \<Rightarrow> (False, u)
      | Some i \<Rightarrow>
        if \<not> valid_environment_key key then (False, u)
        else (case find_idx (\<lambda>x. fst x = the key) (p_env (processes u ! i)) of None \<Rightarrow> (False, u)
          | Some k \<Rightarrow> (True, upd_process i (\<lambda>p. p\<lparr>p_env := take k (p_env p) @ drop (Suc k) (p_env p)\<rparr>) u)))"

definition inherit_environment :: "u64 \<Rightarrow> u64 \<Rightarrow> users \<Rightarrow> bool \<times> users" where
  "inherit_environment child_pid parent_pid u =
     (case (find_process u child_pid, find_live u parent_pid) of
        (Some c, Some q) \<Rightarrow>
          let copies = map (\<lambda>(k, v). copy_entry_bounded (Some k, Some v)) (p_env (processes (upd_process c clear_environment u) ! q)) in
          if None \<in> set copies then (False, upd_process c clear_environment u)
          else (True, upd_process c (\<lambda>p. p\<lparr>p_env := map the copies\<rparr>) u)
      | _ \<Rightarrow> (False, u))"

definition environment_count :: "users \<Rightarrow> u64 \<Rightarrow> nat" where
  "environment_count u pid = (case live_entry u pid of None \<Rightarrow> 0 | Some i \<Rightarrow> length (p_env (processes u ! i)))"

definition copy_environment :: "users \<Rightarrow> u64 \<Rightarrow> nat \<Rightarrow> (string \<times> string) option" where
  "copy_environment u pid index = (case live_entry u pid of None \<Rightarrow> None
     | Some i \<Rightarrow> let xs = p_env (processes u ! i) in
         if length xs \<le> index then None
         else if fst (xs ! index) \<noteq> [] \<and> snd (xs ! index) \<noteq> [] then Some (xs ! index) else None)"

text \<open>One of the three standard descriptors; \<open>None\<close> goes on to the next. The source is read through its place in the
  parent, after the descriptors of the child have been closed.\<close>

definition inherit_fd :: "nat \<Rightarrow> nat \<Rightarrow> u32 \<Rightarrow> users \<Rightarrow> bool \<times> users" where
  "inherit_fd c q number u =
     (case fd_index u q number of None \<Rightarrow> (True, u)
      | Some s \<Rightarrow>
        let u = close_number c number u;
            x = p_fds (processes u ! q) ! s;
            install = (\<lambda>y u. case free_fd u c of Some d \<Rightarrow> (True, upd_fd c d (\<lambda>_. y) u)
              | None \<Rightarrow> (False, if fd_kind y = VfsFd \<and> fd_handle y \<noteq> 0 then with_fs (\<lambda>v. snd (vfs_close (fd_handle y) v)) u else u)) in
        if fd_kind x = VfsFd then
          if fd_path x = [] \<or> fd_handle x = 0 then (False, u)
          else let (ok, u) = retain_source x u in
            if \<not> ok then (False, u)
            else install (make_vfs_descriptor number (fd_handle x) (Some (fd_path x)) (handle_offset (u_fs u) (fd_handle x))) u
        else if fd_kind x = PipeReadFd \<or> fd_kind x = PipeWriteFd then
          if find_pipe u (fd_pipe x) = None then (False, u)
          else install (make_pipe_descriptor number (fd_pipe x) (fd_kind x = PipeWriteFd)) u
        else (True, u))"

definition inherit_standard_fds :: "u64 \<Rightarrow> u64 \<Rightarrow> users \<Rightarrow> bool \<times> users" where
  "inherit_standard_fds child_pid parent_pid u =
     (case (find_live u child_pid, find_live u parent_pid) of
        (Some c, Some q) \<Rightarrow>
          fold (\<lambda>number (ok, u). if ok then inherit_fd c q number u else (ok, u)) [kStdinFd, kStdoutFd, kStderrFd] (True, u)
      | _ \<Rightarrow> (False, u))"

section \<open>The life of a process\<close>

definition set_parent :: "u64 \<Rightarrow> u64 \<Rightarrow> users \<Rightarrow> bool \<times> users" where
  "set_parent pid parent_pid u =
     (case find_live u pid of None \<Rightarrow> (False, u)
      | Some i \<Rightarrow> if parent_pid \<noteq> 0 \<and> find_process u parent_pid = None then (False, u)
          else (True, upd_process i (\<lambda>p. p\<lparr>p_parent := parent_pid\<rparr>) u))"

definition set_process_group :: "u64 \<Rightarrow> u64 \<Rightarrow> u64 \<Rightarrow> users \<Rightarrow> bool \<times> users" where
  "set_process_group caller_pid pid grp u =
     (if caller_pid = 0 \<or> pid = 0 \<or> grp = 0 then (False, u)
      else case find_live u pid of None \<Rightarrow> (False, u)
      | Some i \<Rightarrow> let p = processes u ! i in
          if p_pid p \<noteq> caller_pid \<and> p_parent p \<noteq> caller_pid then (False, u)
          else (True, upd_process i (\<lambda>p. p\<lparr>p_group := grp\<rparr>) u))"

definition set_foreground_process_group :: "u64 \<Rightarrow> u64 \<Rightarrow> users \<Rightarrow> bool \<times> users" where
  "set_foreground_process_group caller_pid grp u =
     (if caller_pid = 0 then (False, u)
      else case find_live u caller_pid of None \<Rightarrow> (False, u)
      | Some c \<Rightarrow>
        let own = p_group (processes u ! c); target = (if grp = 0 then own else grp) in
        if target = 0 then (False, u)
        else if target = own \<or> (\<exists>p \<in> set (processes u). live p \<and> p_parent p = caller_pid \<and> p_group p = target)
        then (True, u\<lparr>foreground_group := target\<rparr>)
        else (False, u))"

text \<open>The pipes a process reads or writes, in the order of its descriptors.\<close>

definition pipes_of :: "FileDescriptorKind \<Rightarrow> Process \<Rightarrow> u32 list" where
  "pipes_of kind p = map fd_pipe (filter (\<lambda>x. fd_open x \<and> fd_pipe x \<noteq> 0 \<and> fd_kind x = kind) (p_fds p))"

definition exit_process :: "user_env \<Rightarrow> u64 \<Rightarrow> u64 \<Rightarrow> ProcessTerminationReason \<Rightarrow> users \<Rightarrow> bool \<times> users" where
  "exit_process e pid code reason u =
     (case find_live u pid of None \<Rightarrow> (False, u)
      | Some i \<Rightarrow>
        let reader_pipes = pipes_of PipeReadFd (processes u ! i);
            writer_pipes = pipes_of PipeWriteFd (processes u ! i);
            u = upd_process i (\<lambda>p. p\<lparr>p_state := PExited, p_exit_code := code, p_reason := reason\<rparr>) u;
            u = (case find_thread u (p_main_thread (processes u ! i)) of None \<Rightarrow> u
                 | Some k \<Rightarrow> if t_state (uthreads u ! k) \<noteq> TExited then upd_uthread k (\<lambda>t. t\<lparr>t_state := TExited\<rparr>) u else u);
            u = fold (\<lambda>pipe u. snd (wake_pipe_waiters pipe False True u)) reader_pipes u;
            u = fold (\<lambda>pipe u. snd (wake_pipe_waiters pipe True False u)) writer_pipes u;
            u = snd (wake_process_waiters (p_pid (processes u ! i)) (p_exit_code (processes u ! i)) u);
            u = (if active_tid u = p_main_thread (processes u ! i) then u\<lparr>active_tid := 0\<rparr> else u);
            u = (if active_pid u = p_pid (processes u ! i) then u\<lparr>active_pid := 0\<rparr> else u)
        in update_user_preemption_gate e u)"

definition kill_process_group :: "user_env \<Rightarrow> u64 \<Rightarrow> u64 \<Rightarrow> u64 \<Rightarrow> ProcessTerminationReason \<Rightarrow> users \<Rightarrow> nat \<times> users" where
  "kill_process_group e caller_pid grp code reason u =
     (if caller_pid = 0 \<or> grp = 0 then (0, u)
      else case find_live u caller_pid of None \<Rightarrow> (0, u)
      | Some c \<Rightarrow>
        fold (\<lambda>i (killed, u).
            let p = processes u ! i; parent = p_parent (processes u ! c) in
            if \<not> live p \<or> p_group p \<noteq> grp \<or> p_pid p = caller_pid then (killed, u)
            else if p_parent p \<noteq> caller_pid \<and> \<not> (parent \<noteq> 0 \<and> p_parent p = parent) then (killed, u)
            else let (ok, u) = exit_process e (p_pid p) code reason u in (if ok then Suc killed else killed, u))
          [0..<length (processes u)] (0, u))"

text \<open>The processes \<open>stop_process_group\<close> and \<open>continue_process_group\<close> act on: the children of the caller in the group.\<close>

definition in_group :: "u64 \<Rightarrow> u64 \<Rightarrow> Process \<Rightarrow> bool" where
  "in_group caller_pid grp p \<longleftrightarrow> live p \<and> p_group p = grp \<and> p_pid p \<noteq> caller_pid \<and> p_parent p = caller_pid"

definition stop_process_group :: "u64 \<Rightarrow> u64 \<Rightarrow> users \<Rightarrow> nat \<times> users" where
  "stop_process_group caller_pid grp u =
     (if caller_pid = 0 \<or> grp = 0 then (0, u)
      else fold (\<lambda>i (stopped, u).
          let p = processes u ! i in
          if \<not> in_group caller_pid grp p \<or> p_state p \<noteq> PRunnable then (stopped, u)
          else
            let u = upd_process i (\<lambda>p. p\<lparr>p_state := PStopped\<rparr>) u;
                u = (case find_thread u (p_main_thread p) of None \<Rightarrow> u
                     | Some k \<Rightarrow> if t_state (uthreads u ! k) = TRunning then upd_uthread k (\<lambda>t. t\<lparr>t_state := TRunnable\<rparr>) u else u);
                u = (if active_pid u = p_pid p then u\<lparr>active_pid := 0\<rparr> else u);
                u = (if active_tid u = p_main_thread p then u\<lparr>active_tid := 0\<rparr> else u)
            in (Suc stopped, u))
        [0..<length (processes u)] (0, u))"

definition continue_process_group :: "user_env \<Rightarrow> u64 \<Rightarrow> u64 \<Rightarrow> users \<Rightarrow> nat \<times> users" where
  "continue_process_group e caller_pid grp u =
     (if caller_pid = 0 \<or> grp = 0 then (0, u)
      else
        let (continued, u) = fold (\<lambda>i (continued, u).
              if \<not> in_group caller_pid grp (processes u ! i) \<or> p_state (processes u ! i) \<noteq> PStopped then (continued, u)
              else (Suc continued, upd_process i (\<lambda>p. p\<lparr>p_state := PRunnable\<rparr>) u))
            [0..<length (processes u)] (0, u)
        in if continued = 0 then (0, u)
           else let (ok, u) = update_user_preemption_gate e u in if \<not> ok then (0, u) else (continued, u))"

definition wait_process :: "users \<Rightarrow> u64 \<Rightarrow> u64 \<Rightarrow> u64 option" where
  "wait_process u waiter_pid target_pid =
     (case find_process u target_pid of None \<Rightarrow> None
      | Some i \<Rightarrow> let p = processes u ! i in
          if p_parent p \<noteq> waiter_pid then None
          else if p_state p \<noteq> PExited then None else Some (p_exit_code p))"

definition wait_any_process :: "users \<Rightarrow> u64 \<Rightarrow> (u64 \<times> u64) option" where
  "wait_any_process u waiter_pid =
     (if waiter_pid = 0 then None
      else case find_idx (\<lambda>p. p_parent p = waiter_pid \<and> p_state p = PExited) (processes u) of None \<Rightarrow> None
      | Some i \<Rightarrow> Some (p_pid (processes u ! i), p_exit_code (processes u ! i)))"

definition process_wait_would_block :: "users \<Rightarrow> u64 \<Rightarrow> u64 \<Rightarrow> bool" where
  "process_wait_would_block u waiter_pid target_pid =
     (if waiter_pid = 0 \<or> target_pid = 0 then False
      else case find_process u target_pid of None \<Rightarrow> False
      | Some i \<Rightarrow> p_parent (processes u ! i) = waiter_pid \<and> p_state (processes u ! i) \<noteq> PExited)"

text \<open>What reaping does to the threads of the process, and what is left of the process itself: its number, its exit code
  and its counters.\<close>

definition reap_thread :: "u64 \<Rightarrow> nat \<Rightarrow> users \<Rightarrow> users" where
  "reap_thread pid k u =
     (let t = uthreads u ! k in
      if t_pid t \<noteq> pid \<or> t_state t = TEmpty then u
      else
        let u = (if active_tid u = t_tid t then u\<lparr>active_tid := 0\<rparr> else u);
            u = (if last_selected_tid u = t_tid t then u\<lparr>last_selected_tid := 0\<rparr> else u)
        in upd_uthread k (\<lambda>_. empty_thread) u)"

definition clear_process :: "Process \<Rightarrow> Process" where
  "clear_process p = p\<lparr>p_state := PEmpty, p_name := None, p_parent := 0, p_group := 0, p_entry := 0, p_root := 0, p_stack_top := 0,
     p_stack_pages := 0, p_image_base := 0, p_image_pages := 0, p_main_thread := 0, p_next_fd := 3, p_reason := NotTerminated,
     p_cwd := [], p_args := [], p_env := [], p_owns_space := False\<rparr>"

definition reap_exited :: "user_env \<Rightarrow> u64 \<Rightarrow> users \<Rightarrow> bool \<times> users" where
  "reap_exited e pid u =
     (case find_process u pid of None \<Rightarrow> (False, u)
      | Some i \<Rightarrow>
        if p_state (processes u ! i) \<noteq> PExited then (False, u)
        else
          let (closed_pipes, u) = fold (\<lambda>d (closed, u).
                let x = p_fds (processes u ! i) ! d in
                (if fd_open x \<and> (fd_kind x = PipeReadFd \<or> fd_kind x = PipeWriteFd) then closed @ [fd_pipe x] else closed,
                 close_process_descriptor i d u))
                [0..<length (p_fds (processes u ! i))] ([], u);
              u = fold (\<lambda>pipe u. snd (cleanup_pipe_if_unreferenced pipe u)) closed_pipes u;
              u = u\<lparr>u_machine := fold (\<lambda>(virt, phys). m_free_page phys) (p_owned (processes u ! i)) (u_machine u)\<rparr>;
              u = upd_process i (\<lambda>p. p\<lparr>p_owned := []\<rparr>) u;
              u = (if p_owns_space (processes u ! i) \<and> p_root (processes u ! i) \<noteq> 0
                   then u\<lparr>u_machine := snd (destroy_address_space (u_machine u) (p_root (processes u ! i)))\<rparr> else u);
              u = fold (reap_thread (p_pid (processes u ! i))) [0..<length (uthreads u)] u;
              u = (if active_pid u = p_pid (processes u ! i) then u\<lparr>active_pid := 0\<rparr> else u);
              u = upd_process i clear_process u
          in update_user_preemption_gate e u)"

definition save_current_context :: "users \<Rightarrow> UserExecutionContext option" where
  "save_current_context u =
     (let tid = current_tid u; pid = current_pid u in
      if tid = 0 \<or> pid = 0 then None
      else case (find_idx (\<lambda>t. t_tid t = tid \<and> t_state t \<noteq> TEmpty \<and> t_pid t = pid) (uthreads u),
                 find_idx (\<lambda>p. p_pid p = pid \<and> p_state p = PRunnable) (processes u)) of
        (Some k, Some i) \<Rightarrow>
          if t_root (uthreads u ! k) = 0 then None
          else Some \<lparr>x_tid = t_tid (uthreads u ! k), x_pid = p_pid (processes u ! i), x_cr3 = t_root (uthreads u ! k), x_valid = True\<rparr>
      | _ \<Rightarrow> None)"

definition restore_context :: "UserExecutionContext \<Rightarrow> users \<Rightarrow> bool \<times> users" where
  "restore_context c u =
     (if \<not> x_valid c \<or> x_tid c = 0 \<or> x_pid c = 0 \<or> x_cr3 c = 0 then (False, u)
      else case (find_thread u (x_tid c), find_process u (x_pid c)) of
        (Some k, Some i) \<Rightarrow>
          let t = uthreads u ! k; p = processes u ! i in
          if t_pid t \<noteq> p_pid p \<or> t_root t \<noteq> x_cr3 c then (False, u)
          else if p_state p \<noteq> PRunnable then (False, u)
          else if t_state t = TExited \<or> t_state t = TEmpty then (False, u)
          else activate_thread (x_tid c) u
      | _ \<Rightarrow> (False, u))"

section \<open>Making a process\<close>

text \<open>The pages from \<open>lo\<close> up to \<open>hi\<close>, both page aligned.\<close>

definition page_steps :: "u64 \<Rightarrow> u64 \<Rightarrow> u64 list" where
  "page_steps lo hi = map (\<lambda>k. lo + of_nat k * kPageSize) [0..<(unat hi - unat lo + 4095) div 4096]"

definition PageWriteThrough :: u64 where "PageWriteThrough = push_bit 3 1"
definition PageCacheDisable :: u64 where "PageCacheDisable = push_bit 4 1"

definition map_if_absent :: "u64 \<Rightarrow> u64 \<Rightarrow> u64 \<Rightarrow> machine \<Rightarrow> bool \<times> machine" where
  "map_if_absent space flags virt m =
     (if as_translate m space virt \<noteq> 0 then (True, m)
      else let (r, m) = as_map_page m space virt virt flags in (mr_ok r, m))"

definition map_kernel_identity_window :: "u64 \<Rightarrow> u64 \<Rightarrow> machine \<Rightarrow> bool \<times> machine" where
  "map_kernel_identity_window space required_limit m =
     (let limit = (if required_limit < 256 * 1024 * 1024 then 256 * 1024 * 1024 else required_limit)
      in each_ok (map_if_absent space PageWrite) (page_steps 0 (align_up limit kPageSize)) m)"

definition map_supervisor_range :: "u64 \<Rightarrow> u64 \<Rightarrow> u64 \<Rightarrow> u64 \<Rightarrow> machine \<Rightarrow> bool \<times> machine" where
  "map_supervisor_range space base len flags m =
     (if base = 0 \<or> len = 0 then (True, m)
      else each_ok (map_if_absent space flags) (page_steps (align_down base kPageSize) (align_up (base + len) kPageSize)) m)"

definition map_kernel_runtime_ranges :: "user_env \<Rightarrow> u64 \<Rightarrow> u64 \<Rightarrow> machine \<Rightarrow> bool \<times> machine" where
  "map_kernel_runtime_ranges e space required m =
     (let (ok, m) = map_kernel_identity_window space required m in
      if \<not> ok then (False, m)
      else let fb = e_framebuffer e;
               len = ucast (fb_pixels_per_scanline fb) * ucast (fb_height fb) * ucast (fb_bytes_per_pixel fb)
        in map_supervisor_range space (fb_base fb) len (PageWrite OR PageCacheDisable OR PageWriteThrough) m)"

definition track_page :: "u64 \<Rightarrow> u64 \<Rightarrow> (u64 \<times> u64) list \<Rightarrow> (bool \<times> (u64 \<times> u64) list)" where
  "track_page virt phys owned = (if kMaxOwnedUserPages \<le> length owned then (False, owned) else (True, owned @ [(virt, phys)]))"

text \<open>One page of user memory: a frame, filled by \<open>fill\<close>, mapped and tracked.\<close>

definition user_page :: "u64 \<Rightarrow> u64 \<Rightarrow> u64 \<Rightarrow> (u64 \<Rightarrow> mem \<Rightarrow> mem) \<Rightarrow> (u64 \<times> u64) list \<times> machine \<Rightarrow> bool \<times> (u64 \<times> u64) list \<times> machine" where
  "user_page space virt flags fill = (\<lambda>(owned, m).
     (let (phys, m) = m_allocate_page m in
      if phys = 0 then (False, owned, m)
      else
        let m = m\<lparr>m_mem := fill phys (m_mem m)\<rparr>;
            (r, m) = as_map_page m space virt phys flags in
        if \<not> mr_ok r then (False, owned, m)
        else let (ok, owned) = track_page virt phys owned in (ok, owned, m)))"

definition zero_page :: "u64 \<Rightarrow> mem \<Rightarrow> mem" where
  "zero_page phys m = memset m phys 0 kPageSize"

definition user_stack :: "u64 \<Rightarrow> (u64 \<Rightarrow> mem \<Rightarrow> mem) \<Rightarrow> (u64 \<times> u64) list \<times> machine \<Rightarrow> bool \<times> (u64 \<times> u64) list \<times> machine" where
  "user_stack space fill = each_ok (\<lambda>i. user_page space (kDefaultUserStackTop - (i + 1) * kPageSize) (PageWrite OR PageUser) fill)
     (wrange 0 kDefaultUserStackPages)"

text \<open>The entry of a new process: its number and group, the root directory, the main thread and the standard
  descriptors. A process whose thread or descriptors cannot be made keeps its entry.\<close>

definition install_process :: "user_env \<Rightarrow> bool \<Rightarrow> Process \<Rightarrow> users \<Rightarrow> nat option \<times> users" where
  "install_process e with_thread p u =
     (case allocate_process_slot u of None \<Rightarrow> (None, u)
      | Some (i, u) \<Rightarrow>
        let pid = next_pid u;
            u = u\<lparr>next_pid := next_pid u + 1\<rparr>;
            u = upd_process i (\<lambda>_. p\<lparr>p_pid := pid, p_group := pid, p_state := PCreated, p_next_fd := 3, p_cwd := ''/''\<rparr>) u;
            (ok, u) = (if with_thread then create_main_thread i u else (True, u))
        in if \<not> ok then (None, u)
           else let (ok, u) = install_default_standard_fds e i u in if ok then (Some i, u) else (None, u))"

definition create_process :: "user_env \<Rightarrow> cstr \<Rightarrow> u64 \<Rightarrow> users \<Rightarrow> nat option \<times> users" where
  "create_process e name entry u =
     (if entry = 0 then (None, u)
      else
        let (space, m) = create_address_space (u_machine u) in
        if space = 0 then (None, u\<lparr>u_machine := m\<rparr>)
        else
          let (ok, owned, m) = user_stack space (\<lambda>_ m. m) ([], m) in
          if \<not> ok then (None, u\<lparr>u_machine := m\<rparr>)
          else
            let (ok, m) = map_kernel_runtime_ranges e space (entry + kPageSize) m;
                u = u\<lparr>u_machine := m\<rparr> in
            if \<not> ok then (None, u)
            else install_process e True (empty_process\<lparr>p_name := name, p_entry := entry, p_root := space,
                   p_stack_top := kDefaultUserStackTop, p_stack_pages := kDefaultUserStackPages, p_owned := owned,
                   p_owns_space := True\<rparr>) u)"

definition create_process_stub :: "user_env \<Rightarrow> cstr \<Rightarrow> u64 \<Rightarrow> u64 \<Rightarrow> users \<Rightarrow> nat option \<times> users" where
  "create_process_stub e name entry root u =
     (if entry = 0 then (None, u)
      else install_process e False (empty_process\<lparr>p_name := name, p_entry := entry, p_root := root\<rparr>) u)"

subsection \<open>Loading an ELF image\<close>

text \<open>The headers of the image, read from the memory it stands in before the frames of the segments are filled.\<close>

record Elf64_Ehdr =
  eh_ident :: "u8 list"
  eh_machine :: u64
  eh_entry :: u64
  eh_phoff :: u64
  eh_phentsize :: u64
  eh_phnum :: u64

record Elf64_Phdr =
  ph_type :: u64
  ph_flags :: u64
  ph_offset :: u64
  ph_vaddr :: u64
  ph_filesz :: u64
  ph_memsz :: u64

definition elf_header :: "mem \<Rightarrow> u64 \<Rightarrow> Elf64_Ehdr" where
  "elf_header m a = \<lparr>eh_ident = get_bytes m a 16, eh_machine = load_le m (a + 18) 2, eh_entry = load_le m (a + 24) 8,
     eh_phoff = load_le m (a + 32) 8, eh_phentsize = load_le m (a + 54) 2, eh_phnum = load_le m (a + 56) 2\<rparr>"

definition program_header :: "mem \<Rightarrow> u64 \<Rightarrow> Elf64_Phdr" where
  "program_header m a = \<lparr>ph_type = load_le m a 4, ph_flags = load_le m (a + 4) 4, ph_offset = load_le m (a + 8) 8,
     ph_vaddr = load_le m (a + 16) 8, ph_filesz = load_le m (a + 32) 8, ph_memsz = load_le m (a + 40) 8\<rparr>"

definition kElfLoad :: u64 where "kElfLoad = 1"
definition kElfExecute :: u64 where "kElfExecute = 1"
definition kElfWrite :: u64 where "kElfWrite = 2"

definition valid_elf64 :: "Elf64_Ehdr \<Rightarrow> u64 \<Rightarrow> bool" where
  "valid_elf64 eh sz \<longleftrightarrow> 64 \<le> sz \<and> take 6 (eh_ident eh) = [0x7f, 0x45, 0x4c, 0x46, 2, 1] \<and>
     eh_machine eh = 62 \<and> eh_phentsize eh = 56 \<and> eh_phoff eh + eh_phnum eh * 56 \<le> sz"

definition elf_copy :: "u64 \<Rightarrow> Elf64_Phdr \<Rightarrow> u64 \<Rightarrow> u64 \<Rightarrow> mem \<Rightarrow> mem" where
  "elf_copy img ph virt phys m =
     (let m = zero_page phys m;
          copy_start = (if ph_vaddr ph < virt then virt else ph_vaddr ph);
          file_end = ph_vaddr ph + ph_filesz ph;
          copy_end = (if virt + kPageSize < file_end then virt + kPageSize else file_end)
      in if copy_start < copy_end
         then memcpy m (phys + (copy_start - virt)) (img + ph_offset ph + (copy_start - ph_vaddr ph)) (copy_end - copy_start)
         else m)"

definition elf_flags :: "Elf64_Phdr \<Rightarrow> u64" where
  "elf_flags ph =
     (let flags = PageUser;
          flags = (if ph_flags ph AND kElfWrite \<noteq> 0 then flags OR PageWrite else flags)
      in if ph_flags ph AND kElfExecute = 0 then flags OR PageNoExecute else flags)"

text \<open>What the loop over the program headers builds up.\<close>

record elf_load =
  first_vaddr :: u64
  last_vaddr :: u64
  loaded_pages :: u64
  el_owned :: "(u64 \<times> u64) list"
  el_machine :: machine

definition elf_page :: "u64 \<Rightarrow> u64 \<Rightarrow> Elf64_Phdr \<Rightarrow> u64 \<Rightarrow> elf_load \<Rightarrow> bool \<times> elf_load" where
  "elf_page space img ph virt s =
     (let (ok, owned, m) = user_page space virt (elf_flags ph) (elf_copy img ph virt) (el_owned s, el_machine s);
          s = s\<lparr>el_owned := owned, el_machine := m\<rparr>
      in if ok then (True, s\<lparr>loaded_pages := loaded_pages s + 1\<rparr>) else (False, s))"

definition elf_segment :: "u64 \<Rightarrow> u64 \<Rightarrow> u64 \<Rightarrow> Elf64_Phdr \<Rightarrow> elf_load \<Rightarrow> bool \<times> elf_load" where
  "elf_segment space img image_size ph s =
     (if ph_type ph \<noteq> kElfLoad then (True, s)
      else if ph_memsz ph < ph_filesz ph then (False, s)
      else if image_size < ph_offset ph + ph_filesz ph then (False, s)
      else
        let seg_start = align_down (ph_vaddr ph) kPageSize;
            seg_end = align_up (ph_vaddr ph + ph_memsz ph) kPageSize;
            s = (if seg_start < first_vaddr s then s\<lparr>first_vaddr := seg_start\<rparr> else s);
            s = (if last_vaddr s < seg_end then s\<lparr>last_vaddr := seg_end\<rparr> else s)
        in each_ok (elf_page space img ph) (page_steps seg_start seg_end) s)"

definition create_process_from_elf :: "user_env \<Rightarrow> cstr \<Rightarrow> u64 \<Rightarrow> u64 \<Rightarrow> users \<Rightarrow> nat option \<times> users" where
  "create_process_from_elf e name image_base image_size u =
     (let mem = m_mem (u_machine u); eh = elf_header mem image_base in
      if image_base = 0 \<or> \<not> valid_elf64 eh image_size \<or> eh_entry eh = 0 then (None, u)
      else
        let (space, m) = create_address_space (u_machine u) in
        if space = 0 then (None, u\<lparr>u_machine := m\<rparr>)
        else
          let headers = map (\<lambda>i. program_header mem (image_base + eh_phoff eh + i * 56)) (wrange 0 (eh_phnum eh));
              (ok, s) = each_ok (elf_segment space image_base image_size) headers
                \<lparr>first_vaddr = - 1, last_vaddr = 0, loaded_pages = 0, el_owned = [], el_machine = m\<rparr> in
          if \<not> ok \<or> loaded_pages s = 0 \<or> eh_entry eh < first_vaddr s \<or> last_vaddr s \<le> eh_entry eh
          then (None, u\<lparr>u_machine := el_machine s\<rparr>)
          else
            let (ok, owned, m) = user_stack space zero_page (el_owned s, el_machine s) in
            if \<not> ok then (None, u\<lparr>u_machine := m\<rparr>)
            else
              let (ok, m) = map_kernel_runtime_ranges e space (image_base + image_size) m;
                  u = u\<lparr>u_machine := m\<rparr> in
              if \<not> ok then (None, u)
              else install_process e True (empty_process\<lparr>p_name := name, p_entry := eh_entry eh, p_root := space,
                     p_stack_top := kDefaultUserStackTop, p_stack_pages := kDefaultUserStackPages,
                     p_image_base := first_vaddr s, p_image_pages := loaded_pages s, p_owned := owned,
                     p_owns_space := True\<rparr>) u)"

definition validate_process_mappings :: "users \<Rightarrow> Process \<Rightarrow> bool" where
  "validate_process_mappings u p =
     (if p_root p = 0 \<or> p_entry p = 0 \<or> p_stack_top p = 0 then False
      else case find_thread u (p_main_thread p) of None \<Rightarrow> False
      | Some k \<Rightarrow>
        let t = uthreads u ! k; m = u_machine u;
            entry_flags = page_flags m (p_root p) (p_entry p);
            stack_flags = page_flags m (p_root p) (p_stack_top p - 8)
        in t_pid t = p_pid p \<and> t_entry t = p_entry p \<and> t_root t = p_root p \<and> t_sp t < p_stack_top p \<and>
           as_translate m (p_root p) (p_entry p) \<noteq> 0 \<and> as_translate m (p_root p) (p_stack_top p - 8) \<noteq> 0 \<and>
           entry_flags AND PageUser \<noteq> 0 \<and> entry_flags AND PageNoExecute = 0 \<and>
           stack_flags AND PageUser \<noteq> 0 \<and> stack_flags AND PageWrite \<noteq> 0)"

section \<open>Launching threads\<close>

definition kUserCodeSelector :: u16 where "kUserCodeSelector = 0x23"
definition kUserDataSelector :: u16 where "kUserDataSelector = 0x1b"

definition build_launch_context :: "users \<Rightarrow> u64 \<Rightarrow> UserLaunchContext option" where
  "build_launch_context u tid =
     (case find_thread u tid of None \<Rightarrow> None
      | Some k \<Rightarrow>
        let t = uthreads u ! k in
        if t_state t \<noteq> TRunnable \<and> t_state t \<noteq> TRunning then None
        else case find_process u (t_pid t) of None \<Rightarrow> None
        | Some i \<Rightarrow>
          if p_state (processes u ! i) \<noteq> PRunnable then None
          else if as_translate (u_machine u) (t_root t) (t_entry t) = 0 \<or> as_translate (u_machine u) (t_root t) (t_sp t) = 0 then None
          else Some \<lparr>l_tid = t_tid t, l_pid = t_pid t, l_rip = t_entry t, l_rsp = t_sp t, l_cr3 = t_root t, l_cs = kUserCodeSelector,
                 l_ss = kUserDataSelector, l_rflags = (if t_rflags t \<noteq> 0 then t_rflags t else 0x202)\<rparr>)"

text \<open>The index one step of the search looks at, in the arithmetic of the source.\<close>

definition pick_index :: "users \<Rightarrow> nat \<Rightarrow> nat" where
  "pick_index u s = unat ((last_user_pick_index u + of_nat s) mod of_nat (length (uthreads u)))"

definition pickable :: "users \<Rightarrow> nat \<Rightarrow> bool" where
  "pickable u k \<longleftrightarrow> t_state (uthreads u ! k) = TRunnable \<and>
     (case find_process u (t_pid (uthreads u ! k)) of None \<Rightarrow> False | Some i \<Rightarrow> p_state (processes u ! i) = PRunnable)"

definition select_next_runnable_thread :: "users \<Rightarrow> UserLaunchContext option \<times> users" where
  "select_next_runnable_thread u =
     (if uthreads u = [] then (None, u)
      else case find (pickable u) (map (pick_index u) [1..<Suc (length (uthreads u))]) of None \<Rightarrow> (None, u)
      | Some k \<Rightarrow> (case build_launch_context u (t_tid (uthreads u ! k)) of None \<Rightarrow> (None, u)
        | Some c \<Rightarrow> (Some c, u\<lparr>last_user_pick_index := of_nat k, last_selected_tid := t_tid (uthreads u ! k)\<rparr>)))"

definition build_process_launch_context :: "users \<Rightarrow> u64 \<Rightarrow> UserLaunchContext option" where
  "build_process_launch_context u pid =
     (case find_process u pid of None \<Rightarrow> None
      | Some i \<Rightarrow> let p = processes u ! i in
          if p_state p \<noteq> PRunnable \<or> p_main_thread p = 0 then None else build_launch_context u (p_main_thread p))"

definition copy_launch_context :: "users \<Rightarrow> u64 \<Rightarrow> UserLaunchContext option" where
  "copy_launch_context u tid = (case build_launch_context u tid of None \<Rightarrow> None
     | Some c \<Rightarrow> Some \<lparr>l_tid = l_tid c, l_pid = l_pid c, l_rip = l_rip c, l_rsp = l_rsp c, l_cr3 = l_cr3 c, l_cs = l_cs c,
         l_ss = l_ss c, l_rflags = l_rflags c\<rparr>)"

section \<open>Accounting\<close>

text \<open>The thread and the process an account is kept for: those of the current call.\<close>

definition current_account :: "users \<Rightarrow> (nat \<times> nat) option" where
  "current_account u =
     (case current_thread u of None \<Rightarrow> None
      | Some k \<Rightarrow>
        let t = uthreads u ! k in
        if t_state t = TEmpty \<or> t_state t = TExited then None
        else case find_live u (t_pid t) of None \<Rightarrow> None | Some i \<Rightarrow> Some (k, i))"

definition record_current_syscall :: "u64 \<Rightarrow> users \<Rightarrow> bool \<times> users" where
  "record_current_syscall number u =
     (case current_account u of None \<Rightarrow> (False, u)
      | Some (k, i) \<Rightarrow>
        let u = upd_uthread k (\<lambda>t. t\<lparr>t_syscalls := t_syscalls t + 1, t_last_syscall := number\<rparr>) u
        in (True, upd_process i (\<lambda>p. p\<lparr>p_counters := (p_counters p)\<lparr>c_syscalls := c_syscalls (p_counters p) + 1,
             c_last_syscall := number\<rparr>\<rparr>) u))"

definition note_current_user_tick :: "users \<Rightarrow> bool \<times> users" where
  "note_current_user_tick u =
     (case current_account u of None \<Rightarrow> (False, u)
      | Some (k, i) \<Rightarrow>
        let u = upd_uthread k (\<lambda>t. t\<lparr>t_run_ticks := t_run_ticks t + 1\<rparr>) u;
            u = upd_process i (\<lambda>p. p\<lparr>p_counters := (p_counters p)\<lparr>c_run_ticks := c_run_ticks (p_counters p) + 1\<rparr>\<rparr>) u
        in (True, u\<lparr>current_slice_ticks := current_slice_ticks u + 1\<rparr>))"

definition user_timeslice_expired :: "users \<Rightarrow> bool \<times> users" where
  "user_timeslice_expired u =
     (if schedulable_thread_count u \<le> 1 then (False, u\<lparr>current_slice_ticks := 0\<rparr>)
      else if current_slice_ticks u < kUserTimesliceQuantum then (False, u)
      else (True, u\<lparr>current_slice_ticks := 0, expired_slices := expired_slices u + 1\<rparr>))"

definition note_user_preempt_switch :: "u64 \<Rightarrow> u64 \<Rightarrow> users \<Rightarrow> bool \<times> users" where
  "note_user_preempt_switch from_tid to_tid u =
     (if from_tid = 0 \<or> to_tid = 0 \<or> from_tid = to_tid then (False, u)
      else case find_thread u from_tid of None \<Rightarrow> (False, u)
      | Some k \<Rightarrow>
        let t = uthreads u ! k in
        if t_state t = TEmpty \<or> t_state t = TExited then (False, u)
        else case find_live u (t_pid t) of None \<Rightarrow> (False, u)
        | Some i \<Rightarrow>
          let u = upd_uthread k (\<lambda>t. t\<lparr>t_preempts := t_preempts t + 1\<rparr>) u;
              u = upd_process i (\<lambda>p. p\<lparr>p_counters := (p_counters p)\<lparr>c_preempts := c_preempts (p_counters p) + 1\<rparr>\<rparr>) u;
              u = with_udiag (\<lambda>d. d\<lparr>preempt_switches := preempt_switches d + 1\<rparr>) u
          in (True, log_number ''Userspace preempt switch count'' (preempt_switches (udiag u)) u))"

section \<open>What is reported to user space\<close>

text \<open>A report holds the table entry it is taken from: the fields of \<open>hybrid::ProcessInfo\<close> and \<open>hybrid::UserThreadInfo\<close> are
  fields of the entry under the same name, next to the few that are computed.\<close>

definition copy_name :: "cstr \<Rightarrow> string" where
  "copy_name name = (case name of None \<Rightarrow> [] | Some n \<Rightarrow> take 31 n)"

definition open_file_count :: "users \<Rightarrow> u64 \<Rightarrow> nat" where
  "open_file_count u pid = (case find_process u pid of None \<Rightarrow> 0 | Some i \<Rightarrow> count_if fd_open (p_fds (processes u ! i)))"

definition owned_page_count :: "users \<Rightarrow> u64 \<Rightarrow> nat" where
  "owned_page_count u pid = (case find_process u pid of None \<Rightarrow> 0 | Some i \<Rightarrow> length (p_owned (processes u ! i)))"

record ProcessInfo =
  pi_process :: Process
  pi_open_files :: nat
  pi_owned_pages :: nat
  pi_name :: string

definition copy_process_info :: "users \<Rightarrow> nat \<Rightarrow> ProcessInfo option" where
  "copy_process_info u index =
     (if length (processes u) \<le> index then None
      else let p = processes u ! index in
        if p_state p = PEmpty then None
        else Some \<lparr>pi_process = p, pi_open_files = open_file_count u (p_pid p), pi_owned_pages = length (p_owned p),
               pi_name = copy_name (if p_args p \<noteq> [] then Some (hd (p_args p)) else p_name p)\<rparr>)"

text \<open>A sleeping thread reports its wake tick where others report the process they wait for.\<close>

record UserThreadInfo =
  ti_thread :: UserThread
  ti_wait_process :: u64

definition copy_thread_info :: "users \<Rightarrow> nat \<Rightarrow> UserThreadInfo option" where
  "copy_thread_info u index =
     (if length (uthreads u) \<le> index then None
      else let t = uthreads u ! index in
        if t_state t = TEmpty then None
        else Some \<lparr>ti_thread = t, ti_wait_process = (if t_block t = SleepBlock then t_wait_tick t else t_wait_process t)\<rparr>)"

record FileDescriptorInfo =
  fi_pid :: u64
  fi_fd :: u32
  fi_handle :: u32
  fi_pipe :: u32
  fi_offset :: u64
  fi_kind :: FileDescriptorKind
  fi_path :: string

definition copy_file_descriptor_info :: "users \<Rightarrow> u64 \<Rightarrow> nat \<Rightarrow> FileDescriptorInfo option" where
  "copy_file_descriptor_info u pid index =
     (if kMaxProcessFileDescriptors \<le> index then None
      else case live_entry u pid of None \<Rightarrow> None
      | Some i \<Rightarrow>
        let x = p_fds (processes u ! i) ! index in
        if \<not> fd_open x then None
        else Some \<lparr>fi_pid = p_pid (processes u ! i), fi_fd = fd_number x, fi_handle = fd_handle x, fi_pipe = fd_pipe x,
               fi_offset = (if fd_kind x = VfsFd then handle_offset (u_fs u) (fd_handle x) else fd_offset x),
               fi_kind = fd_kind x, fi_path = fd_path x\<rparr>)"

definition pipe_count :: "users \<Rightarrow> nat" where "pipe_count u = count_if pp_open (pipes u)"

record PipeInfo =
  pinf_id :: u32
  pinf_open :: bool
  pinf_size :: u64
  pinf_capacity :: u64
  pinf_read_offset :: u64
  pinf_readers :: nat
  pinf_writers :: nat

definition pipe_ends :: "users \<Rightarrow> FileDescriptorKind \<Rightarrow> u32 \<Rightarrow> nat" where
  "pipe_ends u kind pipe = sum_list (map (\<lambda>p. count_if (fd_on kind pipe) (p_fds p)) (filter live (processes u)))"

definition copy_pipe_info :: "users \<Rightarrow> nat \<Rightarrow> PipeInfo option" where
  "copy_pipe_info u index =
     (let open_pipes = filter pp_open (pipes u) in
      if length open_pipes \<le> index then None
      else let p = open_pipes ! index in
        Some \<lparr>pinf_id = pp_id p, pinf_open = pp_open p, pinf_size = pp_size p, pinf_capacity = kPipeCapacity,
              pinf_read_offset = pp_read_offset p, pinf_readers = pipe_ends u PipeReadFd (pp_id p),
              pinf_writers = pipe_ends u PipeWriteFd (pp_id p)\<rparr>)"

definition runnable_count :: "users \<Rightarrow> nat" where "runnable_count u = count_if (\<lambda>p. p_state p = PRunnable) (processes u)"
definition live_process_count :: "users \<Rightarrow> nat" where "live_process_count u = count_if live (processes u)"
definition exited_count :: "users \<Rightarrow> nat" where "exited_count u = count_if (\<lambda>p. p_state p = PExited) (processes u)"
definition runnable_thread_count :: "users \<Rightarrow> nat" where "runnable_thread_count u = count_if (\<lambda>t. t_state t = TRunnable) (uthreads u)"
definition running_thread_count :: "users \<Rightarrow> nat" where "running_thread_count u = count_if (\<lambda>t. t_state t = TRunning) (uthreads u)"
definition exited_thread_count :: "users \<Rightarrow> nat" where "exited_thread_count u = count_if (\<lambda>t. t_state t = TExited) (uthreads u)"

record UserSchedulerInfo =
  si_current_tid :: u64
  si_current_pid :: u64
  si_runnable :: nat
  si_running :: nat
  si_exited :: nat
  si_last_selected :: u64
  si_schedulable :: nat
  si_quantum :: u64
  si_slice_ticks :: u64
  si_expired :: u64

definition copy_user_scheduler_info :: "users \<Rightarrow> UserSchedulerInfo" where
  "copy_user_scheduler_info u = \<lparr>si_current_tid = current_tid u, si_current_pid = current_pid u,
     si_runnable = runnable_thread_count u, si_running = running_thread_count u, si_exited = exited_thread_count u,
     si_last_selected = last_selected_tid u, si_schedulable = schedulable_thread_count u, si_quantum = kUserTimesliceQuantum,
     si_slice_ticks = current_slice_ticks u, si_expired = expired_slices u\<rparr>"

record CurrentUserContextInfo =
  cu_pid :: u64
  cu_tid :: u64
  cu_process_state :: ProcessState
  cu_thread_state :: UserThreadState
  cu_entry :: u64
  cu_sp :: u64
  cu_root :: u64

definition copy_current_user_context :: "users \<Rightarrow> CurrentUserContextInfo option" where
  "copy_current_user_context u =
     (let pid = current_pid u; tid = current_tid u in
      if pid = 0 \<or> tid = 0 then None
      else case (find_process u pid, find_thread u tid) of
        (Some i, Some k) \<Rightarrow>
          let p = processes u ! i; t = uthreads u ! k in
          if t_pid t \<noteq> p_pid p then None
          else Some \<lparr>cu_pid = p_pid p, cu_tid = t_tid t, cu_process_state = p_state p, cu_thread_state = t_state t,
                 cu_entry = t_entry t, cu_sp = t_sp t, cu_root = t_root t\<rparr>
      | _ \<Rightarrow> None)"

end
