(* ===== verification/Pipes.thy ===== *)
theory Pipes
  imports Userspace VfsFiles
begin

text \<open>
  Pipes between processes. A pipe is a queue of bytes: whatever calls write and read it, and whichever waiting threads
  those calls wake, the bytes come out once and in the order they went in. A call that makes data or room wakes every
  thread that can go on because of it.
\<close>


section \<open>A pipe as a queue of bytes\<close>

definition pipe_ok :: "Pipe \<Rightarrow> bool" where
  "pipe_ok p \<longleftrightarrow> length (pp_data p) = 1024 \<and> pp_size p \<le> kPipeCapacity \<and> pp_read_offset p = 0"

definition held :: "Pipe \<Rightarrow> u8 list" where
  "held p = take (unat (pp_size p)) (pp_data p)"

lemma pipe_ok_size: "pipe_ok p \<Longrightarrow> unat (pp_size p) \<le> 1024"
  by (simp add: pipe_ok_def kPipeCapacity_def word_le_nat_alt)

lemma length_held [simp]: "pipe_ok p \<Longrightarrow> length (held p) = unat (pp_size p)"
  using pipe_ok_size [of p] by (simp add: held_def pipe_ok_def)

lemma held_nonempty: "pipe_ok p \<Longrightarrow> pp_read_offset p < pp_size p \<longleftrightarrow> held p \<noteq> []"
  by (auto simp: pipe_ok_def held_def word_gt_0 simp flip: unat_gt_0)

text \<open>What a client of a bounded buffer of bytes relies on. Whatever goes in comes out once and in order.\<close>

locale byte_queue =
  fixes put :: "u8 list \<Rightarrow> 'q \<Rightarrow> 'q"
    and get :: "u64 \<Rightarrow> 'q \<Rightarrow> u8 list \<times> 'q"
    and elems :: "'q \<Rightarrow> u8 list"
    and ok :: "'q \<Rightarrow> bool"
    and cap :: nat
  assumes put_law: "ok q \<Longrightarrow> length (elems q) + length bs \<le> cap \<Longrightarrow> ok (put bs q) \<and> elems (put bs q) = elems q @ bs"
    and get_law: "ok q \<Longrightarrow> unat n \<le> length (elems q) \<Longrightarrow> get n q = (bs, r) \<Longrightarrow> ok r \<and> elems q = bs @ elems r \<and> length bs = unat n"
begin

lemma put_stream: "ok q \<Longrightarrow> length (elems q) + length bs \<le> cap \<Longrightarrow> ok (put bs q) \<and> elems q @ bs = [] @ elems (put bs q)"
  using put_law by simp

lemma get_stream: "ok q \<Longrightarrow> unat n \<le> length (elems q) \<Longrightarrow> ok (snd (get n q)) \<and> elems q @ [] = fst (get n q) @ elems (snd (get n q))"
  using get_law [of q n "fst (get n q)" "snd (get n q)"] by simp

end

interpretation pq: byte_queue pipe_put pipe_take held pipe_ok 1024
proof
  fix q :: Pipe and bs :: "u8 list"
  assume q: "pipe_ok q" "length (held q) + length bs \<le> 1024"
  then have s: "unat (pp_size q) + length bs \<le> 1024" by simp
  then have "unat (pp_size q + of_nat (length bs)) = unat (pp_size q) + length bs"
    by (simp add: unat_word_ariths unat_of_nat_small)
  with s q(1) show "pipe_ok (pipe_put bs q) \<and> held (pipe_put bs q) = held q @ bs"
    by (simp add: pipe_put_def pipe_ok_def held_def store_bytes_def kPipeCapacity_def word_le_nat_alt)
next
  fix q r :: Pipe and n :: u64 and bs
  assume q: "pipe_ok q" "unat n \<le> length (held q)" "pipe_take n q = (bs, r)"
  then have n: "n \<le> pp_size q" "unat (pp_size q) \<le> 1024" using pipe_ok_size by (simp_all add: word_le_nat_alt)
  then have u: "unat (pp_size q - n) = unat (pp_size q) - unat n" by (simp add: unat_sub)
  show "pipe_ok r \<and> held q = bs @ held r \<and> length bs = unat n"
  proof (cases "n = 0")
    case True
    with q show ?thesis by (auto simp: pipe_take_def pipe_ok_def held_def)
  next
    case False
    have split: "take (unat (pp_size q)) (pp_data q) = take (unat n) (pp_data q) @ take (unat (pp_size q) - unat n) (drop (unat n) (pp_data q))"
      using n by (metis le_add_diff_inverse take_add word_le_nat_alt)
    with False q n u show ?thesis
      by (auto simp: pipe_take_def pipe_ok_def held_def Let_def kPipeCapacity_def word_le_nat_alt)
  qed
qed

section \<open>What a completed call moves\<close>

fun delivered :: "wake_event list \<Rightarrow> u8 list" where
  "delivered [] = []"
| "delivered (ReadResumed t bs # es) = bs @ delivered es"
| "delivered (e # es) = delivered es"

fun injected :: "wake_event list \<Rightarrow> u8 list" where
  "injected [] = []"
| "injected (WriteResumed t bs # es) = bs @ injected es"
| "injected (e # es) = injected es"

lemma delivered_append [simp]: "delivered (xs @ ys) = delivered xs @ delivered ys"
  by (induction xs rule: delivered.induct) auto

lemma injected_append [simp]: "injected (xs @ ys) = injected xs @ injected ys"
  by (induction xs rule: injected.induct) auto

abbreviation ev_list :: "wake_event option \<Rightarrow> wake_event list" where
  "ev_list ev \<equiv> (case ev of None \<Rightarrow> [] | Some x \<Rightarrow> [x])"

text \<open>The pipe in slot \<open>k\<close> takes the bytes \<open>ins\<close> and gives the bytes \<open>outs\<close> between two states; nothing else of the pipe
  table changes.\<close>

definition flows :: "nat \<Rightarrow> u8 list \<Rightarrow> u8 list \<Rightarrow> users \<Rightarrow> users \<Rightarrow> bool" where
  "flows k ins outs u u' \<longleftrightarrow> (\<exists>q. pipes u' = (pipes u)[k := q] \<and> pipe_ok q \<and> pp_id q = pp_id (pipes u ! k) \<and> pp_open q = pp_open (pipes u ! k) \<and>
     held (pipes u ! k) @ ins = outs @ held q)"

definition slot_ok :: "nat \<Rightarrow> users \<Rightarrow> bool" where
  "slot_ok k u \<longleftrightarrow> k < length (pipes u) \<and> pipe_ok (pipes u ! k)"

lemma flows_slot: "flows k ins outs u u' \<Longrightarrow> slot_ok k u \<Longrightarrow> slot_ok k u'"
  by (auto simp: flows_def slot_ok_def)

lemma flows_same: "slot_ok k u \<Longrightarrow> pipes u' = pipes u \<Longrightarrow> flows k [] [] u u'"
  unfolding flows_def slot_ok_def by (auto intro!: exI [of _ "pipes u ! k"])

lemma flows_trans:
  assumes "slot_ok k u" "flows k a b u v" "flows k c d v w"
  shows "flows k (a @ c) (b @ d) u w"
proof -
  obtain q where q: "pipes v = (pipes u)[k := q]" "held (pipes u ! k) @ a = b @ held q" "pp_id q = pp_id (pipes u ! k)"
      "pp_open q = pp_open (pipes u ! k)"
    using assms(2) by (auto simp: flows_def)
  obtain r where r: "pipes w = (pipes v)[k := r]" "pipe_ok r" "held (pipes v ! k) @ c = d @ held r" "pp_id r = pp_id (pipes v ! k)"
      "pp_open r = pp_open (pipes v ! k)"
    using assms(3) by (auto simp: flows_def)
  have k: "pipes v ! k = q" using assms(1) q(1) by (simp add: slot_ok_def)
  have "held (pipes u ! k) @ (a @ c) = (b @ d) @ held r"
    using q(2) r(3) k by (metis append.assoc)
  then show ?thesis
    using assms(2,3) q r k unfolding flows_def by (auto intro!: exI [of _ r])
qed

lemma flows_find_pipe: "slot_ok k u \<Longrightarrow> flows k a b u v \<Longrightarrow> find_pipe v pipe = find_pipe u pipe"
  by (auto simp: flows_def find_pipe_def slot_ok_def intro!: find_idx_update_other)

lemma copy_size_le: "copy_size w a ph \<le> w" "copy_size w a ph \<le> a"
  by (auto simp: copy_size_def Let_def)

lemma copy_size_pos: "w \<noteq> 0 \<Longrightarrow> a \<noteq> 0 \<Longrightarrow> copy_size w a ph \<noteq> 0"
proof -
  have "ph AND 4095 \<le> 4095" by (rule word_and_le1)
  then have "4096 - (ph AND 4095) \<noteq> (0 :: u64)" by (auto simp: word_le_nat_alt)
  then show "w \<noteq> 0 \<Longrightarrow> a \<noteq> 0 \<Longrightarrow> ?thesis" by (auto simp: copy_size_def Let_def kPageSize_def)
qed

section \<open>Serving one waiting thread\<close>

lemma users_frame [simp]:
  "pipes (log_number m x u) = pipes u" "processes (log_number m x u) = processes u" "uthreads (log_number m x u) = uthreads u"
  "pipes (with_udiag f u) = pipes u" "processes (with_udiag f u) = processes u" "uthreads (with_udiag f u) = uthreads u"
  "pipes (with_mem g u) = pipes u" "processes (with_mem g u) = processes u" "uthreads (with_mem g u) = uthreads u"
  "pipes (upd_uthread k h u) = pipes u" "processes (upd_uthread k h u) = processes u"
  "pipes (set_result k a b u) = pipes u" "processes (set_result k a b u) = processes u"
  "processes (upd_pipe k i u) = processes u" "uthreads (upd_pipe k i u) = uthreads u"
  "length (uthreads (upd_uthread k h u)) = length (uthreads u)" "length (uthreads (set_result k a b u)) = length (uthreads u)"
  by (simp_all add: log_number_def with_udiag_def with_mem_def upd_uthread_def set_result_def upd_pipe_def)

lemma resume_waiter_frame [simp]:
  "pipes (resume_waiter ev k u) = pipes u" "processes (resume_waiter ev k u) = processes u"
  "uthreads (resume_waiter ev k u) = (uthreads u)[k := clear_wait ((uthreads u ! k)\<lparr>t_state := TRunnable\<rparr>)]"
  by (cases ev; simp add: resume_waiter_def Let_def upd_uthread_def)+

lemma serve_reader_flows:
  assumes "slot_ok s u" "serve_reader pipe (Some s) k u = (ev, u')"
  shows "flows s [] (delivered (ev_list ev)) u u' \<and> injected (ev_list ev) = []"
proof (cases ev)
  case None
  with assms show ?thesis
    by (auto simp: serve_reader_def Let_def split: if_splits prod.splits intro!: flows_same)
next
  case (Some x)
  show ?thesis
  proof (cases x)
    case (ReadResumed t bs)
    let ?t = "uthreads u ! k" let ?p = "pipes u ! s"
    define n where "n = copy_size (t_wait_size ?t) (pp_size ?p - pp_read_offset ?p) (as_translate (u_machine u) (t_root ?t) (t_wait_buffer ?t))"
    from assms(2) Some ReadResumed obtain q where q: "pipe_take n ?p = (bs, q)" "pipes u' = (pipes u)[s := q]"
      by (auto simp: serve_reader_def Let_def n_def upd_pipe_def split: if_splits prod.splits)
    have ok: "pipe_ok ?p" using assms(1) by (simp add: slot_ok_def)
    have "n \<le> pp_size ?p" using ok copy_size_le(2) by (simp add: n_def pipe_ok_def)
    then have "unat n \<le> length (held ?p)" using ok by (simp add: word_le_nat_alt)
    from pq.get_law [OF ok this q(1)] have "pipe_ok q" "held ?p = bs @ held q" by auto
    moreover have "pp_id q = pp_id ?p" "pp_open q = pp_open ?p" using q(1) by (auto simp: pipe_take_def Let_def split: if_splits)
    ultimately show ?thesis using q Some ReadResumed by (auto simp: flows_def)
  qed (use assms Some in \<open>auto simp: serve_reader_def Let_def split: if_splits prod.splits intro!: flows_same\<close>)
qed

lemma serve_writer_flows:
  assumes "slot_ok s u" "serve_writer pipe (Some s) k u = (ev, u')"
  shows "flows s (injected (ev_list ev)) [] u u' \<and> delivered (ev_list ev) = []"
proof (cases ev)
  case None
  with assms show ?thesis
    by (auto simp: serve_writer_def Let_def split: if_splits intro!: flows_same)
next
  case (Some x)
  show ?thesis
  proof (cases x)
    case (WriteResumed t bs)
    let ?t = "uthreads u ! k" let ?p = "pipes u ! s"
    define src where "src = as_translate (u_machine u) (t_root ?t) (t_wait_buffer ?t)"
    define n where "n = copy_size (t_wait_size ?t) (kPipeCapacity - pp_size ?p) src"
    from assms(2) Some WriteResumed have q: "pipes u' = (pipes u)[s := pipe_put bs ?p]" "bs = get_bytes (m_mem (u_machine u)) src n"
      by (auto simp: serve_writer_def Let_def n_def src_def upd_pipe_def split: if_splits)
    have ok: "pipe_ok ?p" using assms(1) by (simp add: slot_ok_def)
    have "n \<le> kPipeCapacity - pp_size ?p" using copy_size_le(2) by (simp add: n_def)
    then have "unat n \<le> unat (kPipeCapacity - pp_size ?p)" by (simp add: word_le_nat_alt)
    then have "length (held ?p) + length bs \<le> 1024"
      using ok pipe_ok_size [OF ok] q(2) by (simp add: get_bytes_def pipe_ok_def unat_sub kPipeCapacity_def)
    from pq.put_law [OF ok this] have "pipe_ok (pipe_put bs ?p)" "held (pipe_put bs ?p) = held ?p @ bs" by auto
    then show ?thesis using q Some WriteResumed by (auto simp: flows_def pipe_put_def)
  qed (use assms Some in \<open>auto simp: serve_writer_def Let_def split: if_splits intro!: flows_same\<close>)
qed

lemma serve_waiter_flows:
  assumes "slot_ok s u" "serve_waiter pipe (Some s) r w k u = (ev, u')"
  shows "flows s (injected (ev_list ev)) (delivered (ev_list ev)) u u'"
proof (cases "waits_on pipe r w u (uthreads u ! k)")
  case False
  with assms show ?thesis by (auto simp: serve_waiter_def intro!: flows_same)
next
  case True
  define serve where "serve = (if t_block (uthreads u ! k) = PipeReadBlock then serve_reader pipe (Some s) k u else serve_writer pipe (Some s) k u)"
  obtain v where v: "serve = (ev, v)" "u' = (case ev of None \<Rightarrow> v | Some x \<Rightarrow> resume_waiter x k v)"
    using assms(2) True by (auto simp: serve_waiter_def serve_def Let_def split: prod.splits option.splits)
  have f: "flows s (injected (ev_list ev)) (delivered (ev_list ev)) u v"
    using v(1) serve_reader_flows [OF assms(1)] serve_writer_flows [OF assms(1)] by (force simp: serve_def split: if_splits)
  then show ?thesis using v(2) by (cases ev) (auto simp: flows_def)
qed

lemma wake_round_flows:
  "slot_ok s u \<Longrightarrow> wake_round pipe (Some s) r w ks u = (evs, u') \<Longrightarrow> flows s (injected evs) (delivered evs) u u'"
proof (induction ks arbitrary: u evs)
  case Nil
  then show ?case by (auto intro: flows_same)
next
  case (Cons k ks)
  obtain ev v where v: "serve_waiter pipe (Some s) r w k u = (ev, v)" by fastforce
  obtain es where es: "wake_round pipe (Some s) r w ks v = (es, u')" "evs = ev_list ev @ es"
    using Cons.prems(2) v by (auto split: prod.splits option.splits)
  note f = serve_waiter_flows [OF Cons.prems(1) v]
  from flows_trans [OF Cons.prems(1) f Cons.IH [OF flows_slot [OF f Cons.prems(1)] es(1)]] show ?case by (simp add: es(2))
qed

lemma wake_rounds_flows:
  "slot_ok s u \<Longrightarrow> wake_rounds pipe (Some s) n r w u = (evs, u') \<Longrightarrow> flows s (injected evs) (delivered evs) u u'"
proof (induction n arbitrary: r w u evs)
  case 0
  then show ?case by (auto intro: flows_same)
next
  case (Suc n)
  obtain es v where v: "wake_round pipe (Some s) r w [0..<length (uthreads u)] u = (es, v)" by fastforce
  note f = wake_round_flows [OF Suc.prems(1) v]
  show ?case
  proof (cases "es = []")
    case True
    with Suc.prems v f show ?thesis by simp
  next
    case False
    then obtain more r' w' where m: "wake_rounds pipe (Some s) n r' w' v = (more, u')" "evs = es @ more"
      using Suc.prems(2) v by (auto simp: Let_def split: prod.splits)
    from flows_trans [OF Suc.prems(1) f Suc.IH [OF flows_slot [OF f Suc.prems(1)] m(1)]] show ?thesis by (simp add: m(2))
  qed
qed

lemma wake_flows:
  assumes "slot_ok s u" "find_pipe u pipe = Some s" "wake_pipe_waiters pipe r w u = (evs, u')"
  shows "flows s (injected evs) (delivered evs) u u'"
  using assms wake_rounds_flows [OF assms(1)]
  by (auto simp: wake_pipe_waiters_def simp del: wake_rounds.simps split: if_splits intro!: flows_same)

section \<open>Bytes in, bytes out\<close>

lemma pipe_take_flows:
  assumes "pipe_ok (pipes u ! s)" "pipe_take n (pipes u ! s) = (bs, q)" "unat n \<le> length (held (pipes u ! s))"
  shows "flows s [] bs u (upd_pipe s (\<lambda>_. q) u)"
proof -
  have "pp_id q = pp_id (pipes u ! s)" "pp_open q = pp_open (pipes u ! s)"
    using assms(2) by (auto simp: pipe_take_def Let_def split: if_splits)
  with pq.get_law [OF assms(1,3,2)] show ?thesis by (auto simp: flows_def upd_pipe_def)
qed

lemma read_pipe_get:
  assumes "find_pipe u pipe = Some s" "pipe_ok (pipes u ! s)" "held (pipes u ! s) \<noteq> []" "read_pipe i pipe sz u = ((bs, evs), u')"
  shows "\<exists>n q v. pipe_take n (pipes u ! s) = (bs, q) \<and> unat n \<le> length (held (pipes u ! s)) \<and>
    wake_pipe_waiters pipe False True (upd_pipe s (\<lambda>_. q) u) = (evs, v) \<and> u' = count_read i n v"
proof -
  let ?p = "pipes u ! s"
  define n where "n = (if sz < pp_size ?p - pp_read_offset ?p then sz else pp_size ?p - pp_read_offset ?p)"
  have "unat n \<le> length (held ?p)" using assms(2) by (auto simp: n_def pipe_ok_def word_less_nat_alt)
  moreover have "\<not> pp_size ?p \<le> pp_read_offset ?p" using held_nonempty [OF assms(2)] assms(3) by (simp add: not_le)
  then obtain q v where "pipe_take n ?p = (bs, q)" "wake_pipe_waiters pipe False True (upd_pipe s (\<lambda>_. q) u) = (evs, v)" "u' = count_read i n v"
    using assms(1,4) by (auto simp: read_pipe_def Let_def n_def split: prod.splits if_splits)
  ultimately show ?thesis by blast
qed

lemma read_pipe_flows:
  assumes "slot_ok s u" "find_pipe u pipe = Some s" "read_pipe i pipe sz u = ((bs, evs), u')"
  shows "flows s (injected evs) (bs @ delivered evs) u u'"
proof (cases "held (pipes u ! s) = []")
  case True
  with assms held_nonempty [of "pipes u ! s"] show ?thesis by (auto simp: read_pipe_def slot_ok_def not_less intro: flows_same)
next
  case False
  have ok: "pipe_ok (pipes u ! s)" using assms(1) by (simp add: slot_ok_def)
  obtain n q v where q: "pipe_take n (pipes u ! s) = (bs, q)" "unat n \<le> length (held (pipes u ! s))"
    and v: "wake_pipe_waiters pipe False True (upd_pipe s (\<lambda>_. q) u) = (evs, v)" "u' = count_read i n v"
    using read_pipe_get [OF assms(2) ok False assms(3)] by blast
  note f = pipe_take_flows [OF ok q]
  have "flows s (injected evs) (delivered evs) (upd_pipe s (\<lambda>_. q) u) v"
    using wake_flows [OF flows_slot [OF f assms(1)] _ v(1)] flows_find_pipe [OF assms(1) f] assms(2) by simp
  from flows_trans [OF assms(1) f this] show ?thesis
    by (simp add: v(2) flows_def count_read_def upd_process_def)
qed

lemma write_pipe_put:
  assumes "slot_ok s u" "find_pipe u pipe = Some s" "write_pipe i pipe buf u = ((n, evs), u')"
    and free: "pipe_has_live_reader u pipe" "pp_size (pipes u ! s) < kPipeCapacity"
  shows "flows s (take (unat n) buf) [] u (upd_pipe s (pipe_put (take (unat n) buf)) u)"
proof -
  let ?p = "pipes u ! s"
  have ok: "pipe_ok ?p" using assms(1) by (simp add: slot_ok_def)
  have "n \<le> kPipeCapacity - pp_size ?p"
    using free assms(2,3) by (auto simp: write_pipe_def Let_def split: prod.splits if_splits)
  then have "unat n \<le> unat (kPipeCapacity - pp_size ?p)" by (simp add: word_le_nat_alt)
  then have "length (held ?p) + length (take (unat n) buf) \<le> 1024"
    using ok pipe_ok_size [OF ok] by (simp add: pipe_ok_def unat_sub kPipeCapacity_def)
  from pq.put_law [OF ok this] show ?thesis by (auto simp: flows_def upd_pipe_def pipe_put_def)
qed

lemma write_pipe_flows:
  assumes "slot_ok s u" "find_pipe u pipe = Some s" "write_pipe i pipe buf u = ((n, evs), u')"
  shows "flows s (take (unat n) buf @ injected evs) (delivered evs) u u'"
proof (cases "\<not> pipe_has_live_reader u pipe \<or> kPipeCapacity \<le> pp_size (pipes u ! s)")
  case True
  with assms show ?thesis by (auto simp: write_pipe_def split: if_splits intro: flows_same)
next
  case False
  then have f: "flows s (take (unat n) buf) [] u (upd_pipe s (pipe_put (take (unat n) buf)) u)"
    by (intro write_pipe_put [OF assms]) auto
  obtain v where v: "wake_pipe_waiters pipe True False (upd_pipe s (pipe_put (take (unat n) buf)) u) = (evs, v)" "u' = count_write i n v"
    using False assms(2,3) by (auto simp: write_pipe_def Let_def split: prod.splits if_splits)
  have "flows s (injected evs) (delivered evs) (upd_pipe s (pipe_put (take (unat n) buf)) u) v"
    using wake_flows [OF flows_slot [OF f assms(1)] _ v(1)] flows_find_pipe [OF assms(1) f] assms(2) by simp
  from flows_trans [OF assms(1) f this] show ?thesis
    by (simp add: v(2) flows_def count_write_def upd_process_def)
qed

definition pipes_ok :: "users \<Rightarrow> bool" where
  "pipes_ok u \<longleftrightarrow> (\<forall>p \<in> set (pipes u). pipe_ok p)"

definition held_in :: "users \<Rightarrow> u32 \<Rightarrow> u8 list" where
  "held_in u pipe = (case find_pipe u pipe of None \<Rightarrow> [] | Some s \<Rightarrow> held (pipes u ! s))"

lemma find_pipe_slot: "pipes_ok u \<Longrightarrow> find_pipe u pipe = Some s \<Longrightarrow> slot_ok s u"
  by (auto simp: pipes_ok_def slot_ok_def find_pipe_def split: if_splits dest: find_idx_bound)

lemma find_pipe_inj: "find_pipe u a = Some s \<Longrightarrow> find_pipe u b = Some s \<Longrightarrow> a = b"
  by (auto simp: find_pipe_def split: if_splits dest!: find_idx_holds)

lemma flows_pipes_ok: "flows s a b u v \<Longrightarrow> pipes_ok u \<Longrightarrow> pipes_ok v"
  using set_update_subset_insert by (fastforce simp: flows_def pipes_ok_def)

lemma flows_held:
  assumes "pipes_ok u" "find_pipe u pipe = Some s" "flows s ins outs u v"
  shows "held_in u p @ (if p = pipe then ins else []) = (if p = pipe then outs else []) @ held_in v p"
proof -
  have s: "slot_ok s u" using find_pipe_slot assms by blast
  have eq: "find_pipe v p = find_pipe u p" by (rule flows_find_pipe [OF s assms(3)])
  show ?thesis
  proof (cases "p = pipe")
    case True
    with assms s eq show ?thesis by (auto simp: held_in_def flows_def slot_ok_def)
  next
    case False
    then have "find_pipe u p \<noteq> Some s" using find_pipe_inj assms(2) by metis
    with False eq assms(3) show ?thesis by (auto simp: held_in_def flows_def split: option.splits)
  qed
qed

lemma find_live_entry: "find_live u pid = Some i \<Longrightarrow> live_entry u pid = Some i"
  by (auto simp: find_live_def find_process_def live_entry_def find_idx_Some live_def split: option.splits if_splits)

text \<open>A call of a program that may concern a pipe, and the bytes a given pipe takes and gives because of it: those of the
  call itself and those of the calls of other threads that are completed with it.\<close>

datatype pipe_call = ReadCall u64 u32 u64 | WriteCall u64 u32 "u8 list"

fun pipe_traffic :: "user_env \<Rightarrow> u32 \<Rightarrow> pipe_call \<Rightarrow> users \<Rightarrow> (u8 list \<times> u8 list) \<times> users" where
  "pipe_traffic e pipe (ReadCall pid fd sz) u =
     (let ((bs, evs), v) = read_file e pid fd True sz u in
      (if resolve_pipe_fd u pid fd False = Some pipe then (injected evs, bs @ delivered evs) else ([], []), v))"
| "pipe_traffic e pipe (WriteCall pid fd buf) u =
     (let ((n, evs), v) = write_file e pid fd True buf u in
      (if resolve_pipe_fd u pid fd True = Some pipe then (take (unat n) buf @ injected evs, delivered evs) else ([], []), v))"

fun pipe_run :: "user_env \<Rightarrow> u32 \<Rightarrow> pipe_call list \<Rightarrow> users \<Rightarrow> (u8 list \<times> u8 list) \<times> users" where
  "pipe_run e pipe [] u = (([], []), u)"
| "pipe_run e pipe (c # cs) u =
     (let ((a, b), v) = pipe_traffic e pipe c u; ((as, bs), w) = pipe_run e pipe cs v in ((a @ as, b @ bs), w))"

lemma held_in_same: "pipes v = pipes u \<Longrightarrow> held_in v p = held_in u p"
  by (simp add: held_in_def find_pipe_def split: option.split)

lemma pipes_counted [simp]:
  "pipes (count_read i n u) = pipes u" "pipes (count_write i n u) = pipes u" "pipes (sync_descriptor_offsets i h off u) = pipes u"
  "pipes (u\<lparr>u_fs := fs\<rparr>) = pipes u"
  by (simp_all add: count_read_def count_write_def sync_descriptor_offsets_def upd_process_def)

lemma read_file_cases:
  assumes "read_file e pid fd True sz u = ((bs, evs), v)"
  shows "pipes v = pipes u \<and> (bs = [] \<and> evs = [] \<or> resolve_pipe_fd u pid fd False = None) \<or>
    (\<exists>i d pipe s. find_live u pid = Some i \<and> fd_index u i fd = Some d \<and> fd_kind (p_fds (processes u ! i) ! d) = PipeReadFd \<and>
      pipe = fd_pipe (p_fds (processes u ! i) ! d) \<and> find_pipe u pipe = Some s \<and> read_pipe i pipe sz u = ((bs, evs), v))"
proof (cases "find_live u pid")
  case None
  with assms show ?thesis by (simp add: read_file_def)
next
  case (Some i)
  show ?thesis
  proof (cases "sz = 0 \<or> fd_index u i fd = None")
    case True
    with Some assms show ?thesis by (auto simp: read_file_def split: if_splits)
  next
    case False
    then obtain d where d: "fd_index u i fd = Some d" by blast
    let ?x = "p_fds (processes u ! i) ! d"
    consider "fd_kind ?x = VfsFd" | "fd_kind ?x = PipeReadFd" "find_pipe u (fd_pipe ?x) = None"
      | s where "fd_kind ?x = PipeReadFd" "find_pipe u (fd_pipe ?x) = Some s" | "fd_kind ?x \<noteq> VfsFd" "fd_kind ?x \<noteq> PipeReadFd" by fastforce
    then show ?thesis
    proof cases
      case 1
      with Some False d assms show ?thesis
        by (auto simp: read_file_def resolve_pipe_fd_def Let_def find_live_entry split: prod.splits)
    next
      case 2
      with Some False d assms show ?thesis by (auto simp: read_file_def read_pipe_def Let_def split: if_splits)
    next
      case (3 s)
      with Some False d assms have "read_pipe i (fd_pipe ?x) sz u = ((bs, evs), v)" by (simp add: read_file_def Let_def)
      with Some d 3 show ?thesis by blast
    next
      case 4
      with Some False d assms show ?thesis by (simp add: read_file_def Let_def)
    qed
  qed
qed

lemma read_traffic:
  assumes "pipes_ok u" "pipe_traffic e p (ReadCall pid fd sz) u = ((ins, outs), v)"
  shows "pipes_ok v \<and> held_in u p @ ins = outs @ held_in v p"
proof -
  obtain bs evs where r: "read_file e pid fd True sz u = ((bs, evs), v)"
    and m: "(ins, outs) = (if resolve_pipe_fd u pid fd False = Some p then (injected evs, bs @ delivered evs) else ([], []))"
    using assms(2) by (auto split: prod.splits)
  from read_file_cases [OF r] consider (quiet) "pipes v = pipes u" "bs = [] \<and> evs = [] \<or> resolve_pipe_fd u pid fd False = None"
    | (pipe) i d pipe s where "find_live u pid = Some i" "fd_index u i fd = Some d" "fd_kind (p_fds (processes u ! i) ! d) = PipeReadFd"
      "pipe = fd_pipe (p_fds (processes u ! i) ! d)" "find_pipe u pipe = Some s" "read_pipe i pipe sz u = ((bs, evs), v)"
    by (elim disjE conjE exE) simp_all
  then show ?thesis
  proof cases
    case quiet
    then have "ins = [] \<and> outs = []" using m by (auto split: if_splits)
    with quiet(1) assms(1) held_in_same [OF quiet(1), of p] show ?thesis by (simp add: pipes_ok_def)
  next
    case pipe
    have "resolve_pipe_fd u pid fd False = Some pipe"
      using pipe by (simp add: resolve_pipe_fd_def find_live_entry Let_def)
    moreover note f = read_pipe_flows [OF find_pipe_slot [OF assms(1) pipe(5)] pipe(5,6)]
    ultimately show ?thesis
      using flows_held [OF assms(1) pipe(5) f, of p] flows_pipes_ok [OF f assms(1)] m by (auto split: if_splits)
  qed
qed

lemma write_file_cases:
  assumes "write_file e pid fd True buf u = ((n, evs), v)"
  shows "pipes v = pipes u \<and> (n = 0 \<and> evs = [] \<or> resolve_pipe_fd u pid fd True = None) \<or>
    (\<exists>i d pipe s. find_live u pid = Some i \<and> fd_index u i fd = Some d \<and> fd_kind (p_fds (processes u ! i) ! d) = PipeWriteFd \<and>
      pipe = fd_pipe (p_fds (processes u ! i) ! d) \<and> find_pipe u pipe = Some s \<and> write_pipe i pipe buf u = ((n, evs), v))"
proof (cases "find_live u pid")
  case None
  with assms show ?thesis by (simp add: write_file_def)
next
  case (Some i)
  show ?thesis
  proof (cases "buf = [] \<or> fd_index u i fd = None")
    case True
    with Some assms show ?thesis by (auto simp: write_file_def split: if_splits)
  next
    case False
    then obtain d where d: "fd_index u i fd = Some d" by blast
    let ?x = "p_fds (processes u ! i) ! d"
    consider "fd_kind ?x = VfsFd" | "fd_kind ?x = PipeWriteFd" "find_pipe u (fd_pipe ?x) = None"
      | s where "fd_kind ?x = PipeWriteFd" "find_pipe u (fd_pipe ?x) = Some s" | "fd_kind ?x \<noteq> VfsFd" "fd_kind ?x \<noteq> PipeWriteFd" by fastforce
    then show ?thesis
    proof cases
      case 1
      with Some False d assms show ?thesis
        by (auto simp: write_file_def resolve_pipe_fd_def Let_def find_live_entry split: prod.splits)
    next
      case 2
      with Some False d assms show ?thesis by (auto simp: write_file_def write_pipe_def Let_def split: if_splits)
    next
      case (3 s)
      with Some False d assms have "write_pipe i (fd_pipe ?x) buf u = ((n, evs), v)" by (simp add: write_file_def Let_def)
      with Some d 3 show ?thesis by blast
    next
      case 4
      with Some False d assms show ?thesis by (simp add: write_file_def Let_def)
    qed
  qed
qed

lemma write_traffic:
  assumes "pipes_ok u" "pipe_traffic e p (WriteCall pid fd buf) u = ((ins, outs), v)"
  shows "pipes_ok v \<and> held_in u p @ ins = outs @ held_in v p"
proof -
  obtain n evs where r: "write_file e pid fd True buf u = ((n, evs), v)"
    and m: "(ins, outs) = (if resolve_pipe_fd u pid fd True = Some p then (take (unat n) buf @ injected evs, delivered evs) else ([], []))"
    using assms(2) by (auto split: prod.splits)
  from write_file_cases [OF r] consider (quiet) "pipes v = pipes u" "n = 0 \<and> evs = [] \<or> resolve_pipe_fd u pid fd True = None"
    | (pipe) i d pipe s where "find_live u pid = Some i" "fd_index u i fd = Some d" "fd_kind (p_fds (processes u ! i) ! d) = PipeWriteFd"
      "pipe = fd_pipe (p_fds (processes u ! i) ! d)" "find_pipe u pipe = Some s" "write_pipe i pipe buf u = ((n, evs), v)"
    by (elim disjE conjE exE) simp_all
  then show ?thesis
  proof cases
    case quiet
    then have "ins = [] \<and> outs = []" using m by (auto split: if_splits)
    with quiet(1) assms(1) held_in_same [OF quiet(1), of p] show ?thesis by (simp add: pipes_ok_def)
  next
    case pipe
    have "resolve_pipe_fd u pid fd True = Some pipe"
      using pipe by (simp add: resolve_pipe_fd_def find_live_entry Let_def)
    moreover note f = write_pipe_flows [OF find_pipe_slot [OF assms(1) pipe(5)] pipe(5,6)]
    ultimately show ?thesis
      using flows_held [OF assms(1) pipe(5) f, of p] flows_pipes_ok [OF f assms(1)] m by (auto split: if_splits)
  qed
qed

lemma traffic:
  assumes "pipes_ok u" "pipe_traffic e p c u = ((ins, outs), v)"
  shows "pipes_ok v \<and> held_in u p @ ins = outs @ held_in v p"
proof (cases c)
  case (ReadCall pid fd sz)
  from read_traffic [OF assms [unfolded ReadCall]] show ?thesis .
next
  case (WriteCall pid fd buf)
  from write_traffic [OF assms [unfolded WriteCall]] show ?thesis .
qed

lemma pipe_run_stream:
  "pipes_ok u \<Longrightarrow> pipe_run e p cs u = ((ins, outs), v) \<Longrightarrow> pipes_ok v \<and> held_in u p @ ins = outs @ held_in v p"
proof (induction cs arbitrary: u ins outs)
  case Nil
  then show ?case by simp
next
  case (Cons c cs)
  obtain a b w where c: "pipe_traffic e p c u = ((a, b), w)" by (metis prod.exhaust)
  obtain as bs where cs: "pipe_run e p cs w = ((as, bs), v)" "ins = a @ as" "outs = b @ bs"
    using Cons.prems(2) c by (auto split: prod.splits)
  have w: "pipes_ok w \<and> held_in u p @ a = b @ held_in w p"
    by (rule traffic [OF Cons.prems(1) c])
  then have "pipes_ok v" "held_in w p @ as = bs @ held_in v p" using Cons.IH [OF _ cs(1)] by auto
  moreover have "held_in u p @ a @ as = b @ held_in w p @ as" using w by (metis append.assoc)
  ultimately show ?case by (simp add: cs)
qed

section \<open>Waking waiting threads\<close>

definition only_thread :: "nat \<Rightarrow> users \<Rightarrow> users \<Rightarrow> bool" where
  "only_thread k u v \<longleftrightarrow> length (uthreads v) = length (uthreads u) \<and> (\<forall>j. j \<noteq> k \<longrightarrow> uthreads v ! j = uthreads u ! j)"

lemma only_thread_update: "only_thread k u v \<Longrightarrow> uthreads v = (uthreads u)[k := uthreads v ! k]"
proof (rule nth_equalityI)
  show "uthreads v ! i = (uthreads u)[k := uthreads v ! k] ! i" if "only_thread k u v" "i < length (uthreads v)" for i
    using that by (cases "i = k") (auto simp: only_thread_def)
qed (simp add: only_thread_def)

lemma serve_reader_event:
  assumes "serve_reader pipe ps k u = (ev, v)"
  shows "(ev = None \<longrightarrow> v = u) \<and> (\<forall>x. ev = Some x \<longrightarrow> is_read x \<and> only_thread k u v)"
  using assms by (auto simp: serve_reader_def Let_def set_result_def upd_uthread_def only_thread_def split: if_splits prod.splits)

lemma serve_writer_event:
  assumes "serve_writer pipe ps k u = (ev, v)"
  shows "(ev = None \<longrightarrow> v = u) \<and> (\<forall>x. ev = Some x \<longrightarrow> \<not> is_read x \<and> only_thread k u v)"
  using assms by (auto simp: serve_writer_def Let_def set_result_def upd_uthread_def only_thread_def split: if_splits prod.splits)

lemma serve_waiter_event:
  assumes "serve_waiter pipe ps r w k u = (ev, v)" "k < length (uthreads u)"
  shows "case ev of None \<Rightarrow> v = u
    | Some x \<Rightarrow> (if is_read x then r else w) \<and> t_state (uthreads u ! k) = TBlocked \<and>
        only_thread k u v \<and> t_state (uthreads v ! k) = TRunnable"
proof (cases "waits_on pipe r w u (uthreads u ! k)")
  case False
  with assms(1) show ?thesis by (auto simp: serve_waiter_def)
next
  case True
  define read where "read \<longleftrightarrow> t_block (uthreads u ! k) = PipeReadBlock"
  obtain ev' v' where s: "(if read then serve_reader pipe ps k u else serve_writer pipe ps k u) = (ev', v')" by fastforce
  then have d: "ev = ev'" "v = (case ev' of None \<Rightarrow> v' | Some x \<Rightarrow> resume_waiter x k v')"
    using assms(1) True by (auto simp: serve_waiter_def read_def split: option.splits if_splits)
  have e: "(ev' = None \<longrightarrow> v' = u) \<and> (\<forall>x. ev' = Some x \<longrightarrow> (is_read x \<longleftrightarrow> read) \<and>
      only_thread k u v')"
    using s serve_reader_event serve_writer_event by (cases read) (force split: if_splits)+
  moreover have "(read \<longrightarrow> r) \<and> (\<not> read \<longrightarrow> w) \<and> t_state (uthreads u ! k) = TBlocked"
    using True by (auto simp: waits_on_def read_def)
  ultimately show ?thesis using d assms(2) by (cases ev') (auto simp: only_thread_def clear_wait_def)
qed

definition blocked_threads :: "users \<Rightarrow> nat" where
  "blocked_threads u = count_if (\<lambda>t. t_state t = TBlocked) (uthreads u)"

lemma count_if_drop: "k < length xs \<Longrightarrow> P (xs ! k) \<Longrightarrow> \<not> P y \<Longrightarrow> Suc (count_if P (xs[k := y])) = count_if P xs"
proof (induction xs arbitrary: k)
  case (Cons x xs)
  then show ?case by (cases k) auto
qed simp

lemma serve_waiter_progress:
  assumes "serve_waiter pipe ps r w k u = (Some x, v)" "k < length (uthreads u)"
  shows "Suc (blocked_threads v) = blocked_threads u" "length (uthreads v) = length (uthreads u)"
proof -
  have e: "t_state (uthreads u ! k) = TBlocked" "only_thread k u v" "t_state (uthreads v ! k) = TRunnable"
    using serve_waiter_event [OF assms] by auto
  then show "length (uthreads v) = length (uthreads u)" by (simp add: only_thread_def)
  have "Suc (count_if (\<lambda>t. t_state t = TBlocked) ((uthreads u)[k := uthreads v ! k])) = blocked_threads u"
    unfolding blocked_threads_def using e assms(2) by (intro count_if_drop) simp_all
  then show "Suc (blocked_threads v) = blocked_threads u"
    using only_thread_update [OF e(2)] by (simp add: blocked_threads_def)
qed

text \<open>A round without events changes nothing and shows that no waiting thread could go on; every event of a round leaves
  one thread less waiting.\<close>

lemma wake_round_none:
  "wake_round pipe ps r w ks u = ([], v) \<Longrightarrow> \<forall>k \<in> set ks. k < length (uthreads u) \<Longrightarrow>
   v = u \<and> (\<forall>k \<in> set ks. fst (serve_waiter pipe ps r w k u) = None)"
proof (induction ks arbitrary: u)
  case (Cons k ks)
  obtain ev u' where s: "serve_waiter pipe ps r w k u = (ev, u')" by fastforce
  then have ev: "ev = None" and r: "wake_round pipe ps r w ks u' = ([], v)"
    using Cons.prems(1) by (auto split: prod.splits option.splits)
  then have "u' = u" using serve_waiter_event [OF s] Cons.prems(2) by simp
  with Cons.IH [of u] Cons.prems(2) ev r s show ?case by auto
qed simp

lemma wake_round_count:
  "wake_round pipe ps r w ks u = (evs, v) \<Longrightarrow> \<forall>k \<in> set ks. k < length (uthreads u) \<Longrightarrow>
   blocked_threads v + length evs = blocked_threads u \<and> length (uthreads v) = length (uthreads u) \<and>
   (\<forall>x \<in> set evs. if is_read x then r else w)"
proof (induction ks arbitrary: u evs)
  case (Cons k ks)
  obtain ev u' where s: "serve_waiter pipe ps r w k u = (ev, u')" by fastforce
  obtain es where es: "wake_round pipe ps r w ks u' = (es, v)" "evs = ev_list ev @ es"
    using Cons.prems(1) s by (auto split: prod.splits option.splits)
  have k: "k < length (uthreads u)" using Cons.prems(2) by simp
  show ?case
  proof (cases ev)
    case None
    then have "u' = u" using serve_waiter_event [OF s k] by simp
    with Cons.IH [OF es(1)] None Cons.prems(2) es(2) show ?thesis by simp
  next
    case (Some x)
    note p = serve_waiter_progress [OF s [unfolded Some] k]
    have "if is_read x then r else w" using serve_waiter_event [OF s k] Some by simp
    moreover have "blocked_threads v + length es = blocked_threads u' \<and> length (uthreads v) = length (uthreads u') \<and>
        (\<forall>x \<in> set es. if is_read x then r else w)"
      using Cons.prems(2) p by (intro Cons.IH es) simp
    ultimately show ?thesis using p es(2) Some by simp
  qed
qed simp

text \<open>The rounds end because they run out of waiting threads, long before they run out of rounds. What they leave behind
  cannot go on, on either side once anything has been moved.\<close>

lemma wake_rounds_settle:
  "wake_rounds pipe ps n r w u = (evs, v) \<Longrightarrow> blocked_threads u < n \<Longrightarrow>
   (evs = [] \<longrightarrow> v = u) \<and> (evs \<noteq> [] \<longrightarrow> (if is_read (hd evs) then r else w)) \<and>
   (\<forall>k < length (uthreads v). fst (serve_waiter pipe ps (r \<or> list_ex (\<lambda>x. \<not> is_read x) evs) (w \<or> list_ex is_read evs) k v) = None)"
proof (induction n arbitrary: r w u evs)
  case (Suc n)
  let ?ks = "[0..<length (uthreads u)]"
  obtain es u' where r1: "wake_round pipe ps r w ?ks u = (es, u')" by fastforce
  note c = wake_round_count [OF r1]
  show ?case
  proof (cases "es = []")
    case True
    with r1 have "u' = u \<and> (\<forall>k \<in> set ?ks. fst (serve_waiter pipe ps r w k u) = None)"
      by (intro wake_round_none) simp_all
    moreover have "evs = [] \<and> v = u'" using True Suc.prems(1) r1 by simp
    ultimately show ?thesis by simp
  next
    case False
    define r' where "r' \<longleftrightarrow> r \<or> list_ex (\<lambda>x. \<not> is_read x) es"
    define w' where "w' \<longleftrightarrow> w \<or> list_ex is_read es"
    obtain more where m: "wake_rounds pipe ps n r' w' u' = (more, v)" "evs = es @ more"
      using False Suc.prems(1) r1 by (auto simp: r'_def w'_def Let_def split: prod.splits)
    have "blocked_threads u' + length es = blocked_threads u" using c by simp
    moreover have "0 < length es" using False by simp
    ultimately have "blocked_threads u' < n" using Suc.prems(2) by linarith
    from Suc.IH [OF m(1) this, THEN conjunct2, THEN conjunct2] have i: "\<forall>k < length (uthreads v).
        fst (serve_waiter pipe ps (r' \<or> list_ex (\<lambda>x. \<not> is_read x) more) (w' \<or> list_ex is_read more) k v) = None" .
    have "hd evs \<in> set es" using False m(2) by (simp add: hd_append)
    then have h: "if is_read (hd evs) then r else w" using c by simp
    have "(r' \<or> list_ex (\<lambda>x. \<not> is_read x) more) = (r \<or> list_ex (\<lambda>x. \<not> is_read x) evs)"
      "(w' \<or> list_ex is_read more) = (w \<or> list_ex is_read evs)" by (auto simp: m(2) r'_def w'_def)
    with i h False m(2) show ?thesis by simp
  qed
qed simp

text \<open>A thread that waits for the pipe, and one that need not: a reader goes on when there are bytes for its buffer, or when
  no process can write any more; a writer goes on when there is room, or when no process can read any more.\<close>

definition waiting :: "UserBlockReason \<Rightarrow> u32 \<Rightarrow> users \<Rightarrow> UserThread \<Rightarrow> bool" where
  "waiting why pipe u t \<longleftrightarrow> t_state t = TBlocked \<and> t_block t = why \<and> t_wait_pipe t = pipe \<and>
     (\<exists>i. find_process u (t_pid t) = Some i \<and> p_state (processes u ! i) = PRunnable)"

definition buffer_mapped :: "users \<Rightarrow> UserThread \<Rightarrow> bool" where
  "buffer_mapped u t \<longleftrightarrow> t_wait_buffer t \<noteq> 0 \<and> t_wait_size t \<noteq> 0 \<and> as_translate (u_machine u) (t_root t) (t_wait_buffer t) \<noteq> 0"

definition ready_reader :: "u32 \<Rightarrow> users \<Rightarrow> UserThread \<Rightarrow> bool" where
  "ready_reader pipe u t \<longleftrightarrow> waiting PipeReadBlock pipe u t \<and>
     (if held_in u pipe \<noteq> [] \<and> t_wait_buffer t \<noteq> 0 \<and> t_wait_size t \<noteq> 0 then buffer_mapped u t else \<not> pipe_has_live_writer u pipe)"

definition ready_writer :: "u32 \<Rightarrow> users \<Rightarrow> UserThread \<Rightarrow> bool" where
  "ready_writer pipe u t \<longleftrightarrow> waiting PipeWriteBlock pipe u t \<and>
     (\<not> pipe_has_live_reader u pipe \<or> find_pipe u pipe \<noteq> None \<and> length (held_in u pipe) < 1024 \<and> buffer_mapped u t)"

definition none_ready :: "u32 \<Rightarrow> users \<Rightarrow> bool" where
  "none_ready pipe u \<longleftrightarrow> (\<forall>t \<in> set (uthreads u). \<not> ready_reader pipe u t \<and> \<not> ready_writer pipe u t)"

lemma waits_on_iff:
  "waits_on pipe r w u t \<longleftrightarrow> r \<and> waiting PipeReadBlock pipe u t \<or> w \<and> waiting PipeWriteBlock pipe u t"
  by (auto simp: waits_on_def waiting_def split: option.splits)

lemma held_room: "pipe_ok p \<Longrightarrow> pp_size p < kPipeCapacity \<longleftrightarrow> length (held p) < 1024"
  by (simp add: kPipeCapacity_def word_less_nat_alt)

lemma serve_reader_ready:
  assumes "pipes_ok u" "waiting PipeReadBlock pipe u (uthreads u ! k)"
  shows "fst (serve_reader pipe (find_pipe u pipe) k u) = None \<longleftrightarrow> \<not> ready_reader pipe u (uthreads u ! k)"
proof (cases "find_pipe u pipe")
  case None
  with assms show ?thesis by (simp add: serve_reader_def ready_reader_def held_in_def Let_def)
next
  case (Some s)
  let ?p = "pipes u ! s"
  have ok: "pipe_ok ?p" using find_pipe_slot [OF assms(1) Some] by (simp add: slot_ok_def)
  have "pp_read_offset ?p < pp_size ?p \<Longrightarrow> pp_size ?p - pp_read_offset ?p \<noteq> 0" by auto
  then have "copy_size (t_wait_size t) (pp_size ?p - pp_read_offset ?p) d \<noteq> 0" if "pp_read_offset ?p < pp_size ?p" "t_wait_size t \<noteq> 0" for t d
    using that copy_size_pos by blast
  with Some assms(2) held_nonempty [OF ok] show ?thesis
    by (auto simp: serve_reader_def ready_reader_def buffer_mapped_def held_in_def Let_def split: prod.splits)
qed

lemma serve_writer_ready:
  assumes "pipes_ok u" "waiting PipeWriteBlock pipe u (uthreads u ! k)"
  shows "fst (serve_writer pipe (find_pipe u pipe) k u) = None \<longleftrightarrow> \<not> ready_writer pipe u (uthreads u ! k)"
proof (cases "find_pipe u pipe")
  case None
  with assms show ?thesis by (simp add: serve_writer_def ready_writer_def Let_def)
next
  case (Some s)
  let ?p = "pipes u ! s"
  have ok: "pipe_ok ?p" using find_pipe_slot [OF assms(1) Some] by (simp add: slot_ok_def)
  have "pp_size ?p < kPipeCapacity \<Longrightarrow> kPipeCapacity - pp_size ?p \<noteq> 0" by auto
  then have "copy_size (t_wait_size t) (kPipeCapacity - pp_size ?p) d \<noteq> 0" if "pp_size ?p < kPipeCapacity" "t_wait_size t \<noteq> 0" for t d
    using that copy_size_pos by blast
  with Some assms(2) held_room [OF ok] show ?thesis
    by (auto simp: serve_writer_def ready_writer_def buffer_mapped_def held_in_def Let_def)
qed

lemma serve_waiter_ready:
  assumes "pipes_ok u"
  shows "fst (serve_waiter pipe (find_pipe u pipe) r w k u) = None \<longleftrightarrow>
    \<not> (r \<and> ready_reader pipe u (uthreads u ! k)) \<and> \<not> (w \<and> ready_writer pipe u (uthreads u ! k))"
proof (cases "waits_on pipe r w u (uthreads u ! k)")
  case False
  then show ?thesis by (auto simp: serve_waiter_def waits_on_iff ready_reader_def ready_writer_def)
next
  case True
  then consider (reader) r "waiting PipeReadBlock pipe u (uthreads u ! k)" | (writer) w "waiting PipeWriteBlock pipe u (uthreads u ! k)"
    by (auto simp: waits_on_iff)
  then show ?thesis
  proof cases
    case reader
    then have "fst (serve_waiter pipe (find_pipe u pipe) r w k u) = None \<longleftrightarrow> fst (serve_reader pipe (find_pipe u pipe) k u) = None"
      using True by (auto simp: serve_waiter_def waiting_def split: prod.splits option.splits)
    with reader serve_reader_ready [OF assms reader(2)] show ?thesis by (auto simp: ready_writer_def waiting_def)
  next
    case writer
    then have "fst (serve_waiter pipe (find_pipe u pipe) r w k u) = None \<longleftrightarrow> fst (serve_writer pipe (find_pipe u pipe) k u) = None"
      using True by (auto simp: serve_waiter_def waiting_def split: prod.splits option.splits)
    with writer serve_writer_ready [OF assms writer(2)] show ?thesis by (auto simp: ready_reader_def waiting_def)
  qed
qed

text \<open>After a wake the threads of the sides that were asked for cannot go on, and none at all once something was moved.\<close>

lemma wake_settles:
  assumes "pipes_ok u" "find_pipe u pipe = Some s" "wake_pipe_waiters pipe r w u = (evs, v)"
  shows "pipes_ok v \<and> find_pipe v pipe = Some s \<and> (evs = [] \<longrightarrow> v = u) \<and> (evs \<noteq> [] \<longrightarrow> (if is_read (hd evs) then r else w)) \<and>
    (\<forall>t \<in> set (uthreads v). \<not> ((r \<or> list_ex (\<lambda>x. \<not> is_read x) evs) \<and> ready_reader pipe v t) \<and>
      \<not> ((w \<or> list_ex is_read evs) \<and> ready_writer pipe v t))"
proof -
  have f: "flows s (injected evs) (delivered evs) u v" by (rule wake_flows [OF find_pipe_slot [OF assms(1,2)] assms(2,3)])
  have ok: "pipes_ok v" by (rule flows_pipes_ok [OF f assms(1)])
  have fp: "find_pipe v pipe = Some s" using flows_find_pipe [OF find_pipe_slot [OF assms(1,2)] f] assms(2) by simp
  have "pipe \<noteq> 0" using assms(2) by (auto simp: find_pipe_def)
  then have r: "wake_rounds pipe (Some s) (length (uthreads u) * 2 + 1) r w u = (evs, v)"
    using assms(2,3) by (simp add: wake_pipe_waiters_def)
  have "blocked_threads u \<le> length (uthreads u)" by (simp add: blocked_threads_def count_if_le)
  then have "blocked_threads u < length (uthreads u) * 2 + 1" by simp
  note s = wake_rounds_settle [OF r this]
  have "\<not> ((r \<or> list_ex (\<lambda>x. \<not> is_read x) evs) \<and> ready_reader pipe v t) \<and> \<not> ((w \<or> list_ex is_read evs) \<and> ready_writer pipe v t)"
    if "t \<in> set (uthreads v)" for t
  proof -
    obtain k where k: "k < length (uthreads v)" "t = uthreads v ! k" using \<open>t \<in> set (uthreads v)\<close> by (auto simp: in_set_conv_nth)
    then have "fst (serve_waiter pipe (find_pipe v pipe) (r \<or> list_ex (\<lambda>x. \<not> is_read x) evs) (w \<or> list_ex is_read evs) k v) = None"
      using s fp by simp
    from this [unfolded serve_waiter_ready [OF ok]] k(2) show ?thesis by simp
  qed
  with ok fp s show ?thesis by blast
qed

section \<open>No wake-up is lost\<close>

lemma bex_update: "Q (f (xs ! i)) = Q (xs ! i) \<Longrightarrow> (\<exists>p \<in> set (xs[i := f (xs ! i)]). Q p) = (\<exists>p \<in> set xs. Q p)"
  by (cases "i < length xs") (auto simp: in_set_conv_nth nth_list_update Bex_def)

lemma find_process_upd:
  assumes "\<And>p. p_pid (f p) = p_pid p" "\<And>p. p_state (f p) = p_state p"
  shows "find_process (upd_process i f u) pid = find_process u pid"
  using assms find_idx_update_other [of i "processes u" "\<lambda>p. p_pid p = pid \<and> p_state p \<noteq> PEmpty" "f (processes u ! i)"]
  by (cases "i < length (processes u)") (simp_all add: find_process_def upd_process_def list_update_beyond)

text \<open>The accounts of a process have no part in this.\<close>

lemma ready_counted:
  assumes "\<And>p. p_pid (f p) = p_pid p" "\<And>p. p_state (f p) = p_state p" "\<And>p. p_fds (f p) = p_fds p"
  shows "ready_reader pipe (upd_process i f u) t = ready_reader pipe u t" "ready_writer pipe (upd_process i f u) t = ready_writer pipe u t"
proof -
  have l: "live (f p) = live p" for p by (simp add: live_def assms)
  have e: "pipe_has_live_writer (upd_process i f u) pipe = pipe_has_live_writer u pipe"
    "pipe_has_live_reader (upd_process i f u) pipe = pipe_has_live_reader u pipe"
    unfolding pipe_has_live_writer_def pipe_has_live_reader_def upd_process_def
    using bex_update [of "\<lambda>p. live p \<and> (\<exists>d \<in> set (p_fds p). fd_on PipeWriteFd pipe d)" f]
      bex_update [of "\<lambda>p. live p \<and> (\<exists>d \<in> set (p_fds p). fd_on PipeReadFd pipe d)" f] by (simp_all add: l assms)
  have s: "p_state (processes (upd_process i f u) ! j) = p_state (processes u ! j)" for j
    by (cases "i = j"; cases "i < length (processes u)") (simp_all add: upd_process_def assms list_update_beyond)
  have w: "waiting why pipe (upd_process i f u) t = waiting why pipe u t" for why
    by (simp add: waiting_def find_process_upd assms s)
  have h: "held_in (upd_process i f u) pipe = held_in u pipe" "find_pipe (upd_process i f u) pipe = find_pipe u pipe"
    "buffer_mapped (upd_process i f u) t = buffer_mapped u t"
    by (simp_all add: held_in_def find_pipe_def buffer_mapped_def upd_process_def split: option.split)
  show "ready_reader pipe (upd_process i f u) t = ready_reader pipe u t" "ready_writer pipe (upd_process i f u) t = ready_writer pipe u t"
    by (simp_all add: ready_reader_def ready_writer_def w e h)
qed

lemma none_ready_counted [simp]:
  "none_ready pipe (count_read i n u) = none_ready pipe u" "none_ready pipe (count_write i n u) = none_ready pipe u"
  by (simp_all add: none_ready_def count_read_def count_write_def ready_counted) (simp_all add: upd_process_def)

lemma wake_none_ready:
  assumes "pipes_ok u" "find_pipe u pipe = Some s" "wake_pipe_waiters pipe r w u = (evs, v)" "r = (\<not> w)"
    and other: "\<And>t. t \<in> set (uthreads u) \<Longrightarrow> \<not> (if r then ready_writer pipe u t else ready_reader pipe u t)"
  shows "none_ready pipe v"
proof (cases "evs = []")
  case True
  with wake_settles [OF assms(1-3)] other assms(4) show ?thesis by (auto simp: none_ready_def split: if_splits)
next
  case False
  note s = wake_settles [OF assms(1-3)]
  have h: "if is_read (hd evs) then r else w" using s False by simp
  have m: "hd evs \<in> set evs" using False by simp
  have "r \<or> list_ex (\<lambda>x. \<not> is_read x) evs" "w \<or> list_ex is_read evs"
    using h m assms(4) unfolding list_ex_iff by (metis (full_types))+
  with s show ?thesis by (simp add: none_ready_def)
qed

lemma ready_pipe_put:
  assumes "pipes_ok u" "find_pipe u pipe = Some s" "flows s bs [] u (upd_pipe s f u)" "ready_writer pipe (upd_pipe s f u) t"
  shows "ready_writer pipe u t"
proof -
  have "held_in u pipe @ bs = held_in (upd_pipe s f u) pipe" using flows_held [OF assms(1,2,3), of pipe] by simp
  then have "length (held_in u pipe) \<le> length (held_in (upd_pipe s f u) pipe)" by (metis length_append le_add1)
  moreover have "find_pipe (upd_pipe s f u) pipe = find_pipe u pipe"
    by (rule flows_find_pipe [OF find_pipe_slot [OF assms(1,2)] assms(3)])
  moreover have "waiting PipeWriteBlock pipe (upd_pipe s f u) t = waiting PipeWriteBlock pipe u t"
    "pipe_has_live_reader (upd_pipe s f u) pipe = pipe_has_live_reader u pipe" "buffer_mapped (upd_pipe s f u) t = buffer_mapped u t"
    by (simp_all add: waiting_def find_process_def pipe_has_live_reader_def buffer_mapped_def) (simp_all add: upd_pipe_def)
  ultimately show ?thesis using assms(2,4) by (auto simp: ready_writer_def)
qed

lemma write_pipe_none_ready:
  assumes ok: "pipes_ok u" and "none_ready pipe u"
  shows "none_ready pipe (snd (write_pipe i pipe buf u))"
proof (cases "find_pipe u pipe")
  case None
  with assms(2) show ?thesis by (simp add: write_pipe_def)
next
  case (Some s)
  obtain n evs v where w: "write_pipe i pipe buf u = ((n, evs), v)" by (metis prod.exhaust)
  show ?thesis
  proof (cases "\<not> pipe_has_live_reader u pipe \<or> kPipeCapacity \<le> pp_size (pipes u ! s)")
    case True
    with assms(2) Some show ?thesis by (auto simp: write_pipe_def)
  next
    case False
    let ?u = "upd_pipe s (pipe_put (take (unat n) buf)) u"
    have f: "flows s (take (unat n) buf) [] u ?u"
      using write_pipe_put [OF find_pipe_slot [OF ok Some] Some w] False by auto
    obtain v' where v: "wake_pipe_waiters pipe True False ?u = (evs, v')" "v = count_write i n v'"
      using False Some w by (auto simp: write_pipe_def Let_def split: prod.splits if_splits)
    have "find_pipe ?u pipe = Some s" using flows_find_pipe [OF find_pipe_slot [OF ok Some] f] Some by simp
    moreover have "\<not> ready_writer pipe ?u t" if "t \<in> set (uthreads ?u)" for t
      using ready_pipe_put [OF ok Some f] assms(2) that by (auto simp: none_ready_def)
    ultimately have "none_ready pipe v'"
      using wake_none_ready [OF flows_pipes_ok [OF f ok] _ v(1)] by simp
    then show ?thesis by (simp add: w v(2))
  qed
qed

lemma read_pipe_none_ready:
  assumes ok: "pipes_ok u" and nr: "none_ready pipe u"
    and mapped: "\<forall>t \<in> set (uthreads u). waiting PipeReadBlock pipe u t \<longrightarrow> buffer_mapped u t"
  shows "none_ready pipe (snd (read_pipe i pipe sz u))"
proof (cases "find_pipe u pipe")
  case None
  with nr show ?thesis by (simp add: read_pipe_def)
next
  case (Some s)
  let ?p = "pipes u ! s"
  have p: "pipe_ok ?p" using find_pipe_slot [OF ok Some] by (simp add: slot_ok_def)
  show ?thesis
  proof (cases "held ?p = []")
    case True
    with nr Some held_nonempty [OF p] show ?thesis by (simp add: read_pipe_def not_less)
  next
    case False
    have none: "\<not> waiting PipeReadBlock pipe u t" if "t \<in> set (uthreads u)" for t
      using nr mapped that False Some by (auto simp: none_ready_def ready_reader_def held_in_def buffer_mapped_def)
    obtain bs evs v where r: "read_pipe i pipe sz u = ((bs, evs), v)" by (metis prod.exhaust)
    obtain n q v' where q: "pipe_take n ?p = (bs, q)" "unat n \<le> length (held ?p)"
      and v: "wake_pipe_waiters pipe False True (upd_pipe s (\<lambda>_. q) u) = (evs, v')" "v = count_read i n v'"
      using read_pipe_get [OF Some p False r] by blast
    let ?u = "upd_pipe s (\<lambda>_. q) u"
    have f: "flows s [] bs u ?u" by (rule pipe_take_flows [OF p q])
    have "find_pipe ?u pipe = Some s" using flows_find_pipe [OF find_pipe_slot [OF ok Some] f] Some by simp
    moreover have "\<not> ready_reader pipe ?u t" if "t \<in> set (uthreads ?u)" for t
      using none that by (auto simp: ready_reader_def waiting_def find_process_def)
    ultimately have "none_ready pipe v'"
      using wake_none_ready [OF flows_pipes_ok [OF f ok] _ v(1)] by simp
    then show ?thesis by (simp add: r v(2))
  qed
qed

lemma ready_frame:
  assumes "processes v = processes u" "pipes v = pipes u" "u_machine v = u_machine u"
  shows "ready_reader pipe v t = ready_reader pipe u t" "ready_writer pipe v t = ready_writer pipe u t"
  using held_in_same [OF assms(2), of pipe]
  by (simp_all add: ready_reader_def ready_writer_def waiting_def buffer_mapped_def find_process_def find_pipe_def
      pipe_has_live_writer_def pipe_has_live_reader_def assms)

lemma none_ready_thread:
  assumes "none_ready pipe u" "processes v = processes u" "pipes v = pipes u" "u_machine v = u_machine u"
    "uthreads v = (uthreads u)[k := t]" "\<not> ready_reader pipe u t" "\<not> ready_writer pipe u t"
  shows "none_ready pipe v"
  using assms(1,5-7) set_update_subset_insert [of "uthreads u" k t]
  by (auto simp: none_ready_def ready_frame [OF assms(2-4)])

lemma block_none_ready:
  assumes "none_ready pipe u"
    and full: "if write_end then pipe_has_live_reader u pipe \<and> length (held_in u pipe) = 1024
      else pipe_has_live_writer u pipe \<and> held_in u pipe = []"
  shows "none_ready pipe (snd (block_active_thread_on_pipe pipe write_end fd buffer sz u))"
proof (cases "current_thread u")
  case None
  with assms(1) show ?thesis by (simp add: block_active_thread_on_pipe_def)
next
  case (Some k)
  define t where "t = (uthreads u ! k)\<lparr>t_state := TBlocked, t_block := (if write_end then PipeWriteBlock else PipeReadBlock),
    t_wait_pipe := pipe, t_wait_process := 0, t_wait_tick := 0, t_wait_fd := fd, t_wait_buffer := buffer, t_wait_size := sz\<rparr>"
  define v where "v = snd (block_active_thread_on_pipe pipe write_end fd buffer sz u)"
  have "\<not> ready_reader pipe u t" "\<not> ready_writer pipe u t"
    using full by (auto simp: ready_reader_def ready_writer_def waiting_def t_def split: if_splits)
  moreover have "v = u \<or> processes v = processes u \<and> pipes v = pipes u \<and> u_machine v = u_machine u \<and> uthreads v = (uthreads u)[k := t]"
    using Some by (simp add: v_def block_active_thread_on_pipe_def t_def Let_def upd_uthread_def with_udiag_def log_number_def)
  ultimately show ?thesis using none_ready_thread [OF assms(1), of v k t] assms(1) unfolding v_def [symmetric] by blast
qed

text \<open>The two tests before a thread is put to sleep.\<close>

lemma read_would_block:
  assumes "pipes_ok u" "pipe_read_would_block u pid fd" "resolve_pipe_fd u pid fd False = Some pipe"
  shows "pipe_has_live_writer u pipe \<and> held_in u pipe = []"
proof -
  obtain i d where i: "live_entry u pid = Some i" "fd_index u i fd = Some d"
    and k: "fd_kind (p_fds (processes u ! i) ! d) = PipeReadFd" "fd_pipe (p_fds (processes u ! i) ! d) = pipe" "find_pipe u pipe \<noteq> None"
    using assms(3) by (auto simp: resolve_pipe_fd_def Let_def split: option.splits if_splits)
  have "find_idx (\<lambda>x. fd_open x \<and> fd_number x = fd \<and> fd_kind x = PipeReadFd) (p_fds (processes u ! i)) = Some d"
    using i(2) k(1) by (auto simp: fd_index_def find_idx_Some)
  then obtain s where s: "find_pipe u pipe = Some s" "pp_size (pipes u ! s) \<le> pp_read_offset (pipes u ! s)" "pipe_has_live_writer u pipe"
    using i k assms(2) by (auto simp: pipe_read_would_block_def)
  have ok: "pipe_ok (pipes u ! s)" using find_pipe_slot [OF assms(1) s(1)] by (simp add: slot_ok_def)
  have "held (pipes u ! s) = []" using s(2) held_nonempty [OF ok] by (metis leD)
  with s show ?thesis by (simp add: held_in_def)
qed

lemma write_would_block:
  assumes "pipes_ok u" "pipe_write_would_block u pid fd" "resolve_pipe_fd u pid fd True = Some pipe"
  shows "pipe_has_live_reader u pipe \<and> length (held_in u pipe) = 1024"
proof -
  obtain i d where i: "live_entry u pid = Some i" "fd_index u i fd = Some d"
    and k: "fd_kind (p_fds (processes u ! i) ! d) = PipeWriteFd" "fd_pipe (p_fds (processes u ! i) ! d) = pipe" "find_pipe u pipe \<noteq> None"
    using assms(3) by (auto simp: resolve_pipe_fd_def Let_def split: option.splits if_splits)
  have "find_idx (\<lambda>x. fd_open x \<and> fd_number x = fd \<and> fd_kind x = PipeWriteFd) (p_fds (processes u ! i)) = Some d"
    using i(2) k(1) by (auto simp: fd_index_def find_idx_Some)
  then obtain s where s: "find_pipe u pipe = Some s" "kPipeCapacity \<le> pp_size (pipes u ! s)" "pipe_has_live_reader u pipe"
    using i k assms(2) by (auto simp: pipe_write_would_block_def)
  have ok: "pipe_ok (pipes u ! s)" using find_pipe_slot [OF assms(1) s(1)] by (simp add: slot_ok_def)
  have "\<not> length (held (pipes u ! s)) < 1024" using s(2) held_room [OF ok] by (metis leD)
  moreover have "length (held (pipes u ! s)) \<le> 1024" using ok pipe_ok_size [OF ok] by simp
  ultimately show ?thesis using s by (simp add: held_in_def)
qed

section \<open>Properties\<close>

lemma resolved_fd:
  assumes "resolve_pipe_fd u pid fd w = Some pipe" "find_live u pid = Some i"
  shows "\<exists>d. fd_index u i fd = Some d \<and> fd_kind (p_fds (processes u ! i) ! d) = (if w then PipeWriteFd else PipeReadFd) \<and>
    fd_pipe (p_fds (processes u ! i) ! d) = pipe"
  using assms by (auto simp: resolve_pipe_fd_def find_live_entry Let_def split: option.splits if_splits)

lemma read_file_pipe:
  assumes "resolve_pipe_fd u pid fd False = Some pipe"
  shows "snd (read_file e pid fd ok sz u) = u \<or> (\<exists>i. snd (read_file e pid fd ok sz u) = snd (read_pipe i pipe sz u))"
proof (cases "find_live u pid")
  case None
  then show ?thesis by (simp add: read_file_def)
next
  case (Some i)
  with resolved_fd [OF assms Some] show ?thesis by (auto simp: read_file_def)
qed

lemma write_file_pipe:
  assumes "resolve_pipe_fd u pid fd True = Some pipe"
  shows "snd (write_file e pid fd ok buf u) = u \<or> (\<exists>i. snd (write_file e pid fd ok buf u) = snd (write_pipe i pipe buf u))"
proof (cases "find_live u pid")
  case None
  then show ?thesis by (simp add: write_file_def)
next
  case (Some i)
  with resolved_fd [OF assms Some] show ?thesis by (auto simp: write_file_def)
qed

text \<open>A writer and a reader on one pipe; the reader waits for data with a buffer at address 8, which the single page table
  maps.\<close>

definition demo_uenv :: user_env where
  "demo_uenv = \<lparr>e_vfs = demo_env, e_framebuffer = \<lparr>fb_base = 0, fb_width = 0, fb_height = 0, fb_pixels_per_scanline = 0,
     fb_bytes_per_pixel = 0\<rparr>, e_configure_timer = True\<rparr>"

definition demo_users :: users where
  "demo_users = \<lparr>u_enabled = True,
     processes = [empty_process\<lparr>p_pid := 1, p_state := PRunnable, p_main_thread := 1, p_fds := (replicate 8 empty_fd)[0 := make_pipe_descriptor 1 1 True]\<rparr>,
       empty_process\<lparr>p_pid := 2, p_parent := 1, p_state := PRunnable, p_main_thread := 2, p_fds := (replicate 8 empty_fd)[0 := make_pipe_descriptor 0 1 False]\<rparr>],
     uthreads = [empty_thread\<lparr>t_tid := 1, t_pid := 1, t_state := TRunning\<rparr>,
       empty_thread\<lparr>t_tid := 2, t_pid := 2, t_state := TBlocked, t_block := PipeReadBlock, t_wait_pipe := 1, t_wait_buffer := 8,
         t_wait_size := 4, t_root := 0x1000\<rparr>],
     pipes = (replicate 8 empty_pipe)[0 := empty_pipe\<lparr>pp_id := 1, pp_open := True\<rparr>],
     next_pid = 3, next_tid = 3, active_pid = 1, active_tid = 1, last_selected_tid = 1, last_user_pick_index = 0,
     current_slice_ticks = 0, expired_slices = 0, foreground_group = 1, udiag = zero_udiag, next_pipe_id = 2, user_preemption = False,
     u_fs = demo_vfs, u_machine = demo_machine\<lparr>m_mem := (\<lambda>a. if a = 0x1000 then 7 else if a = 0x1001 then 0x10 else 0)\<rparr>, u_log = []\<rparr>"

lemma demo_users_pipes: "pipes_ok demo_users"
  by (simp add: pipes_ok_def demo_users_def pipe_ok_def empty_pipe_def numeral_eq_Suc)

lemma demo_users_resolve: "resolve_pipe_fd demo_users 2 0 False = Some 1" "resolve_pipe_fd demo_users 1 1 True = Some 1"
  by (simp_all add: resolve_pipe_fd_def demo_users_def live_entry_def live_def empty_process_def fd_index_def make_pipe_descriptor_def
      find_pipe_def empty_pipe_def numeral_eq_Suc)

lemma demo_users_block: "pipe_read_would_block demo_users 2 0"
  by (simp add: pipe_read_would_block_def demo_users_def live_entry_def live_def empty_process_def make_pipe_descriptor_def
      find_pipe_def empty_pipe_def pipe_has_live_writer_def fd_on_def numeral_eq_Suc)

lemma demo_users_held: "held_in demo_users 1 = []" "pipe_has_live_writer demo_users 1" "pipe_has_live_reader demo_users 1"
  by (simp_all add: held_in_def demo_users_def find_pipe_def empty_pipe_def held_def pipe_has_live_writer_def pipe_has_live_reader_def
      live_def empty_process_def fd_on_def make_pipe_descriptor_def numeral_eq_Suc)

lemma demo_users_mapped: "as_translate (u_machine demo_users) 0x1000 8 = 0x1008"
  by code_simp

lemma demo_users_quiet: "none_ready 1 demo_users"
  using demo_users_held by (auto simp: none_ready_def ready_reader_def ready_writer_def waiting_def demo_users_def empty_thread_def)

lemma demo_users_buffers: "\<forall>t \<in> set (uthreads demo_users). waiting PipeReadBlock 1 demo_users t \<longrightarrow> buffer_mapped demo_users t"
  using demo_users_mapped by (simp add: demo_users_def empty_thread_def buffer_mapped_def waiting_def)

text \<open>C20. A pipe is a stream. Over any sequence of reads and writes by any processes, on whatever descriptors, and counting
  the calls of waiting threads that those calls complete: what the pipe held before followed by all the bytes it accepted
  is all the bytes it handed out followed by what it holds now, so nothing is lost, doubled or reordered. It never holds
  more than its capacity.\<close>

theorem pipe_stream:
  assumes "pipes_ok u" and "pipe_run e pipe cs u = ((ins, outs), u')"
  shows "held_in u pipe @ ins = outs @ held_in u' pipe \<and> length (held_in u' pipe) \<le> 1024"
proof -
  have s: "pipes_ok u' \<and> held_in u pipe @ ins = outs @ held_in u' pipe" by (rule pipe_run_stream [OF assms])
  have "length (held_in u' pipe) \<le> 1024"
    using find_pipe_slot [of u' pipe] pipe_ok_size s by (auto simp: held_in_def slot_ok_def split: option.split)
  with s show ?thesis by simp
qed

theorem pipe_stream_witness:
  "let r = pipe_run demo_uenv 1 [WriteCall 1 1 [104, 105], ReadCall 2 0 5] demo_users in
   held_in demo_users 1 @ fst (fst r) = snd (fst r) @ held_in (snd r) 1 \<and> length (held_in (snd r) 1) \<le> 1024"
  unfolding Let_def
  by (rule pipe_stream [OF demo_users_pipes, of demo_uenv 1 "[WriteCall 1 1 [104, 105], ReadCall 2 0 5]"]) (simp only: prod.collapse)



end
