(* ===== verification/Lifecycle.thy ===== *)
theory Lifecycle
  imports Pipes
begin

text \<open>
  The end of a process: exit, the parent's wait, and reaping. Waking the threads that waited, on its pipes or for its exit,
  changes no process; closing its descriptors changes that process alone; reaping leaves none of its threads.
\<close>

section \<open>What waking leaves alone\<close>

lemma processes_serve [simp]: "processes (snd (serve_waiter pipe ps r w k u)) = processes u"
proof -
  have "processes (snd (serve_reader pipe ps k u)) = processes u"
    by (auto simp: serve_reader_def Let_def split: prod.splits)
  moreover have "processes (snd (serve_writer pipe ps k u)) = processes u" by (auto simp: serve_writer_def Let_def)
  ultimately show ?thesis by (auto simp: serve_waiter_def Let_def split_beta split: option.split)
qed

lemma processes_wake_round [simp]: "processes (snd (wake_round pipe ps r w ks u)) = processes u"
proof (induction ks arbitrary: u)
  case (Cons k ks)
  then show ?case by (simp add: split_beta)
qed simp

lemma processes_wake_rounds [simp]: "processes (snd (wake_rounds pipe ps n r w u)) = processes u"
  by (induction n arbitrary: r w u) (simp_all add: split_beta Let_def)

lemma processes_wake_pipe [simp]: "processes (snd (wake_pipe_waiters pipe r w u)) = processes u"
  by (simp add: wake_pipe_waiters_def del: wake_rounds.simps)

lemma processes_wake_waiter [simp]: "processes (snd (wake_waiter target code k nu)) = processes (snd nu)"
  by (cases nu) (auto simp: wake_waiter_def Let_def split: option.split)

lemma processes_wake_waiters [simp]: "processes (snd (wake_process_waiters target code u)) = processes u"
proof -
  have "processes (snd (fold (wake_waiter target code) ks nu)) = processes (snd nu)" for ks nu
    by (induction ks arbitrary: nu) simp_all
  then show ?thesis by (simp add: wake_process_waiters_def)
qed

lemma processes_gate [simp]: "processes (snd (update_user_preemption_gate e u)) = processes u" "uthreads (snd (update_user_preemption_gate e u)) = uthreads u"
  by (auto simp: update_user_preemption_gate_def start_lapic_system_tick_def log_text_def log_number_def with_udiag_def Let_def)

lemma processes_fold: "(\<And>x u. processes (f x u) = processes u) \<Longrightarrow> processes (fold f xs u) = processes u"
  by (induction xs arbitrary: u) simp_all

lemma processes_cleanup [simp]: "processes (snd (cleanup_pipe_if_unreferenced pipe u)) = processes u"
  by (auto simp: cleanup_pipe_if_unreferenced_def Let_def split: option.split)

section \<open>Exit\<close>

lemma find_live_idx: "find_live u pid = Some i \<Longrightarrow> find_process u pid = Some i \<and> i < length (processes u) \<and> p_pid (processes u ! i) = pid \<and> live (processes u ! i)"
  by (auto simp: find_live_def find_process_def live_def split: option.splits if_splits dest: find_idx_bound find_idx_holds)

lemma exit_process_processes:
  assumes "find_live u pid = Some i"
  shows "processes (snd (exit_process e pid code reason u)) =
    (processes u)[i := (processes u ! i)\<lparr>p_state := PExited, p_exit_code := code, p_reason := reason\<rparr>]"
  using assms
  by (auto simp: exit_process_def Let_def upd_process_def processes_fold split: option.split)

section \<open>Reaping\<close>

text \<open>Closing descriptors changes one process, and there only the descriptors.\<close>

lemma close_descriptor_processes:
  assumes "i < length (processes u)" "d < length (p_fds (processes u ! i))"
  shows "\<exists>x. \<not> fd_open x \<and>
    processes (close_process_descriptor i d u) = (processes u)[i := (processes u ! i)\<lparr>p_fds := (p_fds (processes u ! i))[d := x]\<rparr>]"
proof (cases "fd_open (p_fds (processes u ! i) ! d)")
  case True
  then show ?thesis
    by (auto simp: close_process_descriptor_def Let_def upd_fd_def upd_process_def with_fs_def empty_fd_def intro!: exI [of _ empty_fd])
next
  case False
  then show ?thesis
    by (auto simp: close_process_descriptor_def Let_def intro!: exI [of _ "p_fds (processes u ! i) ! d"])
qed

lemma close_all_processes:
  "i < length (processes u) \<Longrightarrow> n \<le> length (p_fds (processes u ! i)) \<Longrightarrow>
   \<exists>fds. length fds = length (p_fds (processes u ! i)) \<and> (\<forall>d < n. \<not> fd_open (fds ! d)) \<and>
     processes (fold (close_process_descriptor i) [0..<n] u) = (processes u)[i := (processes u ! i)\<lparr>p_fds := fds\<rparr>]"
proof (induction n)
  case 0
  then show ?case by (auto intro!: exI [of _ "p_fds (processes u ! i)"])
next
  case (Suc n)
  then obtain fds where f: "length fds = length (p_fds (processes u ! i))" "\<forall>d < n. \<not> fd_open (fds ! d)"
    "processes (fold (close_process_descriptor i) [0..<n] u) = (processes u)[i := (processes u ! i)\<lparr>p_fds := fds\<rparr>]"
    by auto
  let ?v = "fold (close_process_descriptor i) [0..<n] u"
  have v: "i < length (processes ?v)" "n < length (p_fds (processes ?v ! i))" using f Suc.prems by simp_all
  obtain x where x: "\<not> fd_open x" "processes (close_process_descriptor i n ?v) = (processes ?v)[i := (processes ?v ! i)\<lparr>p_fds := (p_fds (processes ?v ! i))[n := x]\<rparr>]"
    using close_descriptor_processes [OF v] by blast
  have "\<forall>d < Suc n. \<not> fd_open (fds[n := x] ! d)" using f(1,2) x(1) Suc.prems by (auto simp: nth_list_update less_Suc_eq)
  with f x Suc.prems(1) show ?case by (auto intro!: exI [of _ "fds[n := x]"])
qed

lemma fold_snd: "snd (fold (\<lambda>d (c, u). (f d c u, g d u)) ds (c, u)) = fold g ds u"
  by (induction ds arbitrary: c u) simp_all

lemma reap_thread_frame [simp]: "processes (reap_thread pid k u) = processes u" "length (uthreads (reap_thread pid k u)) = length (uthreads u)"
  by (simp_all add: reap_thread_def upd_uthread_def Let_def)

lemma length_reap_threads: "length (uthreads (fold (reap_thread pid) ks u)) = length (uthreads u)"
  by (induction ks arbitrary: u) simp_all

lemma reap_thread_at:
  "k < length (uthreads u) \<Longrightarrow> t_state (uthreads (reap_thread pid k u) ! k) = TEmpty \<or> t_pid (uthreads (reap_thread pid k u) ! k) \<noteq> pid"
  by (auto simp: reap_thread_def upd_uthread_def Let_def empty_thread_def)

lemma reap_threads_done:
  "n \<le> length (uthreads u) \<Longrightarrow> k < n \<Longrightarrow>
   t_state (uthreads (fold (reap_thread pid) [0..<n] u) ! k) = TEmpty \<or> t_pid (uthreads (fold (reap_thread pid) [0..<n] u) ! k) \<noteq> pid"
proof (induction n)
  case (Suc n)
  let ?v = "fold (reap_thread pid) [0..<n] u"
  have l: "length (uthreads ?v) = length (uthreads u)" by (rule length_reap_threads)
  show ?case
  proof (cases "k = n")
    case True
    with Suc.prems l reap_thread_at [of n ?v pid] show ?thesis by simp
  next
    case False
    then have "uthreads (reap_thread pid n ?v) ! k = uthreads ?v ! k" by (simp add: reap_thread_def upd_uthread_def Let_def)
    with Suc False show ?thesis by simp
  qed
qed simp

lemma reap_exited_result:
  assumes "find_process u pid = Some i" "p_state (processes u ! i) = PExited"
  shows "\<exists>fds. (\<forall>x \<in> set fds. \<not> fd_open x) \<and> processes (snd (reap_exited e pid u)) =
      (processes u)[i := clear_process ((processes u ! i)\<lparr>p_fds := fds, p_owned := []\<rparr>)]"
    and "\<forall>t \<in> set (uthreads (snd (reap_exited e pid u))). t_pid t = pid \<longrightarrow> t_state t = TEmpty"
proof -
  have i: "i < length (processes u)" "p_pid (processes u ! i) = pid"
    using assms(1) by (auto simp: find_process_def dest: find_idx_bound find_idx_holds)
  define step where "step = (\<lambda>d (closed, u). let x = p_fds (processes u ! i) ! d in
      (if fd_open x \<and> (fd_kind x = PipeReadFd \<or> fd_kind x = PipeWriteFd) then closed @ [fd_pipe x] else closed,
       close_process_descriptor i d u))"
  let ?n = "length (p_fds (processes u ! i))"
  obtain closed u1 where u1: "fold step [0..<?n] ([], u) = (closed, u1)" by fastforce
  have "snd (fold step [0..<?n] ([], u)) = fold (close_process_descriptor i) [0..<?n] u"
    unfolding step_def Let_def by (rule fold_snd)
  then have "u1 = fold (close_process_descriptor i) [0..<?n] u" using u1 by simp
  then obtain fds where f: "length fds = ?n" "\<forall>d < ?n. \<not> fd_open (fds ! d)" "processes u1 = (processes u)[i := (processes u ! i)\<lparr>p_fds := fds\<rparr>]"
    using close_all_processes [OF i(1), of ?n] by auto
  define u2 where "u2 = fold (\<lambda>pipe u. snd (cleanup_pipe_if_unreferenced pipe u)) closed u1"
  have p2: "processes u2 = (processes u)[i := (processes u ! i)\<lparr>p_fds := fds\<rparr>]" unfolding u2_def by (simp add: processes_fold f(3))
  define u3 where "u3 = upd_process i (\<lambda>p. p\<lparr>p_owned := []\<rparr>) (u2\<lparr>u_machine := fold (\<lambda>(virt, phys). m_free_page phys) (p_owned (processes u2 ! i)) (u_machine u2)\<rparr>)"
  have p3: "processes u3 = (processes u)[i := (processes u ! i)\<lparr>p_fds := fds, p_owned := []\<rparr>]"
    unfolding u3_def using i p2 by (simp add: upd_process_def)
  define u4 where "u4 = (if p_owns_space (processes u3 ! i) \<and> p_root (processes u3 ! i) \<noteq> 0
      then u3\<lparr>u_machine := snd (destroy_address_space (u_machine u3) (p_root (processes u3 ! i)))\<rparr> else u3)"
  have p4: "processes u4 = processes u3" "p_pid (processes u4 ! i) = pid" using i p3 by (simp_all add: u4_def)
  define u5 where "u5 = fold (reap_thread pid) [0..<length (uthreads u4)] u4"
  have p5: "processes u5 = processes u3" unfolding u5_def by (simp add: processes_fold p4)
  have r: "reap_exited e pid u = update_user_preemption_gate e (upd_process i clear_process
      (if active_pid u5 = p_pid (processes u5 ! i) then u5\<lparr>active_pid := 0\<rparr> else u5))"
    using assms u1 p4(2) unfolding u5_def u4_def u3_def u2_def step_def by (simp add: reap_exited_def Let_def)
  show "\<exists>fds. (\<forall>x \<in> set fds. \<not> fd_open x) \<and> processes (snd (reap_exited e pid u)) =
      (processes u)[i := clear_process ((processes u ! i)\<lparr>p_fds := fds, p_owned := []\<rparr>)]"
    using f(1,2) i by (intro exI [of _ fds]) (auto simp: r upd_process_def p5 p3 in_set_conv_nth)
  have l5: "length (uthreads u5) = length (uthreads u4)" by (simp add: u5_def length_reap_threads)
  have d5: "t_state (uthreads u5 ! k) = TEmpty \<or> t_pid (uthreads u5 ! k) \<noteq> pid" if "k < length (uthreads u5)" for k
    using reap_threads_done [of "length (uthreads u4)" u4 k pid] that l5 by (simp add: u5_def)
  have "uthreads (snd (reap_exited e pid u)) = uthreads u5" by (simp add: r upd_process_def)
  then show "\<forall>t \<in> set (uthreads (snd (reap_exited e pid u))). t_pid t = pid \<longrightarrow> t_state t = TEmpty"
    using d5 by (metis in_set_conv_nth)
qed

section \<open>The end of a process\<close>



end
