(* ===== verification/Fat.thy ===== *)
theory Fat
  imports Block Memory VfsFiles
begin

text \<open>
  The FAT16 volume that is mounted below \<open>/mnt/boot\<close> (\<open>kernel/src/fs/vfs.cpp\<close>): the boot sector, the chain of clusters of a
  file, the directories. Sectors come from the block device with its cache, frames from the memory manager behind it.
  A local buffer is the list of its bytes; the names of the mounted files stand in a table of their own that only grows.
\<close>

section \<open>State\<close>

record Fat16Geometry =
  bytes_per_sector :: u16
  sectors_per_cluster :: u8
  reserved_sectors :: u16
  fat_count :: u8
  root_entries :: u16
  fat_sectors :: u16
  total_sectors :: u32
  root_sector :: u32
  root_dir_sectors :: u32
  data_sector :: u32

text \<open>What mounting works on: the device, memory, the file system, the table of mounted names, what has been registered so
  far, and the messages to the kernel log.\<close>

record fat_state =
  f_device :: BlockDevice
  f_mem :: mem
  f_fs :: vfs
  mounted_fat_paths :: "string list"
  f_registered :: u32
  f_mounted_bytes :: u64
  f_log :: "(string \<times> u64 option) list"

definition MountReadOnly :: u32 where "MountReadOnly = 1"
definition MountDiskBacked :: u32 where "MountDiskBacked = 8"
definition kMaxMountedFatNodes :: nat where "kMaxMountedFatNodes = 256"

section \<open>Reading the volume\<close>

definition read_le16 :: "u8 list \<Rightarrow> nat \<Rightarrow> u16" where
  "read_le16 bs off = ucast (bs ! off) OR push_bit 8 (ucast (bs ! (off + 1)))"

definition read_le32 :: "u8 list \<Rightarrow> nat \<Rightarrow> u32" where
  "read_le32 bs off = ucast (bs ! off) OR push_bit 8 (ucast (bs ! (off + 1))) OR push_bit 16 (ucast (bs ! (off + 2))) OR
     push_bit 24 (ucast (bs ! (off + 3)))"

definition parse_fat16_geometry :: "u8 list \<Rightarrow> Fat16Geometry option" where
  "parse_fat16_geometry sector =
     (if sector ! 510 \<noteq> 0x55 \<or> sector ! 511 \<noteq> 0xaa then None
      else if sector ! 54 \<noteq> 0x46 \<or> sector ! 55 \<noteq> 0x41 \<or> sector ! 56 \<noteq> 0x54 \<or> sector ! 57 \<noteq> 0x31 \<or> sector ! 58 \<noteq> 0x36 then None
      else
        let total16 = read_le16 sector 19;
            total = (if total16 \<noteq> 0 then ucast total16 else read_le32 sector 32);
            reserved = read_le16 sector 14; fats = sector ! 16; entries = read_le16 sector 17; per_fat = read_le16 sector 22 in
        if read_le16 sector 11 \<noteq> 512 \<or> sector ! 13 = 0 \<or> reserved = 0 \<or> fats = 0 \<or> entries = 0 \<or> per_fat = 0 \<or> total = 0 then None
        else
          let dirs = (ucast entries * 32 + 511) div 512;
              root = ucast reserved + ucast fats * ucast per_fat;
              dat = root + dirs
          in if dat < total
             then Some \<lparr>bytes_per_sector = read_le16 sector 11, sectors_per_cluster = sector ! 13, reserved_sectors = reserved,
               fat_count = fats, root_entries = entries, fat_sectors = per_fat, total_sectors = total, root_sector = root,
               root_dir_sectors = dirs, data_sector = dat\<rparr>
             else None)"

definition fat_read :: "(u64 \<Rightarrow> u8 list option) \<Rightarrow> u32 \<Rightarrow> fat_state \<Rightarrow> u8 list option \<times> fat_state" where
  "fat_read disk lba s = (let (r, d) = read_sector disk (ucast lba) True (f_device s) in (r, s\<lparr>f_device := d\<rparr>))"

definition read_fat_entry :: "(u64 \<Rightarrow> u8 list option) \<Rightarrow> Fat16Geometry \<Rightarrow> u16 \<Rightarrow> fat_state \<Rightarrow> u16 option \<times> fat_state" where
  "read_fat_entry disk g cluster s =
     (let off = ucast cluster * 2 :: u32;
          (r, s) = fat_read disk (ucast (reserved_sectors g) + off div 512) s
      in case r of None \<Rightarrow> (None, s) | Some sector \<Rightarrow> (Some (read_le16 sector (unat (off mod 512))), s))"

definition first_sector :: "Fat16Geometry \<Rightarrow> u16 \<Rightarrow> u32" where
  "first_sector g cluster = data_sector g + (ucast cluster - 2) * ucast (sectors_per_cluster g)"

text \<open>The loop over the sectors of a cluster: \<open>got\<close> (\<open>copied\<close> in the source) counts the bytes that stand at \<open>base\<close>.\<close>

fun load_sectors :: "(u64 \<Rightarrow> u8 list option) \<Rightarrow> u64 \<Rightarrow> u32 \<Rightarrow> u32 list \<Rightarrow> u32 \<Rightarrow> fat_state \<Rightarrow> (bool \<times> u32) \<times> fat_state" where
  "load_sectors disk base file_size [] got s = ((True, got), s)"
| "load_sectors disk base file_size (lba # lbas) got s =
     (if \<not> got < file_size then ((True, got), s)
      else case fat_read disk lba s of
        (None, s) \<Rightarrow> ((False, got), s)
      | (Some sector, s) \<Rightarrow>
          let remaining = file_size - got;
              to_copy = (if remaining < 512 then remaining else 512);
              s = s\<lparr>f_mem := put_bytes (base + ucast got) (take (unat to_copy) sector) (f_mem s)\<rparr>
          in load_sectors disk base file_size lbas (got + to_copy) s)"

text \<open>The loop over the clusters; \<open>n\<close> is what the guard of 4096 leaves.\<close>

fun load_clusters :: "(u64 \<Rightarrow> u8 list option) \<Rightarrow> Fat16Geometry \<Rightarrow> u64 \<Rightarrow> u32 \<Rightarrow> nat \<Rightarrow> u16 \<Rightarrow> u32 \<Rightarrow> fat_state \<Rightarrow> (bool \<times> u32) \<times> fat_state" where
  "load_clusters disk g base file_size 0 cluster got s = ((True, got), s)"
| "load_clusters disk g base file_size (Suc n) cluster got s =
     (if \<not> (2 \<le> cluster \<and> cluster < 0xfff8 \<and> got < file_size) then ((True, got), s)
      else
        let ((ok, got), s) = load_sectors disk base file_size
              (map (\<lambda>i. first_sector g cluster + i) (wrange 0 (ucast (sectors_per_cluster g)))) got s
        in if \<not> ok then ((False, got), s)
           else case read_fat_entry disk g cluster s of
             (None, s) \<Rightarrow> ((False, got), s)
           | (Some cluster', s) \<Rightarrow> load_clusters disk g base file_size n cluster' got s)"

definition fat_pmm :: "fat_state \<Rightarrow> pmm" where "fat_pmm s = ahci_pmm (driver (f_device s))"

definition with_fat_pmm :: "pmm \<Rightarrow> fat_state \<Rightarrow> fat_state" where
  "with_fat_pmm p s = s\<lparr>f_device := (f_device s)\<lparr>driver := (driver (f_device s))\<lparr>ahci_pmm := p\<rparr>\<rparr>\<rparr>"

text \<open>The result is the address of the contents.\<close>

definition load_fat_file :: "(u64 \<Rightarrow> u8 list option) \<Rightarrow> Fat16Geometry \<Rightarrow> u16 \<Rightarrow> u32 \<Rightarrow> fat_state \<Rightarrow> u64 option \<times> fat_state" where
  "load_fat_file disk g first_cluster file_size s =
     (if first_cluster < 2 \<or> file_size = 0 then (None, s)
      else
        let pages = align_up (ucast file_size) kPageSize div kPageSize;
            (base, p) = allocate_contiguous (fat_pmm s) pages;
            s = with_fat_pmm p s
        in if base = 0 then (None, s)
           else
             let s = s\<lparr>f_mem := memset (f_mem s) base 0 (pages * kPageSize)\<rparr>;
                 ((ok, got), s) = load_clusters disk g base file_size 4096 first_cluster 0 s
             in (if ok \<and> got = file_size then Some base else None, s))"

section \<open>Names\<close>

definition lower_ascii :: "u8 \<Rightarrow> char" where
  "lower_ascii c = (let d = (if 65 \<le> c \<and> c \<le> 90 then c - 65 + 97 else c) in char_of (unat d))"

definition fat_short_name :: "u8 list \<Rightarrow> string option" where
  "fat_short_name entry =
     (if entry ! 0 = 0 \<or> entry ! 0 = 0xe5 \<or> entry ! 0 = 0x2e then None
      else
        let stem = map lower_ascii (takeWhile (\<lambda>c. c \<noteq> 0x20) (take 8 entry));
            ext = take 3 (drop 8 entry);
            dot = (if \<exists>c \<in> set ext. c \<noteq> 0x20 then ''.'' else []);
            name = stem @ dot @ map lower_ascii (takeWhile (\<lambda>c. c \<noteq> 0x20) ext)
        in if name = [] then None else Some (takeWhile (\<lambda>c. c \<noteq> CHR 0x00) name))"

definition reserve_mounted_path :: "string \<Rightarrow> string \<Rightarrow> fat_state \<Rightarrow> string option \<times> fat_state" where
  "reserve_mounted_path prefix name s =
     (if kMaxMountedFatNodes \<le> length (mounted_fat_paths s) then (None, s)
      else
        let out = take 63 prefix;
            out = (if length out < 63 \<and> 1 < length out \<and> last out \<noteq> CHR ''/'' then out @ ''/'' else out);
            out = out @ take (63 - length out) name
        in (if out = [] then None else Some out, s\<lparr>mounted_fat_paths := mounted_fat_paths s @ [out]\<rparr>))"

section \<open>Mounting\<close>

definition register_in :: "(vfs \<Rightarrow> bool \<times> vfs) \<Rightarrow> fat_state \<Rightarrow> bool \<times> fat_state" where
  "register_in f s = (let (ok, v) = f (f_fs s) in (ok, s\<lparr>f_fs := v\<rparr>))"

definition count_registered :: "bool \<Rightarrow> u64 \<Rightarrow> fat_state \<Rightarrow> fat_state" where
  "count_registered ok n s =
     (if ok then s\<lparr>f_registered := f_registered s + 1, f_mounted_bytes := f_mounted_bytes s + n\<rparr> else s)"

text \<open>One directory entry; \<open>sub\<close> mounts the directory it may name.\<close>

definition mount_fat_entry ::
  "(u64 \<Rightarrow> u8 list option) \<Rightarrow> Fat16Geometry \<Rightarrow> (string \<Rightarrow> u16 \<Rightarrow> fat_state \<Rightarrow> fat_state) \<Rightarrow> string \<Rightarrow> u8 list \<Rightarrow> fat_state \<Rightarrow> fat_state" where
  "mount_fat_entry disk g sub parent entry s =
     (let attr = entry ! 11 in
      if entry ! 0 = 0xe5 \<or> entry ! 0 = 0x2e \<or> attr AND 0x0f = 0x0f \<or> attr AND 0x08 \<noteq> 0 then s
      else case fat_short_name entry of None \<Rightarrow> s
      | Some name \<Rightarrow>
        (case reserve_mounted_path parent name s of (None, s) \<Rightarrow> s
         | (Some path, s) \<Rightarrow>
           let cluster = read_le16 entry 26; sz = read_le32 entry 28 in
           if attr AND 0x10 \<noteq> 0 then
             let (ok, s) = register_in (register_directory (Some (Lit path)) False) s
             in sub path cluster (count_registered ok 0 s)
           else case load_fat_file disk g cluster sz s of (None, s) \<Rightarrow> s
             | (Some base, s) \<Rightarrow>
               let (ok, s) = register_in (register_disk_file (Some (Lit path)) base (ucast sz)) s
               in count_registered ok (ucast sz) s))"

text \<open>The entries of one sector; an entry that starts with zero ends the whole directory.\<close>

definition entries_of :: "u8 list \<Rightarrow> u8 list list" where
  "entries_of sector = map (\<lambda>i. take 32 (drop (i * 32) sector)) [0..<16]"

definition mount_sector :: "(u8 list \<Rightarrow> fat_state \<Rightarrow> fat_state) \<Rightarrow> u8 list \<Rightarrow> fat_state \<Rightarrow> bool \<times> fat_state" where
  "mount_sector mount sector = each_ok (\<lambda>entry s. if entry ! 0 = 0 then (False, s) else (True, mount entry s)) (entries_of sector)"

definition mount_lba :: "(u64 \<Rightarrow> u8 list option) \<Rightarrow> (u8 list \<Rightarrow> fat_state \<Rightarrow> fat_state) \<Rightarrow> u32 \<Rightarrow> fat_state \<Rightarrow> bool \<times> fat_state" where
  "mount_lba disk mount lba s =
     (case fat_read disk lba s of (None, s) \<Rightarrow> (False, s) | (Some sector, s) \<Rightarrow> mount_sector mount sector s)"

fun mount_clusters ::
  "(u64 \<Rightarrow> u8 list option) \<Rightarrow> Fat16Geometry \<Rightarrow> (u8 list \<Rightarrow> fat_state \<Rightarrow> fat_state) \<Rightarrow> nat \<Rightarrow> u16 \<Rightarrow> fat_state \<Rightarrow> fat_state" where
  "mount_clusters disk g mount 0 cluster s = s"
| "mount_clusters disk g mount (Suc n) cluster s =
     (if \<not> (2 \<le> cluster \<and> cluster < 0xfff8) then s
      else
        let (ok, s) = each_ok (mount_lba disk mount)
              (map (\<lambda>i. first_sector g cluster + i) (wrange 0 (ucast (sectors_per_cluster g)))) s
        in if \<not> ok then s
           else case read_fat_entry disk g cluster s of (None, s) \<Rightarrow> s
             | (Some cluster', s) \<Rightarrow> mount_clusters disk g mount n cluster' s)"

text \<open>Directories are followed to depth 4: \<open>levels\<close> is how many may still be opened.\<close>

fun mount_fat_directory_cluster ::
  "(u64 \<Rightarrow> u8 list option) \<Rightarrow> Fat16Geometry \<Rightarrow> nat \<Rightarrow> string \<Rightarrow> u16 \<Rightarrow> fat_state \<Rightarrow> fat_state" where
  "mount_fat_directory_cluster disk g 0 parent cluster s = s"
| "mount_fat_directory_cluster disk g (Suc levels) parent cluster s =
     (if cluster < 2 then s
      else mount_clusters disk g (mount_fat_entry disk g (mount_fat_directory_cluster disk g levels) parent) 4096 cluster s)"

definition finish_mount :: "fat_state \<Rightarrow> fat_state" where
  "finish_mount s =
     (let s = s\<lparr>f_log := f_log s @ [(''FAT16 mounted entries'', Some (ucast (f_registered s)))]\<rparr>
      in snd (register_in (register_mount (Some ''/mnt/boot'') (Some ''fat16'') (Some ''boot-disk0'') (MountReadOnly OR MountDiskBacked)
           (ucast (f_registered s + 1)) (f_mounted_bytes s)) s))"

text \<open>The sectors of the root directory. A sector that cannot be read ends the mount without an entry in the mount table.\<close>

fun mount_root_sectors :: "(u64 \<Rightarrow> u8 list option) \<Rightarrow> (u8 list \<Rightarrow> fat_state \<Rightarrow> fat_state) \<Rightarrow> u32 list \<Rightarrow> fat_state \<Rightarrow> fat_state" where
  "mount_root_sectors disk mount [] s = finish_mount s"
| "mount_root_sectors disk mount (lba # lbas) s =
     (case fat_read disk lba s of (None, s) \<Rightarrow> s
      | (Some sector, s) \<Rightarrow>
          let (ok, s) = mount_sector mount sector s in if ok then mount_root_sectors disk mount lbas s else finish_mount s)"

definition mount_fat16_root :: "(u64 \<Rightarrow> u8 list option) \<Rightarrow> fat_state \<Rightarrow> fat_state" where
  "mount_fat16_root disk s =
     (case fat_read disk 0 s of (None, s) \<Rightarrow> s
      | (Some boot_sector, s) \<Rightarrow>
        (case parse_fat16_geometry boot_sector of None \<Rightarrow> s
         | Some g \<Rightarrow>
           let s = snd (register_in (register_directory (Some (Lit ''/mnt'')) False) s);
               s = snd (register_in (register_directory (Some (Lit ''/mnt/boot'')) False) s);
               s = s\<lparr>f_log := f_log s @ [(''FAT16 disk mount /mnt/boot'', None), (''FAT16 root sector'', Some (ucast (root_sector g))),
                     (''FAT16 data sector'', Some (ucast (data_sector g)))], f_registered := 0, f_mounted_bytes := 0\<rparr>
           in mount_root_sectors disk (mount_fat_entry disk g (mount_fat_directory_cluster disk g 4) ''/mnt/boot'')
                (map (\<lambda>i. root_sector g + i) (wrange 0 (root_dir_sectors g))) s))"

section \<open>The contents of a file\<close>

text \<open>The volume as the disk holds it, without device and cache: its sectors, the sectors and the bytes of a cluster, the chain
  of clusters in the allocation table.\<close>

definition volume :: "(u64 \<Rightarrow> u8 list option) \<Rightarrow> BlockDevice \<Rightarrow> u32 \<Rightarrow> u8 list option" where
  "volume disk d lba = raw_read disk d (ucast lba) True"

definition cluster_sectors :: "Fat16Geometry \<Rightarrow> u16 \<Rightarrow> u32 list" where
  "cluster_sectors g c = map (\<lambda>i. of_nat (unat (data_sector g) + (unat c - 2) * unat (sectors_per_cluster g) + i))
     [0..<unat (sectors_per_cluster g)]"

definition bytes_at :: "(u32 \<Rightarrow> u8 list option) \<Rightarrow> u32 list \<Rightarrow> u8 list" where
  "bytes_at rd lbas = concat (map (\<lambda>l. the (rd l)) lbas)"

definition fat_next :: "(u32 \<Rightarrow> u8 list option) \<Rightarrow> Fat16Geometry \<Rightarrow> u16 \<Rightarrow> u16 option" where
  "fat_next rd g c = (let k = 2 * (unat c mod 256) in
     map_option (\<lambda>b. of_nat (unat (b ! k) + 256 * unat (b ! Suc k))) (rd (of_nat (unat (reserved_sectors g) + unat c div 256))))"

fun fat_chain :: "(u32 \<Rightarrow> u8 list option) \<Rightarrow> Fat16Geometry \<Rightarrow> u16 \<Rightarrow> u16 list \<Rightarrow> bool" where
  "fat_chain rd g c [] = True"
| "fat_chain rd g c (x # xs) \<longleftrightarrow> x = c \<and> 2 \<le> c \<and> c < 0xfff8 \<and> (\<forall>l \<in> set (cluster_sectors g c). rd l \<noteq> None) \<and>
     (\<exists>c'. fat_next rd g c = Some c' \<and> fat_chain rd g c' xs)"

definition file_contents :: "(u32 \<Rightarrow> u8 list option) \<Rightarrow> Fat16Geometry \<Rightarrow> u16 list \<Rightarrow> u8 list" where
  "file_contents rd g cs = bytes_at rd (concat (map (cluster_sectors g) cs))"

text \<open>The arithmetic of the code is that of the volume: the first data cluster has number 2, a sector of the table has 256
  entries of two bytes, the low byte first.\<close>

lemma cluster_sectors_words:
  assumes "2 \<le> c"
  shows "map (\<lambda>i. first_sector g c + i) (wrange 0 (ucast (sectors_per_cluster g))) = cluster_sectors g c"
proof -
  have "unat (2 :: u16) \<le> unat c" using assms by (simp add: word_le_nat_alt)
  then have "(of_nat (unat c - 2) :: u32) = ucast c - 2" by (simp add: of_nat_diff unsigned_ucast_eq)
  then have "first_sector g c = of_nat (unat (data_sector g) + (unat c - 2) * unat (sectors_per_cluster g))"
    by (simp add: first_sector_def)
  then show ?thesis by (simp add: cluster_sectors_def wrange_def unat_ucast_up)
qed

lemma read_le16_sum: "read_le16 b k = of_nat (unat (b ! k) + 256 * unat (b ! Suc k))"
proof -
  have "(ucast x :: u16) OR push_bit 8 (ucast y) = ucast x + push_bit 8 (ucast y)" for x y :: u8
    by (subst disjunctive_add) (auto simp: bit_simps dest: bit_imp_le_length)
  then show ?thesis by (simp add: read_le16_def push_bit_eq_mult)
qed

lemma fat_entry_place:
  "unat (ucast c * 2 mod 512 :: u32) = 2 * (unat c mod 256)"
  "ucast r + ucast c * 2 div 512 = (of_nat (unat r + unat c div 256) :: u32)" for c r :: u16
proof -
  have c: "unat c < 2 ^ 16" using unsigned_less [of c] by simp
  then have m: "unat (ucast c * 2 :: u32) = unat c * 2" by (simp add: unat_word_ariths unat_ucast_up)
  show "unat (ucast c * 2 mod 512 :: u32) = 2 * (unat c mod 256)" using m mult_mod_right [of 2 "unat c" 256] by (simp add: unat_mod_distrib mult.commute)
  have "(ucast c * 2 div 512 :: u32) = of_nat (unat c div 256)"
    by (rule word_unat_eq_iff [THEN iffD2]) (use c m in \<open>simp add: unat_div_distrib unat_of_nat_small\<close>)
  then show "ucast r + ucast c * 2 div 512 = (of_nat (unat r + unat c div 256) :: u32)" by simp
qed

lemma bytes_at_append [simp]: "bytes_at rd (xs @ ys) = bytes_at rd xs @ bytes_at rd ys" "bytes_at rd [] = []"
  by (simp_all add: bytes_at_def)

lemma put_bytes_append:
  assumes "length xs + length ys < 2 ^ 64"
  shows "put_bytes (a + of_nat (length xs)) ys (put_bytes a xs m) = put_bytes a (xs @ ys) m"
proof
  fix x
  have n: "unat (of_nat (length xs) :: u64) = length xs" using assms by (simp add: unat_of_nat_small)
  show "put_bytes (a + of_nat (length xs)) ys (put_bytes a xs m) x = put_bytes a (xs @ ys) m x"
  proof (cases "unat (x - a) < length xs")
    case True
    have "unat (x - a - of_nat (length xs)) = unat (x - a) + 2 ^ 64 - length xs"
      using True n unat_sub_if' [of "x - a" "of_nat (length xs)"] by simp
    then have "\<not> unat (x - a - of_nat (length xs)) < length ys" using assms by linarith
    with True show ?thesis by (simp add: put_bytes_def nth_append diff_diff_eq)
  next
    case False
    then have "of_nat (length xs) \<le> x - a" using n by (simp add: word_le_nat_alt)
    then have "unat (x - a - of_nat (length xs)) = unat (x - a) - length xs" using n by (simp add: unat_sub)
    with False show ?thesis by (simp add: put_bytes_def nth_append diff_diff_eq) linarith
  qed
qed

text \<open>What a step of the loader does: it has stored \<open>bs\<close>, as far as the file is long, behind what was there.\<close>

definition loaded :: "(u64 \<Rightarrow> u8 list option) \<Rightarrow> u64 \<Rightarrow> u32 \<Rightarrow> u8 list \<Rightarrow> u32 \<times> fat_state \<Rightarrow> u32 \<times> fat_state \<Rightarrow> bool" where
  "loaded disk base file_size bs = (\<lambda>(got, s) (got', s').
     cache_inv disk (f_device s') \<and> same_disk (f_device s) (f_device s') \<and>
     unat got' = min (unat file_size) (unat got + length bs) \<and>
     f_mem s' = put_bytes (base + ucast got) (take (unat file_size - unat got) bs) (f_mem s))"

lemma volume_same: "same_disk d d' \<Longrightarrow> volume disk d' = volume disk d"
  by (auto simp: volume_def raw_read_def in_range_def same_disk_def)

lemma loaded_none: "cache_inv disk (f_device s) \<Longrightarrow> got \<le> file_size \<Longrightarrow> loaded disk base file_size [] (got, s) (got, s)"
  by (simp add: loaded_def same_disk_def put_bytes_def word_le_nat_alt)

lemma loaded_trans:
  assumes "loaded disk base n a (g, s) (g', s')" "loaded disk base n b (g', s') (g'', s'')" "g \<le> n"
  shows "loaded disk base n (a @ b) (g, s) (g'', s'')"
proof -
  have g: "unat g \<le> unat n" "unat n < 2 ^ 32" "unat g' = min (unat n) (unat g + length a)" "unat g'' = min (unat n) (unat g' + length b)"
    using assms unsigned_less [of n, where 'a = nat] by (simp_all add: loaded_def word_le_nat_alt)
  have "put_bytes (base + ucast g') (take (unat n - unat g') b) (put_bytes (base + ucast g) (take (unat n - unat g) a) (f_mem s))
      = put_bytes (base + ucast g) (take (unat n - unat g) (a @ b)) (f_mem s)"
  proof (cases "unat n < unat g + length a")
    case True
    then show ?thesis using g(1,3) by (simp add: put_bytes_def)
  next
    case False
    have "(ucast g' :: u64) = of_nat (unat g + length a)" using False g(3) by (metis min.absorb2 not_less of_nat_unat)
    then have "base + ucast g' = base + ucast g + of_nat (length a)" by simp
    moreover have "take (unat n - unat g) a = a" using False by simp
    moreover have "unat n - unat g' = unat n - unat g - length a" using False g(3) by simp
    moreover have "length a + length (take (unat n - unat g - length a) b) < 2 ^ 64" using False g(2) by (simp add: min_def; linarith)
    ultimately show ?thesis
      using put_bytes_append [of a "take (unat n - unat g - length a) b" "base + ucast g" "f_mem s"] by (simp add: add.assoc)
  qed
  moreover have "unat g'' = min (unat n) (unat g + length (a @ b))" using g by simp
  ultimately show ?thesis using assms(1,2) by (auto simp: loaded_def same_disk_def)
qed

lemma fat_read_spec:
  assumes "cache_inv disk (f_device s)"
  obtains d where "fat_read disk lba s = (volume disk (f_device s) lba, s\<lparr>f_device := d\<rparr>)" "cache_inv disk d" "same_disk (f_device s) d"
proof (rule that)
  let ?r = "read_sector disk (ucast lba) True (f_device s)"
  have r: "fst ?r = volume disk (f_device s) lba \<and> cache_inv disk (snd ?r) \<and> same_disk (f_device s) (snd ?r)"
    using read_sector_spec [OF assms, of "ucast lba" True] by (simp add: volume_def)
  then show "fat_read disk lba s = (volume disk (f_device s) lba, s\<lparr>f_device := snd ?r\<rparr>)"
    by (simp add: fat_read_def split_beta)
  show "cache_inv disk (snd ?r)" "same_disk (f_device s) (snd ?r)" using r by simp_all
qed

lemma read_fat_entry_spec:
  assumes "cache_inv disk (f_device s)"
  obtains d where "read_fat_entry disk g c s = (fat_next (volume disk (f_device s)) g c, s\<lparr>f_device := d\<rparr>)" "cache_inv disk d"
    "same_disk (f_device s) d"
proof (rule fat_read_spec [OF assms, of "ucast (reserved_sectors g) + ucast c * 2 div 512"])
  fix d
  assume "fat_read disk (ucast (reserved_sectors g) + ucast c * 2 div 512) s =
      (volume disk (f_device s) (ucast (reserved_sectors g) + ucast c * 2 div 512), s\<lparr>f_device := d\<rparr>)"
    and d: "cache_inv disk d" "same_disk (f_device s) d"
  then have "read_fat_entry disk g c s = (fat_next (volume disk (f_device s)) g c, s\<lparr>f_device := d\<rparr>)"
    by (simp add: read_fat_entry_def fat_next_def Let_def fat_entry_place read_le16_sum split: option.split)
  with d show ?thesis by (rule that [rotated 1])
qed

text \<open>The sector buffer of the driver is 512 bytes long.\<close>

abbreviation sectors_full :: "(u64 \<Rightarrow> u8 list option) \<Rightarrow> bool" where
  "sectors_full disk \<equiv> \<forall>lba b. disk lba = Some b \<longrightarrow> length b = 512"

lemma volume_length: "sectors_full disk \<Longrightarrow> volume disk d lba = Some b \<Longrightarrow> length b = 512"
  by (auto simp: volume_def raw_read_def split: if_splits)

lemma load_sectors_spec:
  "cache_inv disk (f_device s) \<Longrightarrow> sectors_full disk \<Longrightarrow> \<forall>l \<in> set lbas. volume disk (f_device s) l \<noteq> None \<Longrightarrow> got \<le> file_size \<Longrightarrow>
   \<exists>got' s'. load_sectors disk base file_size lbas got s = ((True, got'), s') \<and>
     loaded disk base file_size (bytes_at (volume disk (f_device s)) lbas) (got, s) (got', s')"
proof (induction lbas arbitrary: got s)
  case Nil
  then show ?case by (simp add: loaded_none)
next
  case (Cons lba lbas)
  let ?rd = "volume disk (f_device s)"
  show ?case
  proof (cases "got < file_size")
    case False
    then have "loaded disk base file_size (bytes_at ?rd (lba # lbas)) (got, s) (got, s)"
      using Cons.prems(1,4) by (auto simp: loaded_def same_disk_def put_bytes_def)
    with False show ?thesis by auto
  next
    case True
    obtain b where b: "?rd lba = Some b" using Cons.prems(3) by auto
    then have lb: "length b = 512" by (rule volume_length [OF Cons.prems(2)])
    obtain d where d: "fat_read disk lba s = (Some b, s\<lparr>f_device := d\<rparr>)" "cache_inv disk d" "same_disk (f_device s) d"
      using fat_read_spec [OF Cons.prems(1), of lba] b by metis
    define n where "n = (if file_size - got < 512 then file_size - got else 512)"
    define s1 where "s1 = s\<lparr>f_device := d, f_mem := put_bytes (base + ucast got) (take (unat n) b) (f_mem s)\<rparr>"
    have n: "unat n = min (unat file_size - unat got) 512"
      using True by (auto simp: n_def unat_sub word_less_nat_alt word_le_nat_alt min_def)
    have g: "unat (got + n) = unat got + unat n"
      using True n unsigned_less [of file_size, where 'a = nat] by (simp add: unat_word_ariths word_less_nat_alt)
    have "take (unat n) b = take (unat file_size - unat got) b" using n lb by (simp add: min_def)
    then have l1: "loaded disk base file_size b (got, s) (got + n, s1)"
      using d n g lb True by (auto simp: loaded_def s1_def word_less_nat_alt)
    have v: "volume disk (f_device s1) = ?rd" using d(3) by (simp add: s1_def volume_same)
    have "got + n \<le> file_size" using n g True by (simp add: word_le_nat_alt word_less_nat_alt)
    then obtain got' s' where r: "load_sectors disk base file_size lbas (got + n) s1 = ((True, got'), s')"
      "loaded disk base file_size (bytes_at ?rd lbas) (got + n, s1) (got', s')"
      using Cons.IH [of s1 "got + n"] Cons.prems(2,3) d v by (auto simp: s1_def)
    have "load_sectors disk base file_size (lba # lbas) got s = ((True, got'), s')"
      using True d(1) r(1) by (simp add: n_def s1_def Let_def)
    moreover have "loaded disk base file_size (b @ bytes_at ?rd lbas) (got, s) (got', s')"
      by (rule loaded_trans [OF l1 r(2) Cons.prems(4)])
    moreover have "bytes_at ?rd (lba # lbas) = b @ bytes_at ?rd lbas" using b by (simp add: bytes_at_def)
    ultimately show ?thesis by auto
  qed
qed

lemma loaded_device:
  "loaded disk base n bs (g, s) (g', s') \<Longrightarrow> cache_inv disk d \<Longrightarrow> same_disk (f_device s') d \<Longrightarrow>
   loaded disk base n bs (g, s) (g', s'\<lparr>f_device := d\<rparr>)"
  by (simp add: loaded_def same_disk_def)

lemma load_clusters_spec:
  "cache_inv disk (f_device s) \<Longrightarrow> sectors_full disk \<Longrightarrow> fat_chain (volume disk (f_device s)) g c cs \<Longrightarrow> length cs \<le> n \<Longrightarrow>
   got \<le> file_size \<Longrightarrow> unat file_size \<le> unat got + length (file_contents (volume disk (f_device s)) g cs) \<Longrightarrow>
   \<exists>s'. load_clusters disk g base file_size n c got s = ((True, file_size), s') \<and>
     loaded disk base file_size (file_contents (volume disk (f_device s)) g cs) (got, s) (file_size, s')"
proof (induction n arbitrary: c cs got s)
  case 0
  then have "got = file_size" by (simp add: file_contents_def word_le_nat_alt word_unat_eq_iff)
  with 0 show ?case by (simp add: file_contents_def loaded_none)
next
  case (Suc n)
  let ?rd = "volume disk (f_device s)"
  show ?case
  proof (cases "got < file_size")
    case False
    then have e: "got = file_size" using Suc.prems(5) by simp
    then have "loaded disk base file_size (file_contents ?rd g cs) (got, s) (file_size, s)"
      using Suc.prems(1) by (simp add: loaded_def same_disk_def put_bytes_def)
    with e show ?thesis by auto
  next
    case True
    then obtain xs where cs: "cs = c # xs" using Suc.prems(3,6) by (cases cs) (auto simp: file_contents_def word_less_nat_alt)
    obtain c' where c: "2 \<le> c" "c < 0xfff8" "\<forall>l \<in> set (cluster_sectors g c). ?rd l \<noteq> None" "fat_next ?rd g c = Some c'"
        "fat_chain ?rd g c' xs"
      using Suc.prems(3) cs by auto
    obtain got1 s1 where l: "load_sectors disk base file_size (cluster_sectors g c) got s = ((True, got1), s1)"
        "loaded disk base file_size (bytes_at ?rd (cluster_sectors g c)) (got, s) (got1, s1)"
      using load_sectors_spec [OF Suc.prems(1,2) c(3) Suc.prems(5)] by blast
    then have i1: "cache_inv disk (f_device s1)" "volume disk (f_device s1) = ?rd" by (auto simp: loaded_def volume_same)
    obtain d where d: "read_fat_entry disk g c s1 = (Some c', s1\<lparr>f_device := d\<rparr>)" "cache_inv disk d" "same_disk (f_device s1) d"
      using read_fat_entry_spec [OF i1(1), of g c] i1(2) c(4) by metis
    define s2 where "s2 = s1\<lparr>f_device := d\<rparr>"
    have l2: "loaded disk base file_size (bytes_at ?rd (cluster_sectors g c)) (got, s) (got1, s2)"
      unfolding s2_def by (rule loaded_device [OF l(2) d(2,3)])
    then have v: "volume disk (f_device s2) = ?rd" "cache_inv disk (f_device s2)" by (auto simp: loaded_def volume_same)
    have fc: "file_contents ?rd g cs = bytes_at ?rd (cluster_sectors g c) @ file_contents ?rd g xs" by (simp add: file_contents_def cs)
    have g1: "unat got1 = min (unat file_size) (unat got + length (bytes_at ?rd (cluster_sectors g c)))" using l2 by (simp add: loaded_def)
    have "got1 \<le> file_size" "unat file_size \<le> unat got1 + length (file_contents ?rd g xs)"
      using g1 Suc.prems(6) fc by (simp_all add: word_le_nat_alt)
    then obtain s' where r: "load_clusters disk g base file_size n c' got1 s2 = ((True, file_size), s')"
        "loaded disk base file_size (file_contents ?rd g xs) (got1, s2) (file_size, s')"
      using Suc.IH [of s2 c' xs got1] Suc.prems(2,4) v c(5) cs by auto
    have "load_clusters disk g base file_size (Suc n) c got s = ((True, file_size), s')"
      using True c(1,2) l(1) d(1) r(1) by (simp add: cluster_sectors_words s2_def)
    with loaded_trans [OF l2 r(2) Suc.prems(5)] show ?thesis by (auto simp: fc)
  qed
qed

section \<open>Properties\<close>

definition demo_fat_disk :: "u64 \<Rightarrow> u8 list option" where
  "demo_fat_disk lba = (if lba = 1 then Some ([0, 0, 0, 0, 0xff, 0xff] @ replicate 506 0) else if lba = 2 then Some (replicate 512 7) else None)"

definition demo_geometry :: Fat16Geometry where
  "demo_geometry = \<lparr>bytes_per_sector = 512, sectors_per_cluster = 1, reserved_sectors = 1, fat_count = 1, root_entries = 16,
     fat_sectors = 1, total_sectors = 8, root_sector = 1, root_dir_sectors = 1, data_sector = 2\<rparr>"

definition demo_fat :: fat_state where
  "demo_fat = \<lparr>f_device = demo_device, f_mem = (\<lambda>_. 1), f_fs = demo_vfs, mounted_fat_paths = [], f_registered = 0, f_mounted_bytes = 0, f_log = []\<rparr>"



end
