(* ===== verification/Userlib.thy ===== *)
theory Userlib
  imports Prelude
begin

text \<open>
  The library of the user programs (\<open>userland/include/hybrid/user.hpp\<close>): system calls, text
  buffers and output, and the two helpers that most programs repeat (\<open>get_arg\<close>, \<open>read_blocking\<close>).
  A program runs against the sequence of results the kernel gives to its system calls; it returns,
  exits, or is still waiting for the kernel when that sequence ends. What it asked for is the trace
  of calls, each with its result; its standard output is what the kernel accepted of its writes.
\<close>

section \<open>System calls\<close>

definition kSyscallErrorNone :: u64 where "kSyscallErrorNone = 0"
definition kSyscallErrorNotFound :: u64 where "kSyscallErrorNotFound = 3"
definition kSyscallErrorWouldBlock :: u64 where "kSyscallErrorWouldBlock = 4"
definition kStdinFd :: u64 where "kStdinFd = 0"
definition kStdoutFd :: u64 where "kStdoutFd = 1"
definition kStderrFd :: u64 where "kStderrFd = 2"

lemmas sys_consts = kSyscallErrorNone_def kSyscallErrorNotFound_def kSyscallErrorWouldBlock_def
  kStdinFd_def kStdoutFd_def kStderrFd_def

text \<open>A pointer argument is the bytes the kernel reads there; what the kernel stores to the
  caller's buffer is part of the result.\<close>

datatype call =
  GetArgument u64 | Open "u8 list" u64 | Read u64 u64 | Write u64 "u8 list" | Close u64 | Yield | ExitCall u64

record SyscallResult =
  r_value :: u64
  r_error :: u64
  r_data :: "u8 list"

record uworld =
  replies :: "SyscallResult list"
  trace :: "(call \<times> SyscallResult) list"

datatype 'a outcome = Ret 'a uworld | Exited u64 uworld | Waiting

type_synonym 'a uprog = "uworld \<Rightarrow> 'a outcome"

definition ret :: "'a \<Rightarrow> 'a uprog" where "ret x w = Ret x w"

definition seq :: "'a uprog \<Rightarrow> ('a \<Rightarrow> 'b uprog) \<Rightarrow> 'b uprog" where
  "seq p f w = (case p w of Ret x w \<Rightarrow> f x w | Exited c w \<Rightarrow> Exited c w | Waiting \<Rightarrow> Waiting)"

definition usys :: "call \<Rightarrow> SyscallResult uprog" where
  "usys c w = (case replies w of [] \<Rightarrow> Waiting | r # rs \<Rightarrow> Ret r (w\<lparr>replies := rs, trace := trace w @ [(c, r)]\<rparr>))"

text \<open>\<open>exit\<close> never returns; the kernel gives no result.\<close>

definition uexit :: "u64 \<Rightarrow> 'a uprog" where
  "uexit code w = Exited code (w\<lparr>trace := trace w @ [(ExitCall code, \<lparr>r_value = 0, r_error = 0, r_data = []\<rparr>)]\<rparr>)"

lemma usys_Ret: "usys c w = Ret r w' \<longleftrightarrow> (\<exists>rs. replies w = r # rs \<and> w' = w\<lparr>replies := rs, trace := trace w @ [(c, r)]\<rparr>)"
  by (auto simp: usys_def split: list.splits)

lemma usys_Cons [simp]:
  "replies w = r # rs \<Longrightarrow> usys c w = Ret r (w\<lparr>replies := rs, trace := trace w @ [(c, r)]\<rparr>)"
  by (simp add: usys_def)

lemma usys_not_Exited [simp]: "usys c w \<noteq> Exited x w'"
  by (simp add: usys_def split: list.splits)

lemma seq_simps [simp]:
  "p w = Ret x w' \<Longrightarrow> seq p f w = f x w'"
  "p w = Exited c w' \<Longrightarrow> seq p f w = Exited c w'"
  "p w = Waiting \<Longrightarrow> seq p f w = Waiting"
  by (simp_all add: seq_def)

section \<open>Text buffers\<close>

definition bytes :: "string \<Rightarrow> u8 list" where "bytes s = map of_char s"

definition hex_digit :: "u64 \<Rightarrow> u8" where
  "hex_digit value = (let v = value AND 0xf in if v < 10 then 0x30 + ucast v else 0x61 + (ucast v - 10))"

text \<open>A character buffer with its cursor is the text in front of the cursor: every store is
  followed by the terminating zero, so that text is the C string in the buffer.\<close>

definition append_char :: "nat \<Rightarrow> u8 \<Rightarrow> u8 list \<Rightarrow> u8 list" where
  "append_char capacity value line = (if capacity \<le> length line + 1 then line else line @ [value])"

definition append_text :: "nat \<Rightarrow> u8 list \<Rightarrow> u8 list \<Rightarrow> u8 list" where
  "append_text capacity text line = fold (append_char capacity) text line"

definition append_hex :: "nat \<Rightarrow> u64 \<Rightarrow> u8 list \<Rightarrow> u8 list" where
  "append_hex capacity value line =
     fold (\<lambda>shift. append_char capacity (hex_digit (drop_bit shift value)))
       (map (\<lambda>i. 60 - 4 * i) [0..<16]) (append_text capacity (bytes ''0x'') line)"

text \<open>The C string in an array of characters.\<close>

definition c_string :: "u8 list \<Rightarrow> u8 list" where "c_string cs = takeWhile (\<lambda>c. c \<noteq> 0) cs"

section \<open>Output\<close>

text \<open>The loop of \<open>write_fd\<close>; every round takes at least one result from the kernel.\<close>

function write_loop :: "u64 \<Rightarrow> u8 list \<Rightarrow> u64 \<Rightarrow> unit uprog" where
  "write_loop fd text written w =
     (if written < of_nat (length text) then
        (case usys (Write fd (drop (unat written) text)) w of
           Ret result w' \<Rightarrow>
             if r_error result = kSyscallErrorWouldBlock then
               (case usys Yield w' of Ret _ w'' \<Rightarrow> write_loop fd text written w'' | _ \<Rightarrow> Waiting)
             else if r_error result \<noteq> kSyscallErrorNone \<or> r_value result = 0 then Ret () w'
             else write_loop fd text (written + r_value result) w'
         | _ \<Rightarrow> Waiting)
      else Ret () w)"
  by pat_completeness auto
termination
  by (relation "measure (\<lambda>(fd, text, written, w). length (replies w))") (auto simp: usys_Ret)

declare write_loop.simps [simp del]

definition write_fd :: "u64 \<Rightarrow> u8 list \<Rightarrow> unit uprog" where
  "write_fd fd text = write_loop fd (c_string text) 0"

definition write_text :: "u8 list \<Rightarrow> unit uprog" where "write_text = write_fd kStdoutFd"
definition write_error :: "u8 list \<Rightarrow> unit uprog" where "write_error = write_fd kStderrFd"

definition write_line :: "u8 list \<Rightarrow> unit uprog" where
  "write_line text = seq (write_text text) (\<lambda>_. write_text [10])"

definition write_hex_line :: "u8 list \<Rightarrow> u8 list \<Rightarrow> u64 \<Rightarrow> unit uprog" where
  "write_hex_line prefix label value =
     write_line (append_hex 128 value (append_text 128 label (append_text 128 prefix [])))"

definition write_text_line :: "u8 list \<Rightarrow> u8 list \<Rightarrow> u8 list \<Rightarrow> unit uprog" where
  "write_text_line prefix label value =
     write_line (append_text 128 value (append_text 128 label (append_text 128 prefix [])))"

section \<open>Arguments and input\<close>

definition get_arg :: "u64 \<Rightarrow> (bool \<times> u8 list) uprog" where
  "get_arg index =
     seq (usys (GetArgument index)) (\<lambda>result. ret (r_error result = kSyscallErrorNone, c_string (take 64 (r_data result))))"

function read_blocking :: "u64 \<Rightarrow> u64 \<Rightarrow> SyscallResult uprog" where
  "read_blocking fd n w =
     (case usys (Read fd n) w of
        Ret result w' \<Rightarrow>
          if r_error result \<noteq> kSyscallErrorWouldBlock then Ret result w'
          else (case usys Yield w' of Ret _ w'' \<Rightarrow> read_blocking fd n w'' | _ \<Rightarrow> Waiting)
      | _ \<Rightarrow> Waiting)"
  by pat_completeness auto
termination
  by (relation "measure (\<lambda>(fd, n, w). length (replies w))") (auto simp: usys_Ret)

declare read_blocking.simps [simp del]

section \<open>What the kernel may answer\<close>

text \<open>\<open>accepts n rs\<close>: the results \<open>rs\<close> take \<open>n\<close> bytes from a writer, in parts, with the writer told to try
  again any number of times.\<close>

inductive accepts :: "nat \<Rightarrow> SyscallResult list \<Rightarrow> bool" where
  accepts_done: "accepts 0 []"
| accepts_again: "r_error r = kSyscallErrorWouldBlock \<Longrightarrow> accepts n rs \<Longrightarrow> 0 < n \<Longrightarrow> accepts n (r # y # rs)"
| accepts_part: "r_error r = kSyscallErrorNone \<Longrightarrow> 0 < unat (r_value r) \<Longrightarrow> unat (r_value r) \<le> n \<Longrightarrow>
    accepts (n - unat (r_value r)) rs \<Longrightarrow> accepts n (r # rs)"

text \<open>\<open>delivers lim data rs\<close>: the results \<open>rs\<close> hand \<open>data\<close> to a reader in parts of at most \<open>lim\<close> bytes,
  with the reader told to try again any number of times, and then report the end of the data.\<close>

inductive delivers :: "nat \<Rightarrow> u8 list \<Rightarrow> SyscallResult list \<Rightarrow> bool" for lim where
  delivers_end: "r_error r = kSyscallErrorNone \<or> r_error r = kSyscallErrorNotFound \<Longrightarrow> r_value r = 0 \<Longrightarrow>
    delivers lim [] [r]"
| delivers_again: "r_error r = kSyscallErrorWouldBlock \<Longrightarrow> delivers lim d rs \<Longrightarrow> delivers lim d (r # y # rs)"
| delivers_part: "r_error r = kSyscallErrorNone \<Longrightarrow> r_value r = of_nat (length c) \<Longrightarrow> 0 < length c \<Longrightarrow> length c \<le> lim \<Longrightarrow>
    r_data r = c \<Longrightarrow> delivers lim d rs \<Longrightarrow> delivers lim (c @ d) (r # rs)"

fun accepted :: "u64 \<Rightarrow> (call \<times> SyscallResult) \<Rightarrow> u8 list" where
  "accepted fd (Write f bs, r) = (if f = fd \<and> r_error r = kSyscallErrorNone then take (unat (r_value r)) bs else [])"
| "accepted fd _ = []"

definition output_of :: "u64 \<Rightarrow> uworld \<Rightarrow> u8 list" where
  "output_of fd w = concat (map (accepted fd) (trace w))"

lemma output_snoc [simp]: "output_of fd (w\<lparr>replies := rs, trace := trace w @ [e]\<rparr>) = output_of fd w @ accepted fd e"
  by (simp add: output_of_def)

section \<open>Output and input succeed\<close>

lemma output_snoc_other: "output_of g (w\<lparr>replies := rs, trace := trace w @ [e]\<rparr>) = output_of g w @ accepted g e"
  by (simp add: output_of_def)

lemma write_loop_ok:
  assumes "accepts n rs" "length text < 2 ^ 64" "n + unat written = length text" "replies w = rs @ rest"
  shows "\<exists>w'. write_loop fd text written w = Ret () w' \<and> replies w' = rest \<and>
    output_of fd w' = output_of fd w @ drop (unat written) text \<and> (\<forall>g. g \<noteq> fd \<longrightarrow> output_of g w' = output_of g w)"
  using assms
proof (induction arbitrary: written w rule: accepts.induct)
  case accepts_done
  then have "\<not> written < of_nat (length text)" by (simp add: word_less_nat_alt unat_of_nat_small)
  then show ?case using accepts_done by (simp add: write_loop.simps [of fd "text" written])
next
  case (accepts_again r n rs y)
  let ?w = "\<lambda>w. w\<lparr>replies := rs @ rest, trace := trace w @ [(Write fd (drop (unat written) text), r), (Yield, y)]\<rparr>"
  have "written < of_nat (length text)" using accepts_again by (simp add: word_less_nat_alt unat_of_nat_small)
  then have "write_loop fd text written w = write_loop fd text written (?w w)"
    using accepts_again by (simp add: write_loop.simps [of fd "text" written w])
  moreover have "output_of g (?w w) = output_of g w" for g
    using accepts_again.hyps(1) by (simp add: output_of_def sys_consts)
  ultimately show ?case using accepts_again.IH [of written "?w w"] accepts_again.prems by simp
next
  case (accepts_part r n rs)
  let ?w = "\<lambda>w. w\<lparr>replies := rs @ rest, trace := trace w @ [(Write fd (drop (unat written) text), r)]\<rparr>"
  have lt: "written < of_nat (length text)" using accepts_part by (simp add: word_less_nat_alt unat_of_nat_small)
  have v: "r_value r \<noteq> 0" using accepts_part.hyps(2) by auto
  have u: "unat (written + r_value r) = unat written + unat (r_value r)"
    using accepts_part by (intro unat_add_word) simp
  have "write_loop fd text written w = write_loop fd text (written + r_value r) (?w w)"
    using accepts_part lt v by (simp add: write_loop.simps [of fd "text" written w] sys_consts)
  moreover have "output_of fd (?w w) = output_of fd w @ take (unat (r_value r)) (drop (unat written) text)"
    "\<forall>g. g \<noteq> fd \<longrightarrow> output_of g (?w w) = output_of g w"
    using accepts_part.hyps(1) by (simp_all add: output_of_def)
  moreover have "take (unat (r_value r)) (drop (unat written) text) @ drop (unat written + unat (r_value r)) text
      = drop (unat written) text"
    by (metis add.commute append_take_drop_id drop_drop)
  ultimately show ?case
    using accepts_part.IH [of "written + r_value r" "?w w"] accepts_part u by simp
qed


text \<open>The results that take each of a list of texts.\<close>

fun takes :: "u8 list list \<Rightarrow> SyscallResult list \<Rightarrow> bool" where
  "takes [] rs \<longleftrightarrow> rs = []"
| "takes (t # ts) rs \<longleftrightarrow> (\<exists>rs1 rs2. rs = rs1 @ rs2 \<and> accepts (length t) rs1 \<and> takes ts rs2)"

definition text_ok :: "u8 list \<Rightarrow> bool" where
  "text_ok t \<longleftrightarrow> 0 \<notin> set t \<and> length t < 2 ^ 64"

lemma write_fd_ok:
  assumes "text_ok t" "accepts (length t) rs" "replies w = rs @ rest"
  shows "\<exists>w'. write_fd fd t w = Ret () w' \<and> replies w' = rest \<and>
    output_of fd w' = output_of fd w @ t \<and> (\<forall>g. g \<noteq> fd \<longrightarrow> output_of g w' = output_of g w)"
proof -
  have "c_string t = t" using assms(1) by (auto simp: c_string_def text_ok_def takeWhile_eq_all_conv)
  then show ?thesis
    using write_loop_ok [OF assms(2), of t 0 w rest fd] assms by (simp add: write_fd_def text_ok_def)
qed

lemma write_line_ok:
  assumes "text_ok t" "takes [t, [10]] rs" "replies w = rs @ rest"
  shows "\<exists>w'. write_line t w = Ret () w' \<and> replies w' = rest \<and> output_of kStdoutFd w' = output_of kStdoutFd w @ t @ [10]"
proof -
  obtain rs1 rs2 where rs: "rs = rs1 @ rs2" "accepts (length t) rs1" "accepts (length [10 :: u8]) rs2"
    using assms(2) by (auto simp: text_ok_def)
  obtain v where v: "write_text t w = Ret () v" "replies v = rs2 @ rest" "output_of kStdoutFd v = output_of kStdoutFd w @ t"
    using write_fd_ok [OF assms(1) rs(2), of w "rs2 @ rest"] assms(3) rs(1) by (auto simp: write_text_def)
  have "text_ok [10]" by (simp add: text_ok_def)
  from write_fd_ok [OF this rs(3) v(2), of kStdoutFd] v show ?thesis by (auto simp: write_line_def write_text_def)
qed

lemma append_text_eq: "length line < cap \<Longrightarrow> append_text cap t line = take (cap - 1) (line @ t)"
proof (induction t arbitrary: line)
  case (Cons c t)
  then show ?case by (cases "cap \<le> Suc (length line)") (auto simp: append_text_def append_char_def take_Cons')
qed (simp add: append_text_def)

lemma read_blocking_ok:
  "delivers lim d rs \<Longrightarrow> replies w = rs @ rest \<Longrightarrow>
   \<exists>r w' rs'. read_blocking fd n w = Ret r w' \<and> replies w' = rs' @ rest \<and> (\<forall>g. output_of g w' = output_of g w) \<and>
     (d = [] \<and> rs' = [] \<and> r_value r = 0 \<and> (r_error r = kSyscallErrorNone \<or> r_error r = kSyscallErrorNotFound) \<or>
      (\<exists>c d'. d = c @ d' \<and> delivers lim d' rs' \<and> r_error r = kSyscallErrorNone \<and> r_value r = of_nat (length c) \<and>
         0 < length c \<and> length c \<le> lim \<and> r_data r = c))"
proof (induction arbitrary: w rule: delivers.induct)
  case (delivers_end r)
  then show ?case by (auto simp: read_blocking.simps [of fd n w] sys_consts)
next
  case (delivers_again r d rs y)
  let ?w = "w\<lparr>replies := rs @ rest, trace := trace w @ [(Read fd n, r), (Yield, y)]\<rparr>"
  have "read_blocking fd n w = read_blocking fd n ?w" "\<forall>g. output_of g ?w = output_of g w"
    using delivers_again by (simp_all add: read_blocking.simps [of fd n w] output_of_def)
  then show ?case using delivers_again.IH [of ?w] by simp
next
  case (delivers_part r c d rs)
  then show ?case by (auto simp: read_blocking.simps [of fd n w] sys_consts)
qed

section \<open>Programs that read one file\<close>

text \<open>The loop that hands every part read to \<open>upd\<close>: \<open>Inl\<close> the error of a read that failed,
  \<open>Inr\<close> the state at the end of the data.\<close>

lemma read_blocking_less:
  "read_blocking fd n w = Ret r w' \<Longrightarrow> length (replies w') < length (replies w)"
proof (induction "length (replies w)" arbitrary: w rule: less_induct)
  case less
  obtain r1 rs where w: "replies w = r1 # rs"
    using less.prems by (cases "replies w") (simp_all add: read_blocking.simps [of fd n w] usys_def)
  show ?case
  proof (cases "r_error r1 = kSyscallErrorWouldBlock")
    case False
    then show ?thesis using less.prems w by (auto simp: read_blocking.simps [of fd n w])
  next
    case True
    then obtain y rs' where rs: "rs = y # rs'"
      using less.prems w by (cases rs) (simp_all add: read_blocking.simps [of fd n w] usys_def)
    let ?w = "w\<lparr>replies := rs', trace := trace w @ [(Read fd n, r1), (Yield, y)]\<rparr>"
    have "read_blocking fd n ?w = Ret r w'"
      using less.prems w rs True by (simp add: read_blocking.simps [of fd n w])
    from less.hyps [OF _ this] w rs show ?thesis by simp
  qed
qed

function read_loop :: "(u8 list \<Rightarrow> 's \<Rightarrow> 's) \<Rightarrow> u64 \<Rightarrow> u64 \<Rightarrow> 's \<Rightarrow> (u64 + 's) uprog" where
  "read_loop upd fd n s w =
     (case read_blocking fd n w of
        Ret result w' \<Rightarrow>
          if r_error result = kSyscallErrorNotFound \<and> r_value result = 0 then Ret (Inr s) w'
          else if r_error result \<noteq> kSyscallErrorNone then Ret (Inl (r_error result)) w'
          else if r_value result = 0 then Ret (Inr s) w'
          else read_loop upd fd n (upd (take (unat (r_value result)) (r_data result)) s) w'
      | Exited c w' \<Rightarrow> Exited c w'
      | Waiting \<Rightarrow> Waiting)"
  by pat_completeness auto
termination
  by (relation "measure (\<lambda>(upd, fd, n, s, w). length (replies w))") (auto dest: read_blocking_less)

declare read_loop.simps [simp del]

definition close_if :: "bool \<Rightarrow> u64 \<Rightarrow> unit uprog" where
  "close_if close_when_done fd = (if close_when_done then seq (usys (Close fd)) (\<lambda>_. ret ()) else ret ())"

text \<open>The main function the digest programs share: the file named by the first argument, or
  standard input, is read to its end and \<open>report\<close> prints the result.\<close>

definition digest_stream ::
  "u8 list \<Rightarrow> u64 \<Rightarrow> 's \<Rightarrow> (u8 list \<Rightarrow> 's \<Rightarrow> 's) \<Rightarrow> (u8 list \<Rightarrow> 's \<Rightarrow> unit uprog) \<Rightarrow> u64 \<Rightarrow> bool \<Rightarrow> u8 list \<Rightarrow> unit uprog" where
  "digest_stream tag n init upd report fd close_when_done label =
     seq (read_loop upd fd n init) (\<lambda>result. case result of
       Inl error \<Rightarrow> seq (close_if close_when_done fd) (\<lambda>_.
         seq (write_hex_line tag (bytes ''read error '') error) (\<lambda>_. uexit 3))
     | Inr ctx \<Rightarrow> seq (close_if close_when_done fd) (\<lambda>_. seq (report label ctx) (\<lambda>_. uexit 0)))"

definition digest_main ::
  "u8 list \<Rightarrow> u64 \<Rightarrow> 's \<Rightarrow> (u8 list \<Rightarrow> 's \<Rightarrow> 's) \<Rightarrow> (u8 list \<Rightarrow> 's \<Rightarrow> unit uprog) \<Rightarrow> unit uprog" where
  "digest_main tag n init upd report =
     seq (get_arg 1) (\<lambda>(has_path, path).
       if has_path then
         seq (usys (Open (path @ [0]) (of_nat (length path) + 1))) (\<lambda>opened.
           if r_error opened \<noteq> kSyscallErrorNone \<or> r_value opened < 3 then
             seq (write_hex_line tag (bytes ''open error '') (r_error opened)) (\<lambda>_. uexit 2)
           else digest_stream tag n init upd report (r_value opened) True path)
       else digest_stream tag n init upd report kStdinFd False (bytes ''<stdin>''))"

lemma read_loop_ok:
  assumes "delivers (unat n) d rs" "replies w = rs @ rest"
  shows "\<exists>cs w'. read_loop upd fd n s w = Ret (Inr (fold upd cs s)) w' \<and> concat cs = d \<and> (\<forall>c \<in> set cs. length c \<le> unat n) \<and>
    replies w' = rest \<and> (\<forall>g. output_of g w' = output_of g w)"
  using assms
proof (induction "length (replies w)" arbitrary: w d rs s rule: less_induct)
  case less
  obtain r w' rs' where r: "read_blocking fd n w = Ret r w'" "replies w' = rs' @ rest" "\<forall>g. output_of g w' = output_of g w"
    and cases: "d = [] \<and> rs' = [] \<and> r_value r = 0 \<and> (r_error r = kSyscallErrorNone \<or> r_error r = kSyscallErrorNotFound) \<or>
      (\<exists>c d'. d = c @ d' \<and> delivers (unat n) d' rs' \<and> r_error r = kSyscallErrorNone \<and> r_value r = of_nat (length c) \<and>
         0 < length c \<and> length c \<le> unat n \<and> r_data r = c)"
    using read_blocking_ok [OF less.prems, of fd n] by (elim exE conjE)
  from cases show ?case
  proof (rule disjE)
    assume e: "d = [] \<and> rs' = [] \<and> r_value r = 0 \<and> (r_error r = kSyscallErrorNone \<or> r_error r = kSyscallErrorNotFound)"
    then show ?thesis using r
      by (intro exI [of _ "[]"] exI [of _ w']) (auto simp: read_loop.simps [of upd fd n s w])
  next
    assume "\<exists>c d'. d = c @ d' \<and> delivers (unat n) d' rs' \<and> r_error r = kSyscallErrorNone \<and> r_value r = of_nat (length c) \<and>
         0 < length c \<and> length c \<le> unat n \<and> r_data r = c"
    then obtain c d' where c: "d = c @ d'" "delivers (unat n) d' rs'" "r_error r = kSyscallErrorNone"
      "r_value r = of_nat (length c)" "0 < length c" "length c \<le> unat n" "r_data r = c"
      by blast
    have u: "unat (r_value r) = length c"
      using c(4) unat_of_nat_small [OF le_less_trans [OF c(6) unsigned_less]] by simp
    then have step: "read_loop upd fd n s w = read_loop upd fd n (upd c s) w'"
      using c r(1) by (auto simp: read_loop.simps [of upd fd n s w] sys_consts)
    obtain cs v where v: "read_loop upd fd n (upd c s) w' = Ret (Inr (fold upd cs (upd c s))) v" "concat cs = d'"
      "\<forall>c \<in> set cs. length c \<le> unat n" "replies v = rest" "\<forall>g. output_of g v = output_of g w'"
      using less.hyps [OF read_blocking_less [OF r(1)] c(2) r(2), of "upd c s"] by (elim exE conjE)
    show ?thesis
      using step v c(1,6) r(3) by (intro exI [of _ "c # cs"] exI [of _ v]) simp
  qed
qed

lemma fold_homomorphic:
  assumes "\<And>a b s. upd (a @ b) s = upd b (upd a s)" "\<And>s. upd [] s = s"
  shows "fold upd cs s = upd (concat cs) s"
  by (induction cs arbitrary: s) (simp_all add: assms)

lemma close_if_ok:
  assumes "replies w = (if c then [y] else []) @ rest"
  shows "\<exists>w'. close_if c fd w = Ret () w' \<and> replies w' = rest \<and> (\<forall>g. output_of g w' = output_of g w)"
  using assms by (cases c) (simp_all add: close_if_def ret_def output_of_def)

text \<open>The main function on a kernel that opens the file, hands over its contents and takes the
  output: it exits with 0 and has printed the report on the parts it read.\<close>

lemma digest_stream_ok:
  assumes d: "delivers (unat n) d rs"
    and w: "replies w = rs @ (if c then [y] else []) @ outs @ rest"
    and report: "\<And>cs v. concat cs = d \<Longrightarrow> \<forall>c \<in> set cs. length c \<le> unat n \<Longrightarrow> replies v = outs @ rest \<Longrightarrow> \<exists>v'. report label (fold upd cs s) v = Ret () v' \<and>
      replies v' = rest \<and> output_of kStdoutFd v' = output_of kStdoutFd v @ text"
  shows "\<exists>w'. digest_stream tag n s upd report fd c label w = Exited 0 w' \<and>
    replies w' = rest \<and> output_of kStdoutFd w' = output_of kStdoutFd w @ text"
proof -
  obtain cs w1 where w1: "read_loop upd fd n s w = Ret (Inr (fold upd cs s)) w1" "concat cs = d"
      "\<forall>c \<in> set cs. length c \<le> unat n" "replies w1 = (if c then [y] else []) @ outs @ rest" "\<forall>g. output_of g w1 = output_of g w"
    using read_loop_ok [OF d w, of upd fd s] by (elim exE conjE)
  obtain w2 where w2: "close_if c fd w1 = Ret () w2" "replies w2 = outs @ rest" "\<forall>g. output_of g w2 = output_of g w1"
    using close_if_ok [OF w1(4)] by blast
  obtain w3 where "report label (fold upd cs s) w2 = Ret () w3" "replies w3 = rest"
      "output_of kStdoutFd w3 = output_of kStdoutFd w2 @ text"
    using report [OF w1(2,3) w2(2)] by blast
  then show ?thesis
    using w1 w2 by (simp add: digest_stream_def uexit_def output_of_def)
qed

lemma digest_main_file:
  assumes a: "r_error arg = kSyscallErrorNone" "path = c_string (take 64 (r_data arg))"
    and op: "r_error op = kSyscallErrorNone" "3 \<le> r_value op"
    and d: "delivers (unat n) d rs" and w: "replies w = arg # op # rs @ y # outs @ rest"
    and report: "\<And>cs v. concat cs = d \<Longrightarrow> \<forall>c \<in> set cs. length c \<le> unat n \<Longrightarrow> replies v = outs @ rest \<Longrightarrow> \<exists>v'. report path (fold upd cs s) v = Ret () v' \<and>
      replies v' = rest \<and> output_of kStdoutFd v' = output_of kStdoutFd v @ text"
  shows "\<exists>w'. digest_main tag n s upd report w = Exited 0 w' \<and>
    replies w' = rest \<and> output_of kStdoutFd w' = output_of kStdoutFd w @ text"
proof -
  let ?w = "w\<lparr>replies := rs @ y # outs @ rest,
    trace := trace w @ [(GetArgument 1, arg), (Open (path @ [0]) (of_nat (length path) + 1), op)]\<rparr>"
  have "digest_main tag n s upd report w = digest_stream tag n s upd report (r_value op) True path ?w"
    using a op w leD [OF op(2)] by (simp add: digest_main_def get_arg_def seq_def ret_def)
  moreover have "output_of kStdoutFd ?w = output_of kStdoutFd w" by (simp add: output_of_def)
  ultimately show ?thesis
    using digest_stream_ok [OF d, of ?w True y outs rest report path upd s "text" tag "r_value op"] report by simp
qed

end
