(* ===== verification/Digest.thy ===== *)
theory Digest
  imports Userlib
begin

text \<open>
  The machinery the digest programs (\<open>userland/src/*sum.cpp\<close>) share: a context that collects
  bytes into blocks, the streaming \<open>update\<close> and the padding \<open>finish\<close>, each taking the block size
  and the program's \<open>transform\<close> as arguments. The locale \<open>block_hash\<close> states what a program's
  instance of them has to provide and proves that streaming computes the one-shot definition of the
  hash: the transform folded over the blocks of the padded message.
\<close>

section \<open>Context\<close>

record 's hash_ctx =
  h_state :: 's
  h_block :: "u8 list"
  h_used :: nat
  h_bytes :: u64

text \<open>The 64-bit programs count the bytes in two words.\<close>

record 's hash_ctx128 = "'s hash_ctx" +
  h_high :: u64

definition store_at :: "nat \<Rightarrow> u8 list \<Rightarrow> u8 list \<Rightarrow> u8 list" where
  "store_at k bs xs = fold (\<lambda>i xs. xs[k + i := bs ! i]) [0..<length bs] xs"

text \<open>The loop of \<open>update\<close> on the bytes not consumed yet. The code keeps \<open>block_used\<close> within the
  block; a context where it is not, where the code would write out of bounds, is left alone.\<close>

function update_loop :: "nat \<Rightarrow> ('s \<Rightarrow> u8 list \<Rightarrow> 's) \<Rightarrow> u8 list \<Rightarrow> ('s, 'z) hash_ctx_scheme \<Rightarrow> ('s, 'z) hash_ctx_scheme" where
  "update_loop bs transform data ctx =
     (if data = [] \<or> bs < h_used ctx \<or> bs = 0 then ctx
      else let room = bs - h_used ctx;
               n = (if length data < room then length data else room);
               ctx = ctx\<lparr>h_block := store_at (h_used ctx) (take n data) (h_block ctx), h_used := h_used ctx + n\<rparr>;
               ctx = (if h_used ctx = bs then ctx\<lparr>h_state := transform (h_state ctx) (h_block ctx), h_used := 0\<rparr> else ctx)
           in update_loop bs transform (drop n data) ctx)"
  by pat_completeness auto
termination
  by (relation "measure (\<lambda>(bs, tr, data, ctx). 2 * length data + (if h_used ctx = bs then 1 else 0))")
    (auto simp: Let_def split: if_splits)

declare update_loop.simps [simp del]

definition hash_update ::
  "nat \<Rightarrow> ('s \<Rightarrow> u8 list \<Rightarrow> 's) \<Rightarrow> (u64 \<Rightarrow> ('s, 'z) hash_ctx_scheme \<Rightarrow> ('s, 'z) hash_ctx_scheme) \<Rightarrow>
   u8 list \<Rightarrow> ('s, 'z) hash_ctx_scheme \<Rightarrow> ('s, 'z) hash_ctx_scheme" where
  "hash_update bs transform count data ctx = update_loop bs transform data (count (of_nat (length data)) ctx)"

definition count_bytes :: "u64 \<Rightarrow> ('s, 'z) hash_ctx_scheme \<Rightarrow> ('s, 'z) hash_ctx_scheme" where
  "count_bytes n ctx = ctx\<lparr>h_bytes := h_bytes ctx + n\<rparr>"

definition add_bytes :: "u64 \<Rightarrow> 's hash_ctx128 \<Rightarrow> 's hash_ctx128" where
  "add_bytes n ctx =
     (let old = h_bytes ctx; ctx = ctx\<lparr>h_bytes := h_bytes ctx + n\<rparr>
      in if h_bytes ctx < old then ctx\<lparr>h_high := h_high ctx + 1\<rparr> else ctx)"

section \<open>Padding\<close>

text \<open>\<open>while (block_used < limit) block[block_used++] = 0;\<close>\<close>

function zero_fill :: "nat \<Rightarrow> ('s, 'z) hash_ctx_scheme \<Rightarrow> ('s, 'z) hash_ctx_scheme" where
  "zero_fill limit ctx =
     (if h_used ctx < limit
      then zero_fill limit (ctx\<lparr>h_block := (h_block ctx)[h_used ctx := 0], h_used := h_used ctx + 1\<rparr>) else ctx)"
  by pat_completeness auto
termination
  by (relation "measure (\<lambda>(limit, ctx). limit - h_used ctx)") auto

declare zero_fill.simps [simp del]

definition apply_transform :: "('s \<Rightarrow> u8 list \<Rightarrow> 's) \<Rightarrow> ('s, 'z) hash_ctx_scheme \<Rightarrow> ('s, 'z) hash_ctx_scheme" where
  "apply_transform transform ctx = ctx\<lparr>h_state := transform (h_state ctx) (h_block ctx)\<rparr>"

definition hash_finish ::
  "nat \<Rightarrow> nat \<Rightarrow> ('s \<Rightarrow> u8 list \<Rightarrow> 's) \<Rightarrow> u8 list \<Rightarrow> ('s, 'z) hash_ctx_scheme \<Rightarrow> ('s, 'z) hash_ctx_scheme" where
  "hash_finish bs lp transform len ctx =
     (let ctx = ctx\<lparr>h_block := (h_block ctx)[h_used ctx := 0x80], h_used := h_used ctx + 1\<rparr>;
          ctx = (if lp < h_used ctx then (apply_transform transform (zero_fill bs ctx))\<lparr>h_used := 0\<rparr> else ctx);
          ctx = zero_fill lp ctx;
          ctx = ctx\<lparr>h_block := store_at lp len (h_block ctx)\<rparr>
      in apply_transform transform ctx)"

text \<open>\<open>store_be64\<close> and \<open>store_le64\<close>: the bytes stored, in the order of their addresses.\<close>

definition be64 :: "u64 \<Rightarrow> u8 list" where
  "be64 value = map (\<lambda>i. ucast (drop_bit (8 * (7 - i)) value)) [0..<8]"

definition le64 :: "u64 \<Rightarrow> u8 list" where
  "le64 value = map (\<lambda>i. ucast (drop_bit (8 * i) value)) [0..<8]"

definition be32 :: "u32 \<Rightarrow> u8 list" where
  "be32 value = map (\<lambda>i. ucast (drop_bit (8 * (3 - i)) value)) [0..<4]"

definition le32 :: "u32 \<Rightarrow> u8 list" where
  "le32 value = map (\<lambda>i. ucast (drop_bit (8 * i) value)) [0..<4]"

definition load_be32 :: "u8 list \<Rightarrow> nat \<Rightarrow> u32" where
  "load_be32 bs k = push_bit 24 (ucast (bs ! k)) OR push_bit 16 (ucast (bs ! (k + 1)))
     OR push_bit 8 (ucast (bs ! (k + 2))) OR ucast (bs ! (k + 3))"

definition load_le32 :: "u8 list \<Rightarrow> nat \<Rightarrow> u32" where
  "load_le32 bs k = ucast (bs ! k) OR push_bit 8 (ucast (bs ! (k + 1)))
     OR push_bit 16 (ucast (bs ! (k + 2))) OR push_bit 24 (ucast (bs ! (k + 3)))"

definition load_be64 :: "u8 list \<Rightarrow> nat \<Rightarrow> u64" where
  "load_be64 bs k = fold (\<lambda>i value. push_bit 8 value OR ucast (bs ! (k + i))) [0..<8] 0"

definition rotr :: "'a::len word \<Rightarrow> nat \<Rightarrow> 'a word" where
  "rotr value n = drop_bit n value OR push_bit (LENGTH('a) - n) value"

definition rotl :: "'a::len word \<Rightarrow> nat \<Rightarrow> 'a word" where
  "rotl value n = push_bit n value OR drop_bit (LENGTH('a) - n) value"

section \<open>Report\<close>

definition hex_of :: "nat \<Rightarrow> u8 list \<Rightarrow> u8 list \<Rightarrow> u8 list" where
  "hex_of cap digest line =
     fold (\<lambda>d line. append_char cap (hex_digit (ucast d)) (append_char cap (hex_digit (ucast (drop_bit 4 d))) line)) digest line"

definition digest_line :: "nat \<Rightarrow> u8 list \<Rightarrow> u8 list \<Rightarrow> u8 list \<Rightarrow> u8 list" where
  "digest_line cap tag digest path =
     append_text cap path (append_text cap (bytes ''  '') (hex_of cap digest (append_text cap tag [])))"

definition write_digest :: "nat \<Rightarrow> u8 list \<Rightarrow> u8 list \<Rightarrow> u8 list \<Rightarrow> unit uprog" where
  "write_digest cap tag digest path = write_line (digest_line cap tag digest path)"

section \<open>The one-shot hash\<close>

function chunks :: "nat \<Rightarrow> 'a list \<Rightarrow> 'a list list" where
  "chunks n xs = (if xs = [] \<or> n = 0 then [] else take n xs # chunks n (drop n xs))"
  by pat_completeness auto
termination
  by (relation "measure (\<lambda>(n, xs). length xs)") auto

declare chunks.simps [simp del]

definition pad_zeros :: "nat \<Rightarrow> nat \<Rightarrow> nat \<Rightarrow> nat" where
  "pad_zeros bs lp n = (lp + bs - (n + 1) mod bs) mod bs"

text \<open>The padded message: a one bit, the least number of zeros that brings the message to the
  position of the length field, and that field.\<close>

definition padded :: "nat \<Rightarrow> nat \<Rightarrow> u8 list \<Rightarrow> u8 list \<Rightarrow> u8 list" where
  "padded bs lp len msg = msg @ [0x80] @ replicate (pad_zeros bs lp (length msg)) 0 @ len"

definition hash_spec :: "nat \<Rightarrow> nat \<Rightarrow> ('s \<Rightarrow> u8 list \<Rightarrow> 's) \<Rightarrow> 's \<Rightarrow> u8 list \<Rightarrow> u8 list \<Rightarrow> 's" where
  "hash_spec bs lp transform init len msg = foldl transform init (chunks bs (padded bs lp len msg))"

lemma chunks_append: "n dvd length xs \<Longrightarrow> chunks n (xs @ ys) = chunks n xs @ chunks n ys"
proof (induction n xs rule: chunks.induct)
  case (1 n xs)
  show ?case
  proof (cases "xs = [] \<or> n = 0")
    case True
    then show ?thesis using 1 by (auto simp: chunks.simps [of 0] chunks.simps [of n "[]"])
  next
    case False
    then have "n \<le> length xs" "n dvd length (drop n xs)" using 1(2) by (auto simp: dvd_imp_le)
    with 1 False show ?thesis by (simp add: chunks.simps [of n "xs @ ys"] chunks.simps [of n xs])
  qed
qed

lemma chunks_one: "length xs = n \<Longrightarrow> 0 < n \<Longrightarrow> chunks n xs = [xs]"
  by (cases "xs = []") (auto simp: chunks.simps [of n xs] chunks.simps [of n "[]"])

lemma store_at_eq: "k + length bs \<le> length xs \<Longrightarrow> store_at k bs xs = take k xs @ bs @ drop (k + length bs) xs"
proof (induction bs rule: rev_induct)
  case (snoc b bs)
  have "store_at k (bs @ [b]) xs = (store_at k bs xs)[k + length bs := b]"
  proof -
    have "fold (\<lambda>i xs. xs[k + i := (bs @ [b]) ! i]) [0..<length bs] xs = fold (\<lambda>i xs. xs[k + i := bs ! i]) [0..<length bs] xs"
      by (rule fold_cong) (auto simp: nth_append)
    then show ?thesis by (simp add: store_at_def)
  qed
  moreover have "drop (k + length bs) xs = xs ! (k + length bs) # drop (Suc (k + length bs)) xs"
    using snoc.prems by (intro Cons_nth_drop_Suc [symmetric]) simp
  ultimately show ?case using snoc by (simp add: list_update_append)
qed (simp add: store_at_def)

lemma store_at_append: "length xs = k \<Longrightarrow> length ys = length bs \<Longrightarrow> store_at k bs (xs @ ys) = xs @ bs"
  by (simp add: store_at_eq)

lemma zero_fill_eq:
  "h_used ctx \<le> limit \<Longrightarrow> limit \<le> length (h_block ctx) \<Longrightarrow>
   zero_fill limit ctx = ctx\<lparr>h_block := take (h_used ctx) (h_block ctx) @ replicate (limit - h_used ctx) 0 @ drop limit (h_block ctx),
     h_used := limit\<rparr>"
proof (induction limit ctx rule: zero_fill.induct)
  case (1 limit ctx)
  show ?case
  proof (cases "h_used ctx < limit")
    case True
    have t: "take (Suc (h_used ctx)) ((h_block ctx)[h_used ctx := 0]) = take (h_used ctx) (h_block ctx) @ [0]"
      using True 1 by (simp add: take_Suc_conv_app_nth)
    have r: "replicate (limit - h_used ctx) (0 :: u8) = 0 # replicate (limit - Suc (h_used ctx)) 0"
      using True by (simp add: Suc_diff_Suc flip: replicate_Suc)
    show ?thesis using 1 True by (simp add: zero_fill.simps [of limit ctx] t r)
  next
    case False
    then show ?thesis using 1 by (simp add: zero_fill.simps [of limit ctx])
  qed
qed

text \<open>The context after absorbing a message: the state covers the full blocks, the block buffer
  holds the rest.\<close>

definition absorbed :: "nat \<Rightarrow> ('s \<Rightarrow> u8 list \<Rightarrow> 's) \<Rightarrow> 's \<Rightarrow> u8 list \<Rightarrow> ('s, 'z) hash_ctx_scheme \<Rightarrow> bool" where
  "absorbed bs transform init msg ctx \<longleftrightarrow>
     length (h_block ctx) = bs \<and> h_used ctx < bs \<and>
     (\<exists>full rest. msg = full @ rest \<and> bs dvd length full \<and> h_used ctx = length rest \<and>
        take (length rest) (h_block ctx) = rest \<and> h_state ctx = foldl transform init (chunks bs full))"

lemma absorb_more:
  assumes a: "absorbed bs transform init msg ctx" and n: "length data \<le> bs - h_used ctx" "data \<noteq> []" "length data = n"
  defines "c \<equiv> ctx\<lparr>h_block := store_at (h_used ctx) data (h_block ctx), h_used := h_used ctx + n\<rparr>"
  shows "absorbed bs transform init (msg @ data)
    (if h_used c = bs then c\<lparr>h_state := transform (h_state c) (h_block c), h_used := 0\<rparr> else c)"
proof -
  obtain full rest where f: "msg = full @ rest" "bs dvd length full" "h_used ctx = length rest"
      "take (length rest) (h_block ctx) = rest" "h_state ctx = foldl transform init (chunks bs full)"
    and l: "length (h_block ctx) = bs" "h_used ctx < bs"
    using a by (auto simp: absorbed_def)
  have st: "h_block c = rest @ data @ drop (length rest + length data) (h_block ctx)"
    using n l f store_at_eq [of "h_used ctx" data "h_block ctx"] by (simp add: c_def)
  show ?thesis
  proof (cases "h_used c = bs")
    case True
    then have len: "length (rest @ data) = bs" using f n by (simp add: c_def)
    then have "h_block c = rest @ data" using st l by simp
    with True len f l show ?thesis
      by (auto simp: absorbed_def c_def chunks_append chunks_one intro!: exI [of _ "full @ rest @ data"])
  next
    case False
    then have "length rest + length data < bs" using n l f by (simp add: c_def)
    with st f l n have "msg @ data = full @ (rest @ data) \<and> bs dvd length full \<and> h_used c = length (rest @ data) \<and>
        take (length (rest @ data)) (h_block c) = rest @ data \<and> h_state c = foldl transform init (chunks bs full)"
      "length (h_block c) = bs" "h_used c < bs"
      by (simp_all add: c_def)
    then have "absorbed bs transform init (msg @ data) c" unfolding absorbed_def by blast
    with False show ?thesis by simp
  qed
qed

lemma update_absorbs:
  "absorbed bs transform init msg ctx \<Longrightarrow> absorbed bs transform init (msg @ data) (update_loop bs transform data ctx)"
proof (induction "length data" arbitrary: data msg ctx rule: less_induct)
  case less
  show ?case
  proof (cases "data = []")
    case True
    then show ?thesis using less.prems by (simp add: update_loop.simps [of bs transform "[]" ctx])
  next
    case False
    define n where "n = min (length data) (bs - h_used ctx)"
    define c where "c = ctx\<lparr>h_block := store_at (h_used ctx) (take n data) (h_block ctx), h_used := h_used ctx + n\<rparr>"
    define c' where "c' = (if h_used c = bs then c\<lparr>h_state := transform (h_state c) (h_block c), h_used := 0\<rparr> else c)"
    have used: "h_used ctx < bs" using less.prems by (simp add: absorbed_def)
    then have n: "0 < n" "length (take n data) = n" "n \<le> bs - h_used ctx" using False by (auto simp: n_def)
    have "absorbed bs transform init (msg @ take n data) c'"
      using absorb_more [OF less.prems, of "take n data" n] n False unfolding c'_def c_def by simp
    then have "absorbed bs transform init ((msg @ take n data) @ drop n data) (update_loop bs transform (drop n data) c')"
      using less.hyps [of "drop n data" "msg @ take n data" c'] n False by simp
    moreover have "update_loop bs transform data ctx = update_loop bs transform (drop n data) c'"
      using False used by (simp add: update_loop.simps [of bs transform data ctx] c'_def c_def n_def Let_def min_def)
    ultimately show ?thesis by simp
  qed
qed

lemma pad_zeros_fits:
  assumes "bs dvd f" "u < lp" "lp < bs"
  shows "pad_zeros bs lp (f + u) = lp - Suc u"
proof -
  have "(f + u + 1) mod bs = Suc u" using assms by (auto simp: dvd_def)
  then show ?thesis using assms by (simp add: pad_zeros_def mod_if)
qed

lemma pad_zeros_extra:
  assumes "bs dvd f" "lp \<le> u" "u < bs" "lp < bs"
  shows "pad_zeros bs lp (f + u) = bs - Suc u + lp"
proof (cases "Suc u = bs")
  case True
  then have "f + u + 1 = f + bs" by simp
  moreover have "(f + bs) mod bs = 0" using assms(1) by simp
  ultimately have "(f + u + 1) mod bs = 0" by (simp only:)
  then show ?thesis using assms True by (simp add: pad_zeros_def)
next
  case False
  then have "(f + u + 1) mod bs = Suc u" using assms by (auto simp: dvd_def)
  then show ?thesis using assms False by (simp add: pad_zeros_def)
qed

lemma finish_state:
  assumes a: "absorbed bs transform init msg ctx" and lp: "lp < bs" "lp + length len = bs"
  shows "h_state (hash_finish bs lp transform len ctx) = hash_spec bs lp transform init len msg"
proof -
  obtain full rest where f: "msg = full @ rest" "bs dvd length full" "h_used ctx = length rest"
      "take (length rest) (h_block ctx) = rest" "h_state ctx = foldl transform init (chunks bs full)"
    and l: "length (h_block ctx) = bs" "h_used ctx < bs"
    using a by (auto simp: absorbed_def)
  define c where "c = ctx\<lparr>h_block := (h_block ctx)[h_used ctx := 0x80], h_used := h_used ctx + 1\<rparr>"
  have c: "length (h_block c) = bs" "h_used c = Suc (length rest)" "h_state c = h_state ctx"
      "take (Suc (length rest)) (h_block c) = rest @ [0x80]"
    using f l by (simp_all add: c_def take_Suc_conv_app_nth)
  have fin: "h_state (hash_finish bs lp transform len ctx) =
      (let d = zero_fill lp (if lp < h_used c then (apply_transform transform (zero_fill bs c))\<lparr>h_used := 0\<rparr> else c)
       in transform (h_state d) (store_at lp len (h_block d)))"
    by (simp add: hash_finish_def apply_transform_def c_def Let_def)
  show ?thesis
  proof (cases "lp < h_used c")
    case False
    let ?last = "rest @ [0x80] @ replicate (lp - Suc (length rest)) 0 @ len"
    have "h_state (hash_finish bs lp transform len ctx) = transform (h_state ctx) ?last"
      using False c lp zero_fill_eq [of c lp]
        store_at_append [of "rest @ [0x80] @ replicate (lp - Suc (length rest)) 0" lp "drop lp (h_block c)" len]
      by (simp add: fin Let_def)
    moreover have "padded bs lp len msg = full @ ?last"
      using False f c lp by (simp add: padded_def pad_zeros_fits)
    ultimately show ?thesis
      using f lp c False by (simp add: hash_spec_def chunks_append chunks_one)
  next
    case True
    let ?one = "rest @ [0x80] @ replicate (bs - Suc (length rest)) 0" and ?two = "replicate lp 0 @ len"
    have "h_state (hash_finish bs lp transform len ctx) = transform (transform (h_state ctx) ?one) ?two"
      using True c l lp f zero_fill_eq [of c bs] store_at_append [of "replicate lp 0" lp "drop lp ?one" len]
      by (simp add: fin apply_transform_def Let_def zero_fill_eq)
    moreover have "padded bs lp len msg = full @ ?one @ ?two"
      using True f c l lp by (simp add: padded_def pad_zeros_extra flip: replicate_add)
    moreover have "chunks bs (?one @ ?two) = [?one, ?two]"
      using chunks_append [of bs ?one ?two] chunks_one [of ?one bs] chunks_one [of ?two bs] f l lp by simp
    ultimately show ?thesis
      using f chunks_append [of bs full "?one @ ?two"] by (simp add: hash_spec_def)
  qed
qed


text \<open>What a digest program provides: sizes that leave room for the length field, and a counter
  of the bytes absorbed that yields that field.\<close>

lemma update_loop_frame:
  "\<exists>s b u. update_loop bs transform data ctx = ctx\<lparr>h_state := s, h_block := b, h_used := u\<rparr>"
proof (induction bs transform data ctx rule: update_loop.induct)
  case (1 bs transform data ctx)
  show ?case
  proof (cases "data = [] \<or> bs < h_used ctx \<or> bs = 0")
    case True
    then show ?thesis
      by (intro exI [of _ "h_state ctx"] exI [of _ "h_block ctx"] exI [of _ "h_used ctx"])
        (auto simp: update_loop.simps [of bs transform data ctx])
  next
    case False
    from 1 [OF False refl refl refl refl] show ?thesis
      using False by (subst update_loop.simps) (fastforce simp: Let_def split: if_splits)
  qed
qed

locale block_hash =
  fixes bs lp :: nat
    and transform :: "'s \<Rightarrow> u8 list \<Rightarrow> 's"
    and count :: "u64 \<Rightarrow> ('s, 'z) hash_ctx_scheme \<Rightarrow> ('s, 'z) hash_ctx_scheme"
    and len :: "('s, 'z) hash_ctx_scheme \<Rightarrow> u8 list"
    and enc :: "nat \<Rightarrow> u8 list"
    and counted :: "nat \<Rightarrow> ('s, 'z) hash_ctx_scheme \<Rightarrow> bool"
  assumes lp: "lp < bs" and enc: "lp + length (enc m) = bs"
    and count_keeps: "h_state (count n ctx) = h_state ctx" "h_block (count n ctx) = h_block ctx" "h_used (count n ctx) = h_used ctx"
    and count_adds: "counted m ctx \<Longrightarrow> k < 2 ^ 64 \<Longrightarrow> counted (m + k) (count (of_nat k) ctx)"
    and counted_only: "counted m ctx \<Longrightarrow> counted m (ctx\<lparr>h_state := s, h_block := b, h_used := u\<rparr>)"
    and counted_len: "counted m ctx \<Longrightarrow> len ctx = enc m"
begin

lemma update_one:
  assumes "absorbed bs transform init msg ctx" "counted (length msg) ctx" "length data < 2 ^ 64"
  shows "absorbed bs transform init (msg @ data) (hash_update bs transform count data ctx) \<and>
    counted (length (msg @ data)) (hash_update bs transform count data ctx)"
proof -
  have "absorbed bs transform init msg (count (of_nat (length data)) ctx)"
    using assms(1) by (simp add: absorbed_def count_keeps)
  then have "absorbed bs transform init (msg @ data) (hash_update bs transform count data ctx)"
    unfolding hash_update_def by (rule update_absorbs)
  moreover have "counted (length (msg @ data)) (hash_update bs transform count data ctx)"
    using count_adds [OF assms(2,3)] update_loop_frame [of bs transform data "count (of_nat (length data)) ctx"]
    by (auto simp: hash_update_def intro: counted_only)
  ultimately show ?thesis by simp
qed

lemma update_many:
  assumes "absorbed bs transform init msg ctx" "counted (length msg) ctx" "\<forall>d \<in> set ds. length d < 2 ^ 64"
  shows "absorbed bs transform init (msg @ concat ds) (fold (hash_update bs transform count) ds ctx) \<and>
    counted (length (msg @ concat ds)) (fold (hash_update bs transform count) ds ctx)"
  using assms
proof (induction ds arbitrary: msg ctx)
  case (Cons d ds)
  then show ?case using update_one [of init msg ctx d] Cons.IH [of "msg @ d" "hash_update bs transform count d ctx"] by simp
qed simp

lemma streaming:
  assumes "absorbed bs transform init [] ctx" "counted 0 ctx" "\<forall>d \<in> set ds. length d < 2 ^ 64"
  defines "c \<equiv> fold (hash_update bs transform count) ds ctx"
  shows "h_state (hash_finish bs lp transform (len c) c) = hash_spec bs lp transform init (enc (length (concat ds))) (concat ds)"
proof -
  have c: "absorbed bs transform init (concat ds) c" "counted (length (concat ds)) c"
    using update_many [OF assms(1) _ assms(3)] assms(2) by (simp_all add: c_def)
  then have "len c = enc (length (concat ds))" by (simp add: counted_len)
  then show ?thesis using finish_state [OF c(1) lp] enc by simp
qed

end

end
