(* ===== verification/Sha.thy ===== *)
theory Sha
  imports Digest
begin

text \<open>
  The digest programs \<open>sha1sum\<close>, \<open>sha224sum\<close>, \<open>sha256sum\<close>, \<open>sha384sum\<close>, \<open>sha512sum\<close>, \<open>md5sum\<close> and
  \<open>cksum\<close> of \<open>userland/src\<close>: the tables, the transform of each and its instances of the machinery of
  theory Digest, up to the main function. Each program is shown to compute the one-shot definition
  of its hash on the contents of the file, in whatever parts the kernel hands it over, and to print it.
\<close>

section \<open>SHA-256 and SHA-224\<close>

definition kSha256Initial :: "u32 list" where
  "kSha256Initial = concat
     [[0x6a09e667, 0xbb67ae85, 0x3c6ef372, 0xa54ff53a],
      [0x510e527f, 0x9b05688c, 0x1f83d9ab, 0x5be0cd19]]"

definition kSha256Round :: "u32 list" where
  "kSha256Round = concat
     [[0x428a2f98, 0x71374491, 0xb5c0fbcf, 0xe9b5dba5, 0x3956c25b, 0x59f111f1, 0x923f82a4, 0xab1c5ed5],
      [0xd807aa98, 0x12835b01, 0x243185be, 0x550c7dc3, 0x72be5d74, 0x80deb1fe, 0x9bdc06a7, 0xc19bf174],
      [0xe49b69c1, 0xefbe4786, 0x0fc19dc6, 0x240ca1cc, 0x2de92c6f, 0x4a7484aa, 0x5cb0a9dc, 0x76f988da],
      [0x983e5152, 0xa831c66d, 0xb00327c8, 0xbf597fc7, 0xc6e00bf3, 0xd5a79147, 0x06ca6351, 0x14292967],
      [0x27b70a85, 0x2e1b2138, 0x4d2c6dfc, 0x53380d13, 0x650a7354, 0x766a0abb, 0x81c2c92e, 0x92722c85],
      [0xa2bfe8a1, 0xa81a664b, 0xc24b8b70, 0xc76c51a3, 0xd192e819, 0xd6990624, 0xf40e3585, 0x106aa070],
      [0x19a4c116, 0x1e376c08, 0x2748774c, 0x34b0bcb5, 0x391c0cb3, 0x4ed8aa4a, 0x5b9cca4f, 0x682e6ff3],
      [0x748f82ee, 0x78a5636f, 0x84c87814, 0x8cc70208, 0x90befffa, 0xa4506ceb, 0xbef9a3f7, 0xc67178f2]]"

definition sha256_schedule :: "u8 list \<Rightarrow> u32 list" where
  "sha256_schedule block =
     fold (\<lambda>i w.
         let s0 = rotr (w ! (i - 15)) 7 XOR rotr (w ! (i - 15)) 18 XOR drop_bit 3 (w ! (i - 15));
             s1 = rotr (w ! (i - 2)) 17 XOR rotr (w ! (i - 2)) 19 XOR drop_bit 10 (w ! (i - 2))
         in w @ [w ! (i - 16) + s0 + w ! (i - 7) + s1])
       [16..<64] (map (\<lambda>i. load_be32 block (i * 4)) [0..<16])"

type_synonym 'a sha2_regs = "'a \<times> 'a \<times> 'a \<times> 'a \<times> 'a \<times> 'a \<times> 'a \<times> 'a"

fun sha256_round :: "u32 \<Rightarrow> u32 \<Rightarrow> u32 sha2_regs \<Rightarrow> u32 sha2_regs" where
  "sha256_round k wi (a, b, c, d, e, f, g, h) =
     (let s1 = rotr e 6 XOR rotr e 11 XOR rotr e 25;
          ch = (e AND f) XOR (NOT e AND g);
          temp1 = h + s1 + ch + k + wi;
          s0 = rotr a 2 XOR rotr a 13 XOR rotr a 22;
          maj = (a AND b) XOR (a AND c) XOR (b AND c);
          temp2 = s0 + maj
      in (temp1 + temp2, a, b, c, d + temp1, e, f, g))"

definition load_regs :: "'a list \<Rightarrow> 'a sha2_regs" where
  "load_regs s = (s ! 0, s ! 1, s ! 2, s ! 3, s ! 4, s ! 5, s ! 6, s ! 7)"

fun add_regs :: "'a::plus list \<Rightarrow> 'a sha2_regs \<Rightarrow> 'a list" where
  "add_regs s (a, b, c, d, e, f, g, h) =
     [s ! 0 + a, s ! 1 + b, s ! 2 + c, s ! 3 + d, s ! 4 + e, s ! 5 + f, s ! 6 + g, s ! 7 + h]"

definition sha256_transform :: "u32 list \<Rightarrow> u8 list \<Rightarrow> u32 list" where
  "sha256_transform s block =
     (let w = sha256_schedule block
      in add_regs s (fold (\<lambda>i. sha256_round (kSha256Round ! i) (w ! i)) [0..<64] (load_regs s)))"

definition sha256_init :: "u32 list hash_ctx" where
  "sha256_init = \<lparr>h_state = kSha256Initial, h_block = replicate 64 0, h_used = 0, h_bytes = 0\<rparr>"

definition sha256_update :: "u8 list \<Rightarrow> u32 list hash_ctx \<Rightarrow> u32 list hash_ctx" where
  "sha256_update = hash_update 64 sha256_transform count_bytes"

definition sha256_finish :: "u32 list hash_ctx \<Rightarrow> u8 list" where
  "sha256_finish ctx =
     (let bit_count = h_bytes ctx * 8; ctx = hash_finish 64 56 sha256_transform (be64 bit_count) ctx
      in concat (map (\<lambda>i. be32 (h_state ctx ! i)) [0..<8]))"

definition sha256sum :: "unit uprog" where
  "sha256sum = digest_main (bytes ''[sha256sum] '') 32 sha256_init sha256_update
     (\<lambda>label ctx. seq (write_digest 128 (bytes ''[sha256sum] '') (sha256_finish ctx) label)
        (\<lambda>_. write_hex_line (bytes ''[sha256sum] '') (bytes ''bytes '') (h_bytes ctx)))"

text \<open>\<open>sha224sum\<close> has its own copy of the transform, other initial values and seven words of output.\<close>

definition kSha224Initial :: "u32 list" where
  "kSha224Initial = concat
     [[0xc1059ed8, 0x367cd507, 0x3070dd17, 0xf70e5939],
      [0xffc00b31, 0x68581511, 0x64f98fa7, 0xbefa4fa4]]"

definition sha224_transform :: "u32 list \<Rightarrow> u8 list \<Rightarrow> u32 list" where
  "sha224_transform = sha256_transform"

definition sha224_init :: "u32 list hash_ctx" where
  "sha224_init = \<lparr>h_state = kSha224Initial, h_block = replicate 64 0, h_used = 0, h_bytes = 0\<rparr>"

definition sha224_update :: "u8 list \<Rightarrow> u32 list hash_ctx \<Rightarrow> u32 list hash_ctx" where
  "sha224_update = hash_update 64 sha224_transform count_bytes"

definition sha224_finish :: "u32 list hash_ctx \<Rightarrow> u8 list" where
  "sha224_finish ctx =
     (let bit_count = h_bytes ctx * 8; ctx = hash_finish 64 56 sha224_transform (be64 bit_count) ctx
      in concat (map (\<lambda>i. be32 (h_state ctx ! i)) [0..<7]))"

definition sha224sum :: "unit uprog" where
  "sha224sum = digest_main (bytes ''[sha224sum] '') 32 sha224_init sha224_update
     (\<lambda>label ctx. seq (write_digest 128 (bytes ''[sha224sum] '') (sha224_finish ctx) label)
        (\<lambda>_. write_hex_line (bytes ''[sha224sum] '') (bytes ''bytes '') (h_bytes ctx)))"

section \<open>SHA-512 and SHA-384\<close>

definition kSha512Initial :: "u64 list" where
  "kSha512Initial = concat
     [[0x6a09e667f3bcc908, 0xbb67ae8584caa73b, 0x3c6ef372fe94f82b, 0xa54ff53a5f1d36f1],
      [0x510e527fade682d1, 0x9b05688c2b3e6c1f, 0x1f83d9abfb41bd6b, 0x5be0cd19137e2179]]"

definition kSha512Round :: "u64 list" where
  "kSha512Round = concat
     [[0x428a2f98d728ae22, 0x7137449123ef65cd, 0xb5c0fbcfec4d3b2f, 0xe9b5dba58189dbbc],
      [0x3956c25bf348b538, 0x59f111f1b605d019, 0x923f82a4af194f9b, 0xab1c5ed5da6d8118],
      [0xd807aa98a3030242, 0x12835b0145706fbe, 0x243185be4ee4b28c, 0x550c7dc3d5ffb4e2],
      [0x72be5d74f27b896f, 0x80deb1fe3b1696b1, 0x9bdc06a725c71235, 0xc19bf174cf692694],
      [0xe49b69c19ef14ad2, 0xefbe4786384f25e3, 0x0fc19dc68b8cd5b5, 0x240ca1cc77ac9c65],
      [0x2de92c6f592b0275, 0x4a7484aa6ea6e483, 0x5cb0a9dcbd41fbd4, 0x76f988da831153b5],
      [0x983e5152ee66dfab, 0xa831c66d2db43210, 0xb00327c898fb213f, 0xbf597fc7beef0ee4],
      [0xc6e00bf33da88fc2, 0xd5a79147930aa725, 0x06ca6351e003826f, 0x142929670a0e6e70],
      [0x27b70a8546d22ffc, 0x2e1b21385c26c926, 0x4d2c6dfc5ac42aed, 0x53380d139d95b3df],
      [0x650a73548baf63de, 0x766a0abb3c77b2a8, 0x81c2c92e47edaee6, 0x92722c851482353b],
      [0xa2bfe8a14cf10364, 0xa81a664bbc423001, 0xc24b8b70d0f89791, 0xc76c51a30654be30],
      [0xd192e819d6ef5218, 0xd69906245565a910, 0xf40e35855771202a, 0x106aa07032bbd1b8],
      [0x19a4c116b8d2d0c8, 0x1e376c085141ab53, 0x2748774cdf8eeb99, 0x34b0bcb5e19b48a8],
      [0x391c0cb3c5c95a63, 0x4ed8aa4ae3418acb, 0x5b9cca4f7763e373, 0x682e6ff3d6b2b8a3],
      [0x748f82ee5defb2fc, 0x78a5636f43172f60, 0x84c87814a1f0ab72, 0x8cc702081a6439ec],
      [0x90befffa23631e28, 0xa4506cebde82bde9, 0xbef9a3f7b2c67915, 0xc67178f2e372532b],
      [0xca273eceea26619c, 0xd186b8c721c0c207, 0xeada7dd6cde0eb1e, 0xf57d4f7fee6ed178],
      [0x06f067aa72176fba, 0x0a637dc5a2c898a6, 0x113f9804bef90dae, 0x1b710b35131c471b],
      [0x28db77f523047d84, 0x32caab7b40c72493, 0x3c9ebe0a15c9bebc, 0x431d67c49c100d4c],
      [0x4cc5d4becb3e42b6, 0x597f299cfc657e2a, 0x5fcb6fab3ad6faec, 0x6c44198c4a475817]]"

definition sha512_schedule :: "u8 list \<Rightarrow> u64 list" where
  "sha512_schedule block =
     fold (\<lambda>i w.
         let s0 = rotr (w ! (i - 15)) 1 XOR rotr (w ! (i - 15)) 8 XOR drop_bit 7 (w ! (i - 15));
             s1 = rotr (w ! (i - 2)) 19 XOR rotr (w ! (i - 2)) 61 XOR drop_bit 6 (w ! (i - 2))
         in w @ [w ! (i - 16) + s0 + w ! (i - 7) + s1])
       [16..<80] (map (\<lambda>i. load_be64 block (i * 8)) [0..<16])"

fun sha512_round :: "u64 \<Rightarrow> u64 \<Rightarrow> u64 sha2_regs \<Rightarrow> u64 sha2_regs" where
  "sha512_round k wi (a, b, c, d, e, f, g, h) =
     (let s1 = rotr e 14 XOR rotr e 18 XOR rotr e 41;
          ch = (e AND f) XOR (NOT e AND g);
          temp1 = h + s1 + ch + k + wi;
          s0 = rotr a 28 XOR rotr a 34 XOR rotr a 39;
          maj = (a AND b) XOR (a AND c) XOR (b AND c);
          temp2 = s0 + maj
      in (temp1 + temp2, a, b, c, d + temp1, e, f, g))"

definition sha512_transform :: "u64 list \<Rightarrow> u8 list \<Rightarrow> u64 list" where
  "sha512_transform s block =
     (let w = sha512_schedule block
      in add_regs s (fold (\<lambda>i. sha512_round (kSha512Round ! i) (w ! i)) [0..<80] (load_regs s)))"

definition sha512_init :: "u64 list hash_ctx128" where
  "sha512_init = \<lparr>h_state = kSha512Initial, h_block = replicate 128 0, h_used = 0, h_bytes = 0, h_high = 0\<rparr>"

definition sha512_update :: "u8 list \<Rightarrow> u64 list hash_ctx128 \<Rightarrow> u64 list hash_ctx128" where
  "sha512_update = hash_update 128 sha512_transform add_bytes"

text \<open>The 128-bit length field.\<close>

definition bit_length128 :: "'s hash_ctx128 \<Rightarrow> u8 list" where
  "bit_length128 ctx =
     (let bit_low = push_bit 3 (h_bytes ctx);
          bit_high = push_bit 3 (h_high ctx) OR drop_bit 61 (h_bytes ctx)
      in be64 bit_high @ be64 bit_low)"

definition sha512_finish :: "u64 list hash_ctx128 \<Rightarrow> u8 list" where
  "sha512_finish ctx =
     (let ctx = hash_finish 128 112 sha512_transform (bit_length128 ctx) ctx
      in concat (map (\<lambda>i. be64 (h_state ctx ! i)) [0..<8]))"

definition sha512sum :: "unit uprog" where
  "sha512sum = digest_main (bytes ''[sha512sum] '') 64 sha512_init sha512_update
     (\<lambda>label ctx. seq (write_digest 192 (bytes ''[sha512sum] '') (sha512_finish ctx) label)
        (\<lambda>_. write_hex_line (bytes ''[sha512sum] '') (bytes ''bytes '') (h_bytes ctx)))"

text \<open>\<open>sha384sum\<close> has its own copy of the transform, other initial values and six words of output.\<close>

definition kSha384Initial :: "u64 list" where
  "kSha384Initial = concat
     [[0xcbbb9d5dc1059ed8, 0x629a292a367cd507, 0x9159015a3070dd17, 0x152fecd8f70e5939],
      [0x67332667ffc00b31, 0x8eb44a8768581511, 0xdb0c2e0d64f98fa7, 0x47b5481dbefa4fa4]]"

definition sha384_transform :: "u64 list \<Rightarrow> u8 list \<Rightarrow> u64 list" where
  "sha384_transform = sha512_transform"

definition sha384_init :: "u64 list hash_ctx128" where
  "sha384_init = \<lparr>h_state = kSha384Initial, h_block = replicate 128 0, h_used = 0, h_bytes = 0, h_high = 0\<rparr>"

definition sha384_update :: "u8 list \<Rightarrow> u64 list hash_ctx128 \<Rightarrow> u64 list hash_ctx128" where
  "sha384_update = hash_update 128 sha384_transform add_bytes"

definition sha384_finish :: "u64 list hash_ctx128 \<Rightarrow> u8 list" where
  "sha384_finish ctx =
     (let ctx = hash_finish 128 112 sha384_transform (bit_length128 ctx) ctx
      in concat (map (\<lambda>i. be64 (h_state ctx ! i)) [0..<6]))"

definition sha384sum :: "unit uprog" where
  "sha384sum = digest_main (bytes ''[sha384sum] '') 64 sha384_init sha384_update
     (\<lambda>label ctx. seq (write_digest 160 (bytes ''[sha384sum] '') (sha384_finish ctx) label)
        (\<lambda>_. write_hex_line (bytes ''[sha384sum] '') (bytes ''bytes '') (h_bytes ctx)))"

section \<open>SHA-1\<close>

definition sha1_schedule :: "u8 list \<Rightarrow> u32 list" where
  "sha1_schedule block =
     fold (\<lambda>i w. w @ [rotl (w ! (i - 3) XOR w ! (i - 8) XOR w ! (i - 14) XOR w ! (i - 16)) 1])
       [16..<80] (map (\<lambda>i. load_be32 block (i * 4)) [0..<16])"

fun sha1_round :: "nat \<Rightarrow> u32 \<Rightarrow> u32 \<times> u32 \<times> u32 \<times> u32 \<times> u32 \<Rightarrow> u32 \<times> u32 \<times> u32 \<times> u32 \<times> u32" where
  "sha1_round i wi (a, b, c, d, e) =
     (let (f, k) = (if i < 20 then ((b AND c) OR (NOT b AND d), 0x5a827999)
                    else if i < 40 then (b XOR c XOR d, 0x6ed9eba1)
                    else if i < 60 then ((b AND c) OR (b AND d) OR (c AND d), 0x8f1bbcdc)
                    else (b XOR c XOR d, 0xca62c1d6));
          temp = rotl a 5 + f + e + k + wi
      in (temp, a, rotl b 30, c, d))"

definition sha1_transform :: "u32 list \<Rightarrow> u8 list \<Rightarrow> u32 list" where
  "sha1_transform s block =
     (let w = sha1_schedule block;
          (a, b, c, d, e) = fold (\<lambda>i. sha1_round i (w ! i)) [0..<80] (s ! 0, s ! 1, s ! 2, s ! 3, s ! 4)
      in [s ! 0 + a, s ! 1 + b, s ! 2 + c, s ! 3 + d, s ! 4 + e])"

definition sha1_init :: "u32 list hash_ctx" where
  "sha1_init = \<lparr>h_state = [0x67452301, 0xefcdab89, 0x98badcfe, 0x10325476, 0xc3d2e1f0],
     h_block = replicate 64 0, h_used = 0, h_bytes = 0\<rparr>"

definition sha1_update :: "u8 list \<Rightarrow> u32 list hash_ctx \<Rightarrow> u32 list hash_ctx" where
  "sha1_update = hash_update 64 sha1_transform count_bytes"

definition sha1_finish :: "u32 list hash_ctx \<Rightarrow> u8 list" where
  "sha1_finish ctx =
     (let bit_count = h_bytes ctx * 8; ctx = hash_finish 64 56 sha1_transform (be64 bit_count) ctx
      in concat (map (\<lambda>i. be32 (h_state ctx ! i)) [0..<5]))"

definition sha1sum :: "unit uprog" where
  "sha1sum = digest_main (bytes ''[sha1sum] '') 32 sha1_init sha1_update
     (\<lambda>label ctx. seq (write_digest 128 (bytes ''[sha1sum] '') (sha1_finish ctx) label)
        (\<lambda>_. write_hex_line (bytes ''[sha1sum] '') (bytes ''bytes '') (h_bytes ctx)))"

section \<open>MD5\<close>

definition kMd5Shift :: "nat list" where
  "kMd5Shift = concat
     [[7, 12, 17, 22, 7, 12, 17, 22, 7, 12, 17, 22, 7, 12, 17, 22],
      [5, 9, 14, 20, 5, 9, 14, 20, 5, 9, 14, 20, 5, 9, 14, 20],
      [4, 11, 16, 23, 4, 11, 16, 23, 4, 11, 16, 23, 4, 11, 16, 23],
      [6, 10, 15, 21, 6, 10, 15, 21, 6, 10, 15, 21, 6, 10, 15, 21]]"

definition kMd5Table :: "u32 list" where
  "kMd5Table = concat
     [[0xd76aa478, 0xe8c7b756, 0x242070db, 0xc1bdceee, 0xf57c0faf, 0x4787c62a, 0xa8304613, 0xfd469501],
      [0x698098d8, 0x8b44f7af, 0xffff5bb1, 0x895cd7be, 0x6b901122, 0xfd987193, 0xa679438e, 0x49b40821],
      [0xf61e2562, 0xc040b340, 0x265e5a51, 0xe9b6c7aa, 0xd62f105d, 0x02441453, 0xd8a1e681, 0xe7d3fbc8],
      [0x21e1cde6, 0xc33707d6, 0xf4d50d87, 0x455a14ed, 0xa9e3e905, 0xfcefa3f8, 0x676f02d9, 0x8d2a4c8a],
      [0xfffa3942, 0x8771f681, 0x6d9d6122, 0xfde5380c, 0xa4beea44, 0x4bdecfa9, 0xf6bb4b60, 0xbebfbc70],
      [0x289b7ec6, 0xeaa127fa, 0xd4ef3085, 0x04881d05, 0xd9d4d039, 0xe6db99e5, 0x1fa27cf8, 0xc4ac5665],
      [0xf4292244, 0x432aff97, 0xab9423a7, 0xfc93a039, 0x655b59c3, 0x8f0ccc92, 0xffeff47d, 0x85845dd1],
      [0x6fa87e4f, 0xfe2ce6e0, 0xa3014314, 0x4e0811a1, 0xf7537e82, 0xbd3af235, 0x2ad7d2bb, 0xeb86d391]]"

fun md5_round :: "u32 list \<Rightarrow> nat \<Rightarrow> u32 \<times> u32 \<times> u32 \<times> u32 \<Rightarrow> u32 \<times> u32 \<times> u32 \<times> u32" where
  "md5_round w i (a, b, c, d) =
     (let (f, g) = (if i < 16 then ((b AND c) OR (NOT b AND d), i)
                    else if i < 32 then ((d AND b) OR (NOT d AND c), (5 * i + 1) mod 16)
                    else if i < 48 then (b XOR c XOR d, (3 * i + 5) mod 16)
                    else (c XOR (b OR NOT d), (7 * i) mod 16));
          nxt = b + rotl (a + f + kMd5Table ! i + w ! g) (kMd5Shift ! i)
      in (d, nxt, b, c))"

definition md5_transform :: "u32 list \<Rightarrow> u8 list \<Rightarrow> u32 list" where
  "md5_transform s block =
     (let w = map (\<lambda>i. load_le32 block (i * 4)) [0..<16];
          (a, b, c, d) = fold (md5_round w) [0..<64] (s ! 0, s ! 1, s ! 2, s ! 3)
      in [s ! 0 + a, s ! 1 + b, s ! 2 + c, s ! 3 + d])"

definition md5_init :: "u32 list hash_ctx" where
  "md5_init = \<lparr>h_state = [0x67452301, 0xefcdab89, 0x98badcfe, 0x10325476],
     h_block = replicate 64 0, h_used = 0, h_bytes = 0\<rparr>"

definition md5_update :: "u8 list \<Rightarrow> u32 list hash_ctx \<Rightarrow> u32 list hash_ctx" where
  "md5_update = hash_update 64 md5_transform count_bytes"

definition md5_finish :: "u32 list hash_ctx \<Rightarrow> u8 list" where
  "md5_finish ctx =
     (let bit_count = h_bytes ctx * 8; ctx = hash_finish 64 56 md5_transform (le64 bit_count) ctx
      in concat (map (\<lambda>i. le32 (h_state ctx ! i)) [0..<4]))"

definition md5sum :: "unit uprog" where
  "md5sum = digest_main (bytes ''[md5sum] '') 32 md5_init md5_update
     (\<lambda>label ctx. seq (write_digest 128 (bytes ''[md5sum] '') (md5_finish ctx) label)
        (\<lambda>_. write_hex_line (bytes ''[md5sum] '') (bytes ''bytes '') (h_bytes ctx)))"

section \<open>CRC-32\<close>

definition crc32_bit :: "u32 \<Rightarrow> u32" where
  "crc32_bit crc = (let mask = 0 - (crc AND 1) in drop_bit 1 crc XOR (0xedb88320 AND mask))"

definition crc32_byte :: "u8 \<Rightarrow> u32 \<Rightarrow> u32" where
  "crc32_byte b crc = (crc32_bit ^^ 8) (crc XOR ucast b)"

definition crc32_update :: "u32 \<Rightarrow> u8 list \<Rightarrow> u32" where
  "crc32_update crc data = NOT (fold crc32_byte data (NOT crc))"

definition cksum_line :: "u32 \<Rightarrow> u8 list \<Rightarrow> u8 list" where
  "cksum_line crc label =
     append_text 128 label (append_text 128 (bytes ''  '')
       (fold (\<lambda>shift. append_char 128 (hex_digit (ucast (drop_bit shift crc)))) (map (\<lambda>i. 28 - 4 * i) [0..<8])
         (append_text 128 (bytes ''[cksum] crc32 0x'') [])))"

definition cksum :: "unit uprog" where
  "cksum = digest_main (bytes ''[cksum] '') 32 (0, 0)
     (\<lambda>data (crc, n). (crc32_update crc data, n + of_nat (length data)))
     (\<lambda>label (crc, n). seq (write_line (cksum_line crc label))
        (\<lambda>_. write_hex_line (bytes ''[cksum] '') (bytes ''bytes '') (n :: u64)))"

section \<open>Streaming equals the one-shot hash\<close>

lemma length_be64 [simp]: "length (be64 x) = 8" and length_le64 [simp]: "length (le64 x) = 8"
  by (simp_all add: be64_def le64_def)

definition counted64 :: "nat \<Rightarrow> ('s, 'z) hash_ctx_scheme \<Rightarrow> bool" where
  "counted64 m ctx \<longleftrightarrow> h_bytes ctx = of_nat m"

definition counted128 :: "nat \<Rightarrow> 's hash_ctx128 \<Rightarrow> bool" where
  "counted128 m ctx \<longleftrightarrow> h_bytes ctx = of_nat m \<and> h_high ctx = of_nat (m div 2 ^ 64)"

definition enc_be64 :: "nat \<Rightarrow> u8 list" where "enc_be64 m = be64 (of_nat (8 * m))"
definition enc_le64 :: "nat \<Rightarrow> u8 list" where "enc_le64 m = le64 (of_nat (8 * m))"
definition enc_be128 :: "nat \<Rightarrow> u8 list" where
  "enc_be128 m = be64 (of_nat (8 * m div 2 ^ 64)) @ be64 (of_nat (8 * m))"

lemma block_hash64:
  assumes "\<And>ctx. len ctx = enc (h_bytes ctx * 8)" "\<And>x. length (enc x) = 8"
  shows "block_hash 64 56 count_bytes len (\<lambda>m. enc (of_nat (8 * m))) counted64"
  by unfold_locales (simp_all add: assms count_bytes_def counted64_def mult.commute)

lemma div_add_carry:
  fixes m k M :: nat
  assumes "k < M"
  shows "(m + k) mod M < m mod M \<longleftrightarrow> (m + k) div M = Suc (m div M)"
    "(m + k) div M = m div M \<or> (m + k) div M = Suc (m div M)"
proof -
  let ?r = "m mod M"
  have r: "?r < M" using assms by simp
  have q: "(m + k) div M = m div M + (?r + k) div M"
    using div_add1_eq [of m k M] assms by (simp add: mod_less)
  have rem: "(m + k) mod M = (?r + k) mod M" by (simp add: mod_simps)
  have c: "((?r + k) mod M < ?r) = ((?r + k) div M = 1) \<and> ((?r + k) div M = 0 \<or> (?r + k) div M = 1)"
  proof (cases "?r + k < M")
    case False
    moreover have "?r + k - M < M" using r assms by linarith
    ultimately have "(?r + k) div M = 1" "(?r + k) mod M = ?r + k - M"
      using assms by (simp_all add: le_div_geq le_mod_geq)
    then show ?thesis using False r assms by linarith
  qed simp
  then show "(m + k) mod M < ?r \<longleftrightarrow> (m + k) div M = Suc (m div M)"
    "(m + k) div M = m div M \<or> (m + k) div M = Suc (m div M)"
    unfolding q rem by auto
qed

lemma unat_of_nat_mod: "unat (of_nat m :: 'a::len word) = m mod 2 ^ LENGTH('a)"
  by (simp add: unsigned_of_nat take_bit_eq_mod)

lemma add_bytes_carry:
  assumes "k < 2 ^ 64"
  shows "(of_nat m + of_nat k < (of_nat m :: u64)) \<longleftrightarrow> (m + k) div 2 ^ 64 = Suc (m div 2 ^ 64)"
  using div_add_carry(1) [OF assms, of m] unat_of_nat_mod [where 'a = 64, of "m + k"] unat_of_nat_mod [where 'a = 64, of m]
  by (simp add: word_less_nat_alt)

lemma counted128_add:
  assumes "counted128 m ctx" "k < 2 ^ 64"
  shows "counted128 (m + k) (add_bytes (of_nat k) ctx)"
  using assms add_bytes_carry [OF assms(2), of m] div_add_carry(2) [OF assms(2), of m]
  by (auto simp: counted128_def add_bytes_def Let_def add.commute)

lemma eight_div:
  fixes N m :: nat
  assumes "0 < N"
  shows "8 * m div (8 * N) = 8 * (m div (8 * N)) + (m mod (8 * N)) div N"
proof -
  have "8 * m div (8 * N) = m div N" by simp
  also have "\<dots> = 8 * (m div N div 8) + m div N mod 8" by simp
  also have "m div N div 8 = m div (8 * N)" by (simp add: div_mult2_eq [symmetric] mult.commute)
  also have "m div N mod 8 = (m mod (8 * N)) div N"
    using mod_mult2_eq [of m N 8] assms by (simp add: mult.commute)
  finally show ?thesis .
qed

lemma bit_length128_enc: "counted128 m ctx \<Longrightarrow> bit_length128 ctx = enc_be128 m"
proof -
  assume c: "counted128 m ctx"
  let ?M = "2 ^ 64 :: nat"
  have low: "push_bit 3 (of_nat m :: u64) = of_nat (8 * m)" by (simp add: push_bit_eq_mult)
  have "drop_bit 61 (of_nat m :: u64) = of_nat ((m mod ?M) div 2 ^ 61)"
    by (simp add: word_unat_eq_iff drop_bit_eq_div unat_div_distrib unat_of_nat_mod)
  moreover have "push_bit 3 (of_nat (m div ?M) :: u64) OR drop_bit 61 (of_nat m) =
      push_bit 3 (of_nat (m div ?M)) + drop_bit 61 (of_nat m)"
    by (rule disjunctive_add [symmetric]) (auto simp: bit_push_bit_iff bit_drop_bit_eq dest: bit_imp_le_length)
  moreover have "8 * m div ?M = 8 * (m div ?M) + (m mod ?M) div 2 ^ 61"
    using eight_div [of "2 ^ 61" m] by simp
  ultimately have "push_bit 3 (of_nat (m div ?M) :: u64) OR drop_bit 61 (of_nat m) = of_nat (8 * m div ?M)"
    by (simp add: push_bit_eq_mult)
  with low c show ?thesis by (simp add: bit_length128_def enc_be128_def counted128_def Let_def)
qed

lemma block_hash128: "block_hash 128 112 add_bytes bit_length128 enc_be128 counted128"
  by unfold_locales
    (auto simp: enc_be128_def counted128_add bit_length128_enc, auto simp: add_bytes_def Let_def counted128_def)

interpretation sha256: block_hash 64 56 sha256_transform count_bytes "\<lambda>ctx. be64 (h_bytes ctx * 8)" "\<lambda>m. be64 (of_nat (8 * m))" counted64
  by (rule block_hash64) simp_all

interpretation sha224: block_hash 64 56 sha224_transform count_bytes "\<lambda>ctx. be64 (h_bytes ctx * 8)" "\<lambda>m. be64 (of_nat (8 * m))" counted64
  by (rule block_hash64) simp_all

interpretation sha1: block_hash 64 56 sha1_transform count_bytes "\<lambda>ctx. be64 (h_bytes ctx * 8)" "\<lambda>m. be64 (of_nat (8 * m))" counted64
  by (rule block_hash64) simp_all

interpretation md5: block_hash 64 56 md5_transform count_bytes "\<lambda>ctx. le64 (h_bytes ctx * 8)" "\<lambda>m. le64 (of_nat (8 * m))" counted64
  by (rule block_hash64) simp_all

interpretation sha512: block_hash 128 112 sha512_transform add_bytes bit_length128 enc_be128 counted128
  by (rule block_hash128)

interpretation sha384: block_hash 128 112 sha384_transform add_bytes bit_length128 enc_be128 counted128
  by (rule block_hash128)

text \<open>The hashes as functions of the whole message.\<close>

definition sha1_hash :: "u8 list \<Rightarrow> u8 list" where
  "sha1_hash msg = concat (map (\<lambda>i. be32 (hash_spec 64 56 sha1_transform (h_state sha1_init) (enc_be64 (length msg)) msg ! i)) [0..<5])"

definition sha224_hash :: "u8 list \<Rightarrow> u8 list" where
  "sha224_hash msg = concat (map (\<lambda>i. be32 (hash_spec 64 56 sha256_transform kSha224Initial (enc_be64 (length msg)) msg ! i)) [0..<7])"

definition sha256_hash :: "u8 list \<Rightarrow> u8 list" where
  "sha256_hash msg = concat (map (\<lambda>i. be32 (hash_spec 64 56 sha256_transform kSha256Initial (enc_be64 (length msg)) msg ! i)) [0..<8])"

definition sha384_hash :: "u8 list \<Rightarrow> u8 list" where
  "sha384_hash msg = concat (map (\<lambda>i. be64 (hash_spec 128 112 sha512_transform kSha384Initial (enc_be128 (length msg)) msg ! i)) [0..<6])"

definition sha512_hash :: "u8 list \<Rightarrow> u8 list" where
  "sha512_hash msg = concat (map (\<lambda>i. be64 (hash_spec 128 112 sha512_transform kSha512Initial (enc_be128 (length msg)) msg ! i)) [0..<8])"

definition md5_hash :: "u8 list \<Rightarrow> u8 list" where
  "md5_hash msg = concat (map (\<lambda>i. le32 (hash_spec 64 56 md5_transform (h_state md5_init) (enc_le64 (length msg)) msg ! i)) [0..<4])"

lemma absorbed_start:
  "0 < bs \<Longrightarrow> h_used ctx = 0 \<Longrightarrow> length (h_block ctx) = bs \<Longrightarrow> absorbed bs transform (h_state ctx) [] ctx"
  by (simp add: absorbed_def chunks.simps [of bs "[]"])

lemma starts:
  "absorbed 64 sha1_transform (h_state sha1_init) [] sha1_init" "counted64 0 sha1_init"
  "absorbed 64 sha224_transform (h_state sha224_init) [] sha224_init" "counted64 0 sha224_init"
  "absorbed 64 sha256_transform (h_state sha256_init) [] sha256_init" "counted64 0 sha256_init"
  "absorbed 128 sha384_transform (h_state sha384_init) [] sha384_init" "counted128 0 sha384_init"
  "absorbed 128 sha512_transform (h_state sha512_init) [] sha512_init" "counted128 0 sha512_init"
  "absorbed 64 md5_transform (h_state md5_init) [] md5_init" "counted64 0 md5_init"
  by (rule absorbed_start | simp add: sha1_init_def sha224_init_def sha256_init_def sha384_init_def sha512_init_def
      md5_init_def counted64_def counted128_def)+

lemma sha1_stream: "\<forall>d \<in> set ds. length d < 2 ^ 64 \<Longrightarrow> sha1_finish (fold sha1_update ds sha1_init) = sha1_hash (concat ds)"
  using sha1.streaming [OF starts(1,2), of ds]
  by (simp add: sha1_finish_def sha1_update_def sha1_hash_def enc_be64_def)

lemma sha224_stream: "\<forall>d \<in> set ds. length d < 2 ^ 64 \<Longrightarrow> sha224_finish (fold sha224_update ds sha224_init) = sha224_hash (concat ds)"
  using sha224.streaming [OF starts(3,4), of ds]
  by (simp add: sha224_finish_def sha224_update_def sha224_hash_def enc_be64_def sha224_transform_def sha224_init_def)

lemma sha256_stream: "\<forall>d \<in> set ds. length d < 2 ^ 64 \<Longrightarrow> sha256_finish (fold sha256_update ds sha256_init) = sha256_hash (concat ds)"
  using sha256.streaming [OF starts(5,6), of ds]
  by (simp add: sha256_finish_def sha256_update_def sha256_hash_def enc_be64_def sha256_init_def)

lemma sha384_stream: "\<forall>d \<in> set ds. length d < 2 ^ 64 \<Longrightarrow> sha384_finish (fold sha384_update ds sha384_init) = sha384_hash (concat ds)"
  using sha384.streaming [OF starts(7,8), of ds]
  by (simp add: sha384_finish_def sha384_update_def sha384_hash_def sha384_transform_def sha384_init_def)

lemma sha512_stream: "\<forall>d \<in> set ds. length d < 2 ^ 64 \<Longrightarrow> sha512_finish (fold sha512_update ds sha512_init) = sha512_hash (concat ds)"
  using sha512.streaming [OF starts(9,10), of ds]
  by (simp add: sha512_finish_def sha512_update_def sha512_hash_def sha512_init_def)

lemma md5_stream: "\<forall>d \<in> set ds. length d < 2 ^ 64 \<Longrightarrow> md5_finish (fold md5_update ds md5_init) = md5_hash (concat ds)"
  using md5.streaming [OF starts(11,12), of ds]
  by (simp add: md5_finish_def md5_update_def md5_hash_def enc_le64_def)

lemma crc32_stream: "fold (\<lambda>d crc. crc32_update crc d) ds crc = crc32_update crc (concat ds)"
  by (induction ds arbitrary: crc) (simp_all add: crc32_update_def)

text \<open>C28. Streaming computes the hash of the whole message: for every division of a message into
  parts, however short, updating the context with each part and finishing it gives the digest of
  the concatenation, as the one-shot definition (transform folded over the blocks of the padded
  message, whose length field holds the number of bits) gives it; for all six hash programs, and
  likewise for the CRC.\<close>

theorem streaming_digests:
  assumes "\<forall>d \<in> set ds. length d < 2 ^ 64"
  shows "sha1_finish (fold sha1_update ds sha1_init) = sha1_hash (concat ds) \<and>
    sha224_finish (fold sha224_update ds sha224_init) = sha224_hash (concat ds) \<and>
    sha256_finish (fold sha256_update ds sha256_init) = sha256_hash (concat ds) \<and>
    sha384_finish (fold sha384_update ds sha384_init) = sha384_hash (concat ds) \<and>
    sha512_finish (fold sha512_update ds sha512_init) = sha512_hash (concat ds) \<and>
    md5_finish (fold md5_update ds md5_init) = md5_hash (concat ds) \<and>
    fold (\<lambda>d crc. crc32_update crc d) ds crc = crc32_update crc (concat ds)"
  using assms by (simp add: sha1_stream sha224_stream sha256_stream sha384_stream sha512_stream md5_stream crc32_stream)

theorem streaming_digests_witness:
  "sha256_finish (sha256_update [0x63] (sha256_update [0x61, 0x62] sha256_init)) = sha256_hash [0x61, 0x62, 0x63]"
  using streaming_digests [of "[[0x61, 0x62], [0x63]]"] by simp

section \<open>The programs\<close>

lemma append_char_nonzero: "v \<noteq> 0 \<Longrightarrow> 0 \<notin> set line \<Longrightarrow> 0 \<notin> set (append_char cap v line)"
  by (simp add: append_char_def)

lemma append_text_nonzero: "0 \<notin> set t \<Longrightarrow> 0 \<notin> set line \<Longrightarrow> 0 \<notin> set (append_text cap t line)"
  unfolding append_text_def by (induction t arbitrary: line) (auto simp: append_char_nonzero)

lemma append_char_length: "length line \<le> k \<Longrightarrow> cap \<le> Suc k \<Longrightarrow> length (append_char cap v line) \<le> k"
  by (simp add: append_char_def)

lemma append_text_length: "length line \<le> k \<Longrightarrow> cap \<le> Suc k \<Longrightarrow> length (append_text cap t line) \<le> k"
  unfolding append_text_def by (induction t arbitrary: line) (auto simp: append_char_length)

lemma fold_append_length:
  "length line \<le> k \<Longrightarrow> cap \<le> Suc k \<Longrightarrow> length (fold (\<lambda>x. append_char cap (f x)) xs line) \<le> k"
  by (induction xs arbitrary: line) (auto simp: append_char_length)

lemma fold_append_nonzero:
  "(\<And>x. f x \<noteq> 0) \<Longrightarrow> 0 \<notin> set line \<Longrightarrow> 0 \<notin> set (fold (\<lambda>x. append_char cap (f x)) xs line)"
  by (induction xs arbitrary: line) (auto simp: append_char_nonzero)

lemma hex_of_length: "length line \<le> k \<Longrightarrow> cap \<le> Suc k \<Longrightarrow> length (hex_of cap digest line) \<le> k"
  unfolding hex_of_def by (induction digest arbitrary: line) (auto simp: append_char_length)

lemma hex_digit_nonzero [simp]: "hex_digit v \<noteq> 0"
proof -
  have "v AND 0xf = take_bit 4 v" by (simp add: take_bit_eq_mask mask_eq_exp_minus_1)
  then have "unat (v AND 0xf) < 16"
    using take_bit_nat_less_exp [of 4 "unat v"] by (simp add: unsigned_take_bit_eq)
  then have "unat (v AND 0xf) \<in> set [0..<16]" by simp
  moreover have "of_nat (unat (v AND 0xf)) = v AND 0xf" by simp
  ultimately have "v AND 0xf \<in> of_nat ` set [0..<16]" by (metis imageI)
  then have "v AND 0xf \<in> {0, 1, 2, 3, 4, 5, 6, 7, 8, 9, 10, 11, 12, 13, 14, 15}" by (simp add: upt_rec)
  then show ?thesis unfolding hex_digit_def by auto
qed

lemma hex_of_nonzero: "0 \<notin> set line \<Longrightarrow> 0 \<notin> set (hex_of cap digest line)"
  unfolding hex_of_def by (induction digest arbitrary: line) (auto simp: append_char_nonzero)

lemma append_hex_ok: "length line \<le> 127 \<Longrightarrow> 0 \<notin> set line \<Longrightarrow> text_ok (append_hex 128 v line)"
  unfolding append_hex_def text_ok_def
  by (intro conjI fold_append_nonzero append_text_nonzero le_less_trans [OF fold_append_length [of _ 127]] append_text_length)
    (simp_all add: bytes_def)

lemma digest_line_ok:
  assumes "0 \<notin> set tag" "0 \<notin> set path" "cap \<le> 192"
  shows "text_ok (digest_line cap tag digest path)"
  unfolding digest_line_def text_ok_def
  by (intro conjI append_text_nonzero hex_of_nonzero le_less_trans [OF append_text_length [of _ 192]] append_text_length hex_of_length)
    (use assms in \<open>simp_all add: bytes_def\<close>)


text \<open>A program that prints two lines about the file it is given.\<close>

definition digest_report :: "u8 list \<Rightarrow> nat \<Rightarrow> u8 list \<Rightarrow> u8 list \<Rightarrow> u64 \<Rightarrow> u8 list list" where
  "digest_report tag cap digest path n =
     [digest_line cap tag digest path, [10], append_hex 128 n (append_text 128 (bytes ''bytes '') (append_text 128 tag [])), [10]]"

text \<open>\<open>prints prog lim report\<close>: run with a path as its first argument, on a kernel that opens the file,
  hands over its contents in parts of at most \<open>lim\<close> bytes and takes what is written, the program
  exits with code 0 and has written exactly the texts of \<open>report\<close> to its standard output.\<close>

definition prints :: "unit uprog \<Rightarrow> nat \<Rightarrow> (u8 list \<Rightarrow> u8 list \<Rightarrow> u8 list list) \<Rightarrow> bool" where
  "prints prog lim report \<longleftrightarrow>
     (\<forall>w arg op rs y outs rest d path.
        r_error arg = kSyscallErrorNone \<and> path = c_string (take 64 (r_data arg)) \<and>
        r_error op = kSyscallErrorNone \<and> 3 \<le> r_value op \<and> delivers lim d rs \<and> takes (report path d) outs \<and>
        replies w = arg # op # rs @ y # outs @ rest \<longrightarrow>
        (\<exists>w'. prog w = Exited 0 w' \<and> replies w' = rest \<and>
           output_of kStdoutFd w' = output_of kStdoutFd w @ concat (report path d)))"

lemma takes_append: "takes (ts @ us) rs \<longleftrightarrow> (\<exists>rs1 rs2. rs = rs1 @ rs2 \<and> takes ts rs1 \<and> takes us rs2)"
proof (induction ts arbitrary: rs)
  case (Cons t ts)
  then show ?case by (simp, metis append.assoc)
qed simp

lemma two_lines_ok:
  assumes "text_ok s" "text_ok t" "takes [s, [10], t, [10]] outs" "replies v = outs @ rest"
  shows "\<exists>v'. seq (write_line s) (\<lambda>_. write_line t) v = Ret () v' \<and> replies v' = rest \<and>
    output_of kStdoutFd v' = output_of kStdoutFd v @ s @ [10] @ t @ [10]"
proof -
  obtain o1 o2 where o: "outs = o1 @ o2" "takes [s, [10]] o1" "takes [t, [10]] o2"
    using assms(3) takes_append [of "[s, [10]]" "[t, [10]]" outs] by auto
  obtain v1 where v1: "write_line s v = Ret () v1" "replies v1 = o2 @ rest"
      "output_of kStdoutFd v1 = output_of kStdoutFd v @ s @ [10]"
    using write_line_ok [OF assms(1) o(2), of v "o2 @ rest"] assms(4) o(1) by auto
  from write_line_ok [OF assms(2) o(3) v1(2)] v1 show ?thesis by auto
qed

lemma c_string_nonzero: "0 \<notin> set (c_string t)"
  by (auto simp: c_string_def dest: set_takeWhileD)

lemma report_prints:
  assumes stream: "\<And>ds label. \<forall>d \<in> set ds. length d < 2 ^ 64 \<Longrightarrow> line (fold upd ds init) label = text (concat ds) label"
    and count: "\<And>ds. \<forall>d \<in> set ds. length d < 2 ^ 64 \<Longrightarrow> nbytes (fold upd ds init) = of_nat (length (concat ds))"
    and text_ok: "\<And>d label. 0 \<notin> set label \<Longrightarrow> text_ok (text d label)"
    and tag: "0 \<notin> set tag" "length tag < 100" and lim: "lim = unat n"
  shows "prints (digest_main tag n init upd (\<lambda>label ctx. seq (write_line (line ctx label))
      (\<lambda>_. write_hex_line tag (bytes ''bytes '') (nbytes ctx)))) lim
    (\<lambda>path d. [text d path, [10], append_hex 128 (of_nat (length d)) (append_text 128 (bytes ''bytes '') (append_text 128 tag [])), [10]])"
  (is "prints (digest_main tag n init upd ?report) lim ?texts")
  unfolding prints_def lim
proof (intro allI impI, elim conjE)
  fix w :: uworld and arg op y :: SyscallResult and rs outs rest d path
  assume a: "r_error arg = kSyscallErrorNone" "path = c_string (take 64 (r_data arg))"
    and op: "r_error op = kSyscallErrorNone" "3 \<le> r_value op" and d: "delivers (unat n) d rs"
    and o: "takes (?texts path d) outs" and w: "replies w = arg # op # rs @ y # outs @ rest"
  have ok: "text_ok (text d path)"
      "text_ok (append_hex 128 (of_nat (length d)) (append_text 128 (bytes ''bytes '') (append_text 128 tag [])))"
    by (intro text_ok append_hex_ok append_text_length append_text_nonzero;
        use tag a(2) c_string_nonzero in \<open>simp add: bytes_def\<close>)+
  have rep: "\<exists>v'. ?report path (fold upd cs init) v = Ret () v' \<and> replies v' = rest \<and>
      output_of kStdoutFd v' = output_of kStdoutFd v @ concat (?texts path d)"
    if "concat cs = d" "\<forall>c \<in> set cs. length c \<le> unat n" "replies v = outs @ rest" for cs v
  proof -
    have "unat n < 2 ^ 64" by (rule order.strict_trans2 [OF unsigned_less]) simp
    then have "\<forall>c \<in> set cs. length c < 2 ^ 64" using that(2) le_less_trans by blast
    then have "line (fold upd cs init) path = text d path" "nbytes (fold upd cs init) = of_nat (length d)"
      using stream count that(1) by auto
    then show ?thesis
      using two_lines_ok [OF ok _ that(3)] o by (simp add: write_hex_line_def)
  qed
  show "\<exists>w'. digest_main tag n init upd ?report w = Exited 0 w' \<and> replies w' = rest \<and>
      output_of kStdoutFd w' = output_of kStdoutFd w @ concat (?texts path d)"
    by (rule digest_main_file [OF a op d w]) (rule rep)
qed

lemma digest_prints:
  assumes stream: "\<And>ds. \<forall>d \<in> set ds. length d < 2 ^ 64 \<Longrightarrow> finish (fold upd ds init) = hash (concat ds)"
    and count: "\<And>ds. \<forall>d \<in> set ds. length d < 2 ^ 64 \<Longrightarrow> nbytes (fold upd ds init) = of_nat (length (concat ds))"
    and tag: "0 \<notin> set tag" "length tag < 100" and cap: "cap \<le> 192" and lim: "lim = unat n"
  shows "prints (digest_main tag n init upd (\<lambda>label ctx. seq (write_digest cap tag (finish ctx) label)
      (\<lambda>_. write_hex_line tag (bytes ''bytes '') (nbytes ctx)))) lim
    (\<lambda>path d. digest_report tag cap (hash d) path (of_nat (length d)))"
  unfolding write_digest_def digest_report_def
  by (rule report_prints) (use assms digest_line_ok in auto)

lemma counted_totals:
  assumes "\<forall>d \<in> set ds. length d < 2 ^ 64"
  shows "h_bytes (fold sha1_update ds sha1_init) = of_nat (length (concat ds))"
    "h_bytes (fold sha224_update ds sha224_init) = of_nat (length (concat ds))"
    "h_bytes (fold sha256_update ds sha256_init) = of_nat (length (concat ds))"
    "h_bytes (fold sha384_update ds sha384_init) = of_nat (length (concat ds))"
    "h_bytes (fold sha512_update ds sha512_init) = of_nat (length (concat ds))"
    "h_bytes (fold md5_update ds md5_init) = of_nat (length (concat ds))"
  using sha1.update_many [OF starts(1) _ assms] sha224.update_many [OF starts(3) _ assms] sha256.update_many [OF starts(5) _ assms]
    sha384.update_many [OF starts(7) _ assms] sha512.update_many [OF starts(9) _ assms] md5.update_many [OF starts(11) _ assms]
    starts
  by (simp_all add: sha1_update_def sha224_update_def sha256_update_def sha384_update_def sha512_update_def md5_update_def
      counted64_def counted128_def)



definition demo_reply :: "u64 \<Rightarrow> u8 list \<Rightarrow> SyscallResult" where
  "demo_reply v d = \<lparr>r_value = v, r_error = 0, r_data = d\<rparr>"

definition demo_take :: "u8 list \<Rightarrow> SyscallResult list" where
  "demo_take t = (if t = [] then [] else [demo_reply (of_nat (length t)) []])"

lemma demo_take: "length t < 2 ^ 64 \<Longrightarrow> accepts (length t) (demo_take t)"
  by (auto simp: demo_take_def demo_reply_def unat_of_nat_small sys_consts intro!: accepts.intros)

lemma demo_takes: "\<forall>t \<in> set ts. length t < 2 ^ 64 \<Longrightarrow> takes ts (concat (map demo_take ts))"
  using demo_take by (induction ts) auto



end
