(* ===== verification/Vectors.thy ===== *)
theory Vectors
  imports Sha
begin

text \<open>
  Published test vectors of the hashes, evaluated on the models of the digest programs: the
  digests of the message \<open>abc\<close> and the CRC-32 of \<open>123456789\<close>.
\<close>

text \<open>Equations for evaluation; the sum with zero brings a result of bit operations to a numeral.\<close>

lemma rotl_code [code]: "rotl v n = 0 + (push_bit n v OR drop_bit (LENGTH('a) - n) v)" for v :: "'a::len word"
  by (simp add: rotl_def)

lemma crc32_bit_code [code]:
  "crc32_bit crc = (let mask = 0 - (crc AND 1) in 0 + (drop_bit 1 crc XOR (0xedb88320 AND mask)))"
  by (simp add: crc32_bit_def)

lemma md5_abc: "md5_finish (md5_update [0x61, 0x62, 0x63] md5_init) =
  [0x90, 0x01, 0x50, 0x98, 0x3c, 0xd2, 0x4f, 0xb0, 0xd6, 0x96, 0x3f, 0x7d, 0x28, 0xe1, 0x7f, 0x72]"
  by code_simp

lemma sha1_abc: "sha1_finish (sha1_update [0x61, 0x62, 0x63] sha1_init) =
  [0xa9, 0x99, 0x3e, 0x36, 0x47, 0x06, 0x81, 0x6a, 0xba, 0x3e, 0x25, 0x71, 0x78, 0x50, 0xc2, 0x6c,
   0x9c, 0xd0, 0xd8, 0x9d]"
  by code_simp

lemma sha224_abc: "sha224_finish (sha224_update [0x61, 0x62, 0x63] sha224_init) =
  [0x23, 0x09, 0x7d, 0x22, 0x34, 0x05, 0xd8, 0x22, 0x86, 0x42, 0xa4, 0x77, 0xbd, 0xa2, 0x55, 0xb3,
   0x2a, 0xad, 0xbc, 0xe4, 0xbd, 0xa0, 0xb3, 0xf7, 0xe3, 0x6c, 0x9d, 0xa7]"
  by code_simp

lemma sha256_abc: "sha256_finish (sha256_update [0x61, 0x62, 0x63] sha256_init) =
  [0xba, 0x78, 0x16, 0xbf, 0x8f, 0x01, 0xcf, 0xea, 0x41, 0x41, 0x40, 0xde, 0x5d, 0xae, 0x22, 0x23,
   0xb0, 0x03, 0x61, 0xa3, 0x96, 0x17, 0x7a, 0x9c, 0xb4, 0x10, 0xff, 0x61, 0xf2, 0x00, 0x15, 0xad]"
  by code_simp

lemma crc32_check: "crc32_update 0 [0x31, 0x32, 0x33, 0x34, 0x35, 0x36, 0x37, 0x38, 0x39] = 0xcbf43926"
  by code_simp


end
